(* ===== verification/Prelude.thy ===== *)
theory Prelude
  imports
    Main
    "HOL-Library.Monad_Syntax"
    "HOL-Library.Signed_Division"
    "HOL-Library.Word"
    "HOL-Library.Sublist"
begin

text \<open>
  Shared vocabulary of the development: the effect of \<^verbatim>\<open>assert\<close> and of fatal
  logging, C++ library routines the sources call (\<^verbatim>\<open>std::copy\<close>,
  \<^verbatim>\<open>std::search\<close>, \<^verbatim>\<open>std::find\<close>, \<^verbatim>\<open>memchr\<close>,
  \<^verbatim>\<open>vector::resize\<close>), the byte layout of machine words, and the theorem
  collections the component proofs draw on.

  A computation that may abort the process has type \<^typ>\<open>'a option\<close>: \<^term>\<open>None\<close> is
  a failed \<^verbatim>\<open>assert\<close>, a \<^verbatim>\<open>LOG_FATAL\<close>/\<^verbatim>\<open>LOG_SYSFATAL\<close>, or an access outside
  an object, after which the program has no further behaviour.
\<close>

named_theorems content_simps \<open>effect of an operation on the abstract value of a structure\<close>
named_theorems inv_intros \<open>preservation of a structure's invariant\<close>

section \<open>Assertions\<close>

definition assert_that :: "bool \<Rightarrow> unit option" where
  "assert_that P = (if P then Some () else None)"

lemma assert_that_simps [simp]:
  "assert_that True = Some ()"
  "assert_that False = None"
  by (simp_all add: assert_that_def)

lemma assert_that_eq [simp]:
  "assert_that P = Some u \<longleftrightarrow> P"
  "assert_that P = None \<longleftrightarrow> \<not> P"
  by (simp_all add: assert_that_def)

lemma assert_bind_Some [simp]:
  "(assert_that P \<bind> f) = Some y \<longleftrightarrow> P \<and> f () = Some y"
  by (cases P) simp_all

lemma assert_bind_None [simp]:
  "(assert_that P \<bind> f) = None \<longleftrightarrow> (P \<longrightarrow> f () = None)"
  by (cases P) simp_all

lemma assert_bind_True [simp]: "P \<Longrightarrow> (assert_that P \<bind> f) = f ()"
  by simp

lemmas option_bind_iff = Option.bind_eq_Some_conv Option.bind_eq_None_conv

section \<open>Vectors and ranges\<close>

text \<open>\<^verbatim>\<open>vector::resize\<close>: truncate, or extend with value-initialised elements.\<close>

definition vec_resize :: "nat \<Rightarrow> 'a \<Rightarrow> 'a list \<Rightarrow> 'a list" where
  "vec_resize n z xs = take n xs @ replicate (n - length xs) z"

lemma length_vec_resize [simp]: "length (vec_resize n z xs) = n"
  by (simp add: vec_resize_def)

lemma take_vec_resize: "k \<le> n \<Longrightarrow> k \<le> length xs \<Longrightarrow> take k (vec_resize n z xs) = take k xs"
  by (simp add: vec_resize_def min_def)

text \<open>
  \<^verbatim>\<open>std::copy(d, d+len, begin()+i)\<close>: the bytes \<open>ys\<close> replace those of \<open>xs\<close> from
  index \<open>i\<close> on. The range has to lie inside the destination.
\<close>

definition overwrite :: "nat \<Rightarrow> 'a list \<Rightarrow> 'a list \<Rightarrow> 'a list" where
  "overwrite i ys xs = take i xs @ ys @ drop (i + length ys) xs"

lemma length_overwrite [simp]:
  "i + length ys \<le> length xs \<Longrightarrow> length (overwrite i ys xs) = length xs"
  by (simp add: overwrite_def)

text \<open>The elements of \<open>xs\<close> in the half-open index range \<open>[i, j)\<close>.\<close>

definition segment :: "nat \<Rightarrow> nat \<Rightarrow> 'a list \<Rightarrow> 'a list" where
  "segment i j xs = take (j - i) (drop i xs)"

lemma length_segment [simp]: "j \<le> length xs \<Longrightarrow> length (segment i j xs) = j - i"
  by (simp add: segment_def)

lemma segment_empty [simp]: "segment i i xs = []"
  by (simp add: segment_def)

lemma segment_append:
  assumes "i \<le> j" "j \<le> k"
  shows "segment i j xs @ segment j k xs = segment i k xs"
proof -
  have "k - i = (j - i) + (k - j)"
    using assms by simp
  then have "segment i k xs = take (j - i) (drop i xs) @ take (k - j) (drop (j - i) (drop i xs))"
    by (simp only: segment_def take_add)
  then show ?thesis
    using assms by (simp add: segment_def)
qed

lemma drop_segment: "drop n (segment i j xs) = segment (i + n) j xs"
  by (simp add: segment_def drop_take add.commute)

lemma take_segment: "i + n \<le> j \<Longrightarrow> take n (segment i j xs) = segment i (i + n) xs"
  by (simp add: segment_def min_def)

lemma segment_overwrite_same [simp]:
  "i \<le> length xs \<Longrightarrow> j = i + length ys \<Longrightarrow> segment i j (overwrite i ys xs) = ys"
  by (simp add: segment_def overwrite_def)

lemma segment_overwrite_before:
  "j \<le> k \<Longrightarrow> k \<le> length xs \<Longrightarrow> segment i j (overwrite k ys xs) = segment i j xs"
  by (cases "i \<le> j") (auto simp: segment_def overwrite_def take_drop)

lemma segment_overwrite_after:
  "i \<le> length xs \<Longrightarrow> k = i + length ys \<Longrightarrow> k \<le> length xs \<Longrightarrow>
    segment k j (overwrite i ys xs) = segment k j xs"
  by (simp add: segment_def overwrite_def)

lemma segment_resize: "j \<le> n \<Longrightarrow> j \<le> length xs \<Longrightarrow> segment i j (vec_resize n z xs) = segment i j xs"
  by (cases "i \<le> j") (auto simp: segment_def take_drop take_vec_resize)

section \<open>Searching\<close>

text \<open>
  \<^verbatim>\<open>std::search\<close> for a non-empty pattern: the offset of its first occurrence, or the
  length of the range.
\<close>

fun std_search :: "'a list \<Rightarrow> 'a list \<Rightarrow> nat" where
  "std_search p [] = 0"
| "std_search p (x # xs) = (if prefix p (x # xs) then 0 else Suc (std_search p xs))"

text \<open>\<^verbatim>\<open>std::find\<close>: the offset of the first element equal to \<open>c\<close>, or the length.\<close>

definition std_find :: "'a \<Rightarrow> 'a list \<Rightarrow> nat" where
  "std_find c xs = length (takeWhile (\<lambda>x. x \<noteq> c) xs)"

text \<open>\<^verbatim>\<open>memchr\<close>: the same with a null pointer for "not found".\<close>

definition memchr :: "'a \<Rightarrow> 'a list \<Rightarrow> nat option" where
  "memchr c xs = (if c \<in> set xs then Some (std_find c xs) else None)"

lemma std_search_le: "std_search p xs \<le> length xs"
  by (induction xs) auto

lemma std_search_found: "std_search p xs < length xs \<Longrightarrow> prefix p (drop (std_search p xs) xs)"
  by (induction xs) auto

lemma std_search_first:
  "i < std_search p xs \<Longrightarrow> \<not> prefix p (drop i xs)"
  by (induction xs arbitrary: i) (auto simp: drop_Cons less_Suc_eq_0_disj split: if_splits nat.splits)

lemma std_search_bound: "std_search p xs < length xs \<Longrightarrow> std_search p xs + length p \<le> length xs"
proof -
  assume lt: "std_search p xs < length xs"
  then have "length p \<le> length (drop (std_search p xs) xs)"
    by (intro prefix_length_le std_search_found)
  with lt show ?thesis by simp
qed

lemma std_search_not_found:
  "std_search p xs = length xs \<Longrightarrow> i < length xs \<Longrightarrow> \<not> prefix p (drop i xs)"
  using std_search_first [of i p xs] by simp

lemma std_search_append:
  "std_search p xs < length xs \<Longrightarrow> std_search p (xs @ ys) = std_search p xs"
proof (induction xs)
  case (Cons x xs)
  have "prefix p (x # xs)" if "prefix p (x # xs @ ys)" "std_search p xs < length xs"
  proof -
    have "length p \<le> length xs" using std_search_bound [OF that(2)] by simp
    with that(1) show ?thesis by (metis append_Cons le_SucI length_Cons prefix_length_prefix prefix_def)
  qed
  moreover have "prefix p (x # xs) \<Longrightarrow> prefix p (x # xs @ ys)" by (metis append_Cons prefix_prefix)
  ultimately show ?case using Cons by (auto split: if_splits)
qed simp

lemma std_search_skip:
  "hd p \<notin> set xs \<Longrightarrow> p \<noteq> [] \<Longrightarrow> std_search p (xs @ p @ ys) = length xs"
proof (induction xs)
  case Nil
  then show ?case by (cases p) auto
next
  case (Cons x xs)
  then have "\<not> prefix p (x # xs @ p @ ys)" by (cases p) auto
  with Cons show ?case by simp
qed

lemma std_find_le [simp]: "std_find c xs \<le> length xs"
  by (simp add: std_find_def length_takeWhile_le)

lemma std_find_append [simp]: "c \<notin> set ys \<Longrightarrow> std_find c (ys @ c # zs) = length ys"
  by (induction ys) (auto simp: std_find_def)

lemma std_find_absent: "c \<notin> set xs \<Longrightarrow> std_find c xs = length xs"
  by (induction xs) (auto simp: std_find_def)

lemma std_find_split:
  assumes "c \<in> set xs"
  shows "xs = take (std_find c xs) xs @ c # drop (Suc (std_find c xs)) xs"
    and "c \<notin> set (take (std_find c xs) xs)"
    and "std_find c xs < length xs"
proof -
  obtain ys zs where xs: "xs = ys @ c # zs" "c \<notin> set ys"
    using assms by (meson split_list_first)
  then have "std_find c xs = length ys" by simp
  with xs show "xs = take (std_find c xs) xs @ c # drop (Suc (std_find c xs)) xs"
    and "c \<notin> set (take (std_find c xs) xs)" and "std_find c xs < length xs"
    by simp_all
qed

lemma std_find_less: "std_find c xs < length xs \<longleftrightarrow> c \<in> set xs"
  using std_find_absent std_find_split(3) by fastforce

section \<open>Decimal output\<close>

text \<open>
  \<open>show_nat\<close> and \<open>show_int\<close> print as \<^verbatim>\<open>%d\<close> does; \<open>show_int_pad w\<close> pads to a width with the given
  character, after the sign when the padding is the digit zero.
\<close>

definition digit_char :: "nat \<Rightarrow> char" where
  "digit_char d = char_of (48 + d)"

function show_nat :: "nat \<Rightarrow> string" where
  "show_nat n = (if n < 10 then [digit_char n] else show_nat (n div 10) @ [digit_char (n mod 10)])"
  by pat_completeness auto
termination by (relation "measure id") auto

declare show_nat.simps [simp del]

definition show_int :: "int \<Rightarrow> string" where
  "show_int i = (if i < 0 then CHR ''-'' # show_nat (nat (- i)) else show_nat (nat i))"

definition pad_left :: "nat \<Rightarrow> char \<Rightarrow> string \<Rightarrow> string" where
  "pad_left w c s = replicate (w - length s) c @ s"

definition show_int_pad :: "nat \<Rightarrow> char \<Rightarrow> int \<Rightarrow> string" where
  "show_int_pad w c i =
     (if i < 0 \<and> c = CHR ''0'' then CHR ''-'' # pad_left (w - 1) c (show_nat (nat (- i)))
      else pad_left w c (show_int i))"

text \<open>\<^verbatim>\<open>snprintf\<close> into an array of \<open>n\<close> bytes keeps \<open>n - 1\<close> characters and the terminating zero.\<close>

definition snprintf :: "nat \<Rightarrow> string \<Rightarrow> string" where
  "snprintf n str = take (n - 1) str"

fun read_digits :: "nat \<Rightarrow> string \<Rightarrow> nat option" where
  "read_digits acc [] = Some acc"
| "read_digits acc (c # cs) =
     (if 48 \<le> (of_char c :: nat) \<and> (of_char c :: nat) \<le> 57 then read_digits (10 * acc + (of_char c - 48)) cs else None)"

lemma of_digit_char: "d < 10 \<Longrightarrow> (of_char (digit_char d) :: nat) = 48 + d"
  by (simp add: digit_char_def)

lemma read_digits_append:
  "read_digits acc (xs @ ys) = do { a \<leftarrow> read_digits acc xs; read_digits a ys }"
  by (induction xs arbitrary: acc) simp_all

lemma read_show_nat: "read_digits 0 (show_nat n) = Some n"
proof (induction n rule: show_nat.induct)
  case (1 n)
  show ?case
  proof (cases "n < 10")
    case True
    then show ?thesis by (simp add: show_nat.simps [of n] of_digit_char)
  next
    case False
    with 1 show ?thesis by (simp add: show_nat.simps [of n] read_digits_append of_digit_char)
  qed
qed

lemma show_nat_inject: "show_nat m = show_nat n \<longleftrightarrow> m = n"
  by (metis option.inject read_show_nat)

lemma show_nat_nonempty [simp]: "show_nat n \<noteq> []"
  by (simp add: show_nat.simps [of n])

lemma length_show_nat: "n < 10 ^ k \<Longrightarrow> 0 < k \<Longrightarrow> length (show_nat n) \<le> k"
proof (induction n arbitrary: k rule: show_nat.induct)
  case (1 n)
  show ?case
  proof (cases "n < 10")
    case True
    with 1(3) show ?thesis by (simp add: show_nat.simps [of n])
  next
    case False
    obtain j where k: "k = Suc j" using 1(3) by (cases k) auto
    have "n div 10 < 10 ^ j" using 1(2) k by simp
    moreover have "0 < j" using 1(2) k False by (cases j) auto
    ultimately have "length (show_nat (n div 10)) \<le> j" by (rule 1(1) [OF False])
    with False k show ?thesis by (simp add: show_nat.simps [of n])
  qed
qed

lemma show_nat_digits: "c \<in> set (show_nat n) \<Longrightarrow> 48 \<le> (of_char c :: nat) \<and> of_char c \<le> (57 :: nat)"
proof (induction n rule: show_nat.induct)
  case (1 n)
  then show ?case
    by (cases "n < 10") (auto simp: show_nat.simps [of n] of_digit_char)
qed

end
