(* ===== verification/Channel.thy ===== *)
theory Channel
  imports Prelude
begin

unbundle bit_operations_syntax

text \<open>
  \<^verbatim>\<open>muduo/net/Channel.h\<close>, \<^verbatim>\<open>Channel.cc\<close>: the I/O channel, its event masks, and the
  dispatch of the returned events to the four callbacks. The operations that also change the
  owner loop's poller (\<^verbatim>\<open>update\<close>, \<^verbatim>\<open>remove\<close> and what calls them) are in theory
  \<open>EventLoop\<close>, which defines the loop they go through.

  Channels are heap objects, named by an address. Event masks are the 32 bits of an
  \<^verbatim>\<open>int\<close>; the constants are those of \<^verbatim>\<open>poll(2)\<close>.
\<close>

type_synonym addr = nat
type_synonym fd = int
type_synonym events = "32 word"

definition POLLIN :: events where "POLLIN = 0x001"
definition POLLPRI :: events where "POLLPRI = 0x002"
definition POLLOUT :: events where "POLLOUT = 0x004"
definition POLLERR :: events where "POLLERR = 0x008"
definition POLLHUP :: events where "POLLHUP = 0x010"
definition POLLNVAL :: events where "POLLNVAL = 0x020"
definition POLLRDHUP :: events where "POLLRDHUP = 0x2000"

lemmas poll_defs =
  POLLIN_def POLLPRI_def POLLOUT_def POLLERR_def POLLHUP_def POLLNVAL_def POLLRDHUP_def

definition kNoneEvent :: events where "kNoneEvent = 0"
definition kReadEvent :: events where "kReadEvent = POLLIN OR POLLPRI"
definition kWriteEvent :: events where "kWriteEvent = POLLOUT"

record channel =
  ch_loop :: addr
  ch_fd :: fd
  ch_events :: events
  ch_revents :: events
  ch_index :: int
  ch_logHup :: bool
  ch_tied :: bool
  ch_eventHandling :: bool
  ch_addedToLoop :: bool

section \<open>Operations on the channel object alone\<close>

definition Channel_new :: "addr \<Rightarrow> fd \<Rightarrow> channel" where
  "Channel_new loop fd =
     \<lparr>ch_loop = loop, ch_fd = fd, ch_events = 0, ch_revents = 0, ch_index = -1, ch_logHup = True,
      ch_tied = False, ch_eventHandling = False, ch_addedToLoop = False\<rparr>"

definition Channel_tie :: "channel \<Rightarrow> channel" where
  "Channel_tie c = c\<lparr>ch_tied := True\<rparr>"

definition Channel_set_revents :: "events \<Rightarrow> channel \<Rightarrow> channel" where
  "Channel_set_revents revt c = c\<lparr>ch_revents := revt\<rparr>"

definition Channel_isNoneEvent :: "channel \<Rightarrow> bool" where
  "Channel_isNoneEvent c \<longleftrightarrow> ch_events c = kNoneEvent"

definition Channel_isWriting :: "channel \<Rightarrow> bool" where
  "Channel_isWriting c \<longleftrightarrow> ch_events c AND kWriteEvent \<noteq> 0"

definition Channel_isReading :: "channel \<Rightarrow> bool" where
  "Channel_isReading c \<longleftrightarrow> ch_events c AND kReadEvent \<noteq> 0"

definition Channel_set_index :: "int \<Rightarrow> channel \<Rightarrow> channel" where
  "Channel_set_index idx c = c\<lparr>ch_index := idx\<rparr>"

definition Channel_doNotLogHup :: "channel \<Rightarrow> channel" where
  "Channel_doNotLogHup c = c\<lparr>ch_logHup := False\<rparr>"

text \<open>The mask changes of \<^verbatim>\<open>enableReading\<close> and its relatives, before \<^verbatim>\<open>update()\<close>.\<close>

definition or_events :: "events \<Rightarrow> channel \<Rightarrow> channel" where
  "or_events m c = c\<lparr>ch_events := ch_events c OR m\<rparr>"

definition mask_events :: "events \<Rightarrow> channel \<Rightarrow> channel" where
  "mask_events m c = c\<lparr>ch_events := ch_events c AND NOT m\<rparr>"

definition none_events :: "channel \<Rightarrow> channel" where
  "none_events c = c\<lparr>ch_events := kNoneEvent\<rparr>"

definition ev_item :: "events \<Rightarrow> events \<Rightarrow> string \<Rightarrow> string" where
  "ev_item ev m s = (if ev AND m \<noteq> 0 then s else [])"

definition Channel_eventsString :: "string \<Rightarrow> events \<Rightarrow> string" where
  "Channel_eventsString fd_text ev =
     fd_text @ '': '' @ ev_item ev POLLIN ''IN '' @ ev_item ev POLLPRI ''PRI '' @
     ev_item ev POLLOUT ''OUT '' @ ev_item ev POLLHUP ''HUP '' @ ev_item ev POLLRDHUP ''RDHUP '' @
     ev_item ev POLLERR ''ERR '' @ ev_item ev POLLNVAL ''NVAL ''"

section \<open>Event dispatch\<close>

text \<open>
  The callbacks run arbitrary code on the program state, which contains the channel; a
  callback that is not set is \<^term>\<open>None\<close>. \<open>get\<close> reads the channel out of the state and
  \<open>upd\<close> changes it there.
\<close>

record 's callbacks =
  readCallback :: "(int \<Rightarrow> 's \<Rightarrow> 's option) option"
  writeCallback :: "('s \<Rightarrow> 's option) option"
  closeCallback :: "('s \<Rightarrow> 's option) option"
  errorCallback :: "('s \<Rightarrow> 's option) option"

definition call_if :: "bool \<Rightarrow> ('s \<Rightarrow> 's option) option \<Rightarrow> 's \<Rightarrow> 's option" where
  "call_if b cb s = (if b then (case cb of None \<Rightarrow> Some s | Some f \<Rightarrow> f s) else Some s)"

definition wants_close :: "events \<Rightarrow> bool" where
  "wants_close r \<longleftrightarrow> r AND POLLHUP \<noteq> 0 \<and> r AND POLLIN = 0"

definition wants_error :: "events \<Rightarrow> bool" where
  "wants_error r \<longleftrightarrow> r AND (POLLERR OR POLLNVAL) \<noteq> 0"

definition wants_read :: "events \<Rightarrow> bool" where
  "wants_read r \<longleftrightarrow> r AND (POLLIN OR POLLPRI OR POLLRDHUP) \<noteq> 0"

definition wants_write :: "events \<Rightarrow> bool" where
  "wants_write r \<longleftrightarrow> r AND POLLOUT \<noteq> 0"

definition Channel_handleEventWithGuard ::
  "('s \<Rightarrow> channel) \<Rightarrow> ((channel \<Rightarrow> channel) \<Rightarrow> 's \<Rightarrow> 's) \<Rightarrow> 's callbacks \<Rightarrow> int \<Rightarrow> 's \<Rightarrow> 's option" where
  "Channel_handleEventWithGuard get upd cbs receiveTime s =
     do {
       let s = upd (\<lambda>c. c\<lparr>ch_eventHandling := True\<rparr>) s;
       s \<leftarrow> call_if (wants_close (ch_revents (get s))) (closeCallback cbs) s;
       s \<leftarrow> call_if (wants_error (ch_revents (get s))) (errorCallback cbs) s;
       s \<leftarrow> call_if (wants_read (ch_revents (get s))) (map_option (\<lambda>f. f receiveTime) (readCallback cbs)) s;
       s \<leftarrow> call_if (wants_write (ch_revents (get s))) (writeCallback cbs) s;
       Some (upd (\<lambda>c. c\<lparr>ch_eventHandling := False\<rparr>) s) }"

text \<open>\<open>alive\<close> says whether \<^verbatim>\<open>tie_.lock()\<close> still finds the owner object.\<close>

definition Channel_handleEvent ::
  "('s \<Rightarrow> channel) \<Rightarrow> ((channel \<Rightarrow> channel) \<Rightarrow> 's \<Rightarrow> 's) \<Rightarrow> 's callbacks \<Rightarrow> bool \<Rightarrow> int \<Rightarrow> 's \<Rightarrow> 's option" where
  "Channel_handleEvent get upd cbs alive receiveTime s =
     (if ch_tied (get s)
      then (if alive then Channel_handleEventWithGuard get upd cbs receiveTime s else Some s)
      else Channel_handleEventWithGuard get upd cbs receiveTime s)"

section \<open>Masks\<close>

lemmas mask_defs = or_events_def mask_events_def none_events_def

lemma mask_algebra:
  fixes x m k :: "'a::len word"
  shows "(x OR m) AND m = m"
    and "(x AND NOT m) AND m = 0"
    and "m AND k = 0 \<Longrightarrow> (x OR m) AND k = x AND k"
    and "m AND k = 0 \<Longrightarrow> (x AND NOT m) AND k = x AND k"
  by (auto simp: bit_eq_iff bit_simps)

lemma kEvents_nonzero: "kReadEvent \<noteq> 0" "kWriteEvent \<noteq> 0"
  by (simp_all add: kReadEvent_def kWriteEvent_def poll_defs)

text \<open>Reading and writing are independent bits.\<close>

lemma disjoint_masks: "kReadEvent AND kWriteEvent = 0" "kWriteEvent AND kReadEvent = 0"
  by (simp_all add: kReadEvent_def kWriteEvent_def poll_defs)

lemma isWriting_ops [simp]:
  "Channel_isWriting (or_events kWriteEvent c)"
  "\<not> Channel_isWriting (mask_events kWriteEvent c)"
  "Channel_isWriting (or_events kReadEvent c) = Channel_isWriting c"
  "Channel_isWriting (mask_events kReadEvent c) = Channel_isWriting c"
  by (simp_all add: Channel_isWriting_def mask_defs mask_algebra kEvents_nonzero disjoint_masks)

lemma isReading_ops [simp]:
  "Channel_isReading (or_events kReadEvent c)"
  "\<not> Channel_isReading (mask_events kReadEvent c)"
  "Channel_isReading (or_events kWriteEvent c) = Channel_isReading c"
  "Channel_isReading (mask_events kWriteEvent c) = Channel_isReading c"
  by (simp_all add: Channel_isReading_def mask_defs mask_algebra kEvents_nonzero disjoint_masks)

lemma none_events_simps [simp]:
  "Channel_isNoneEvent (none_events c)"
  "\<not> Channel_isWriting (none_events c)"
  "\<not> Channel_isReading (none_events c)"
  by (simp_all add: Channel_isNoneEvent_def Channel_isWriting_def Channel_isReading_def mask_defs
      kNoneEvent_def)

lemma not_none_if_writing: "Channel_isWriting c \<Longrightarrow> \<not> Channel_isNoneEvent c"
  by (auto simp: Channel_isWriting_def Channel_isNoneEvent_def kNoneEvent_def)

lemma not_none_if_reading: "Channel_isReading c \<Longrightarrow> \<not> Channel_isNoneEvent c"
  by (auto simp: Channel_isReading_def Channel_isNoneEvent_def kNoneEvent_def)

end
