(* ===== verification/Poller.thy ===== *)
theory Poller
  imports Channel
begin

text \<open>
  The base class \<^verbatim>\<open>muduo/net/Poller.h\<close>, \<^verbatim>\<open>Poller.cc\<close> and the contract its two subclasses
  meet. The channels are objects on a heap that the poller does not own: an operation takes
  and returns the heap together with the poller.

  The locale \<open>poller_contract\<close> states what the event loop relies on: \<open>known\<close> is the map of
  registered channels, \<open>watched\<close> the descriptors with the events the kernel is asked to
  report. \<open>quiet\<close> is the state a descriptor has to be in before its channel is removed.
\<close>

type_synonym heap = "addr \<Rightarrow> channel option"

record poller =
  pl_channels :: "fd \<Rightarrow> addr option"
  pl_thread :: int

definition Poller_assertInLoopThread :: "int \<Rightarrow> 'z poller_scheme \<Rightarrow> unit option" where
  "Poller_assertInLoopThread tid p = assert_that (pl_thread p = tid)"

definition Poller_hasChannel :: "int \<Rightarrow> addr \<Rightarrow> heap \<times> 'z poller_scheme \<Rightarrow> bool option" where
  "Poller_hasChannel tid a hp =
     (case hp of (h, p) \<Rightarrow>
        do {
          Poller_assertInLoopThread tid p;
          c \<leftarrow> h a;
          Some (pl_channels p (ch_fd c) = Some a) })"

section \<open>The contract\<close>

text \<open>Two heaps that differ in the pollers' private field \<^verbatim>\<open>index_\<close> at most.\<close>

definition same_but_index :: "heap \<Rightarrow> heap \<Rightarrow> bool" where
  "same_but_index h h' \<longleftrightarrow>
     (\<forall>a. map_option (Channel_set_index 0) (h a) = map_option (Channel_set_index 0) (h' a))"

lemma same_but_index_refl [simp]: "same_but_index h h"
  by (simp add: same_but_index_def)

lemma same_but_index_trans:
  "same_but_index h h' \<Longrightarrow> same_but_index h' h'' \<Longrightarrow> same_but_index h h''"
  by (simp add: same_but_index_def)

lemma same_but_index_upd:
  "h a = Some c \<Longrightarrow> same_but_index h (h(a \<mapsto> Channel_set_index i c))"
  by (simp add: same_but_index_def Channel_set_index_def)

lemma same_but_index_field:
  assumes "same_but_index h h'" "\<And>c. f (Channel_set_index 0 c) = f c"
  shows "map_option f (h' a) = map_option f (h a)"
proof -
  have "map_option f (h x) = map_option f (map_option (Channel_set_index 0) (h x))" for h :: heap and x
    by (cases "h x") (simp_all add: assms(2))
  with assms(1) show ?thesis
    by (simp add: same_but_index_def)
qed

lemma Channel_set_index_fields [simp]:
  "ch_fd (Channel_set_index i c) = ch_fd c" "ch_events (Channel_set_index i c) = ch_events c"
  "ch_revents (Channel_set_index i c) = ch_revents c" "ch_loop (Channel_set_index i c) = ch_loop c"
  "ch_addedToLoop (Channel_set_index i c) = ch_addedToLoop c" "ch_tied (Channel_set_index i c) = ch_tied c"
  "ch_eventHandling (Channel_set_index i c) = ch_eventHandling c" "ch_index (Channel_set_index i c) = i"
  "Channel_isNoneEvent (Channel_set_index i c) = Channel_isNoneEvent c"
  by (simp_all add: Channel_set_index_def Channel_isNoneEvent_def)

lemma same_but_index_Some:
  assumes "same_but_index h h'" "h a = Some c"
  shows "\<exists>c'. h' a = Some c' \<and> ch_fd c' = ch_fd c \<and> ch_events c' = ch_events c \<and>
    ch_loop c' = ch_loop c \<and> ch_addedToLoop c' = ch_addedToLoop c"
  using assms same_but_index_field [OF assms(1), of "\<lambda>c. (ch_fd c, ch_events c, ch_loop c, ch_addedToLoop c)" a]
  by auto

text \<open>A channel on a real descriptor, with a mask that fits the \<^verbatim>\<open>short\<close> of \<^verbatim>\<open>struct pollfd\<close>.\<close>

definition chan_ok :: "channel \<Rightarrow> bool" where
  "chan_ok c \<longleftrightarrow> 0 \<le> ch_fd c \<and> unat (ch_events c) < 2 ^ 15"

text \<open>The events a mask asks for: an empty mask asks for nothing.\<close>

definition wanted :: "events \<Rightarrow> events option" where
  "wanted ev = (if ev = 0 then None else Some ev)"

text \<open>A channel no poller has seen yet: its index is the \<open>-1\<close> of the constructor.\<close>

definition fresh :: "heap \<Rightarrow> addr \<Rightarrow> bool" where
  "fresh h a \<longleftrightarrow> map_option ch_index (h a) = Some (- 1)"

locale poller_contract =
  fixes inv :: "heap \<Rightarrow> 'p \<Rightarrow> bool"
    and thread :: "'p \<Rightarrow> int"
    and known :: "'p \<Rightarrow> fd \<Rightarrow> addr option"
    and watched :: "'p \<Rightarrow> fd \<Rightarrow> events option"
    and quiet :: "heap \<Rightarrow> 'p \<Rightarrow> fd \<Rightarrow> bool"
    and update :: "int \<Rightarrow> addr \<Rightarrow> heap \<times> 'p \<Rightarrow> (heap \<times> 'p) option"
    and remove :: "int \<Rightarrow> addr \<Rightarrow> heap \<times> 'p \<Rightarrow> (heap \<times> 'p) option"
  assumes update_spec:
      "\<lbrakk>inv h p; thread p = tid; h a = Some c; chan_ok c;
        known p (ch_fd c) = Some a \<or> (known p (ch_fd c) = None \<and> fresh h a)\<rbrakk> \<Longrightarrow>
       \<exists>h' p'. update tid a (h, p) = Some (h', p') \<and> inv h' p' \<and> thread p' = thread p \<and>
         same_but_index h h' \<and> (\<forall>b. b \<noteq> a \<longrightarrow> fresh h b \<longrightarrow> fresh h' b) \<and>
         known p' = (known p)(ch_fd c \<mapsto> a) \<and>
         watched p' = (watched p)(ch_fd c := wanted (ch_events c)) \<and>
         (\<forall>fd. fd \<noteq> ch_fd c \<longrightarrow> quiet h' p' fd = quiet h p fd) \<and>
         (known p (ch_fd c) = Some a \<longrightarrow> ch_events c = 0 \<longrightarrow> quiet h' p' (ch_fd c))"
    and remove_spec:
      "\<lbrakk>inv h p; thread p = tid; h a = Some c; chan_ok c; known p (ch_fd c) = Some a;
        ch_events c = 0; quiet h p (ch_fd c)\<rbrakk> \<Longrightarrow>
       \<exists>h' p'. remove tid a (h, p) = Some (h', p') \<and> inv h' p' \<and> thread p' = thread p \<and>
         same_but_index h h' \<and> (\<forall>b. b \<noteq> a \<longrightarrow> fresh h b \<longrightarrow> fresh h' b) \<and>
         known p' = (known p)(ch_fd c := None) \<and>
         watched p' = (watched p)(ch_fd c := None) \<and>
         (\<forall>fd. fd \<noteq> ch_fd c \<longrightarrow> quiet h' p' fd = quiet h p fd)"
    and events_change: "inv h p \<Longrightarrow> h a = Some c \<Longrightarrow> inv (h(a \<mapsto> c\<lparr>ch_events := ev\<rparr>)) p"
    and events_quiet: "h a = Some c \<Longrightarrow> quiet (h(a \<mapsto> c\<lparr>ch_events := ev\<rparr>)) p fd = quiet h p fd"

section \<open>Ready channels\<close>

text \<open>The heap in which the reported channels hold the reported masks.\<close>

definition ready_heap :: "(events \<times> addr) list \<Rightarrow> heap \<Rightarrow> heap" where
  "ready_heap evs h =
     (\<lambda>a. case map_of (map (\<lambda>(ev, a). (a, ev)) evs) a of
            None \<Rightarrow> h a
          | Some ev \<Rightarrow> map_option (Channel_set_revents ev) (h a))"

lemma ready_heap_Nil [simp]: "ready_heap [] h = h"
  by (simp add: ready_heap_def)

lemma ready_heap_Cons:
  assumes "a \<notin> snd ` set evs" "h a = Some c"
  shows "ready_heap ((ev, a) # evs) h = ready_heap evs (h(a \<mapsto> Channel_set_revents ev c))"
proof
  fix x
  have "map_of (map (\<lambda>(ev, a). (a, ev)) evs) a = None"
    using assms(1) by (force simp: map_of_eq_None_iff)
  with assms(2) show "ready_heap ((ev, a) # evs) h x = ready_heap evs (h(a \<mapsto> Channel_set_revents ev c)) x"
    by (cases "x = a") (simp_all add: ready_heap_def split: option.splits)
qed

lemma Channel_set_revents_simps [simp]:
  "ch_fd (Channel_set_revents ev c) = ch_fd c" "ch_index (Channel_set_revents ev c) = ch_index c"
  "ch_events (Channel_set_revents ev c) = ch_events c" "ch_revents (Channel_set_revents ev c) = ev"
  by (simp_all add: Channel_set_revents_def)

section \<open>Sequences of channel operations\<close>

text \<open>
  What a channel does to its poller: it changes its mask and updates, or it is removed. The
  run is written over the two operations of the poller, so that it can be taken for either
  subclass.
\<close>

datatype chan_op = SetEvents addr events | Remove addr

definition set_events :: "addr \<Rightarrow> events \<Rightarrow> heap \<Rightarrow> heap" where
  "set_events a ev h = (case h a of None \<Rightarrow> h | Some c \<Rightarrow> h(a \<mapsto> c\<lparr>ch_events := ev\<rparr>))"

fun poller_exec ::
  "(addr \<Rightarrow> heap \<times> 'p \<Rightarrow> (heap \<times> 'p) option) \<Rightarrow> (addr \<Rightarrow> heap \<times> 'p \<Rightarrow> (heap \<times> 'p) option) \<Rightarrow>
   chan_op \<Rightarrow> heap \<times> 'p \<Rightarrow> (heap \<times> 'p) option" where
  "poller_exec update remove (SetEvents a ev) (h, p) = update a (set_events a ev h, p)"
| "poller_exec update remove (Remove a) (h, p) = remove a (h, p)"

fun poller_run ::
  "(addr \<Rightarrow> heap \<times> 'p \<Rightarrow> (heap \<times> 'p) option) \<Rightarrow> (addr \<Rightarrow> heap \<times> 'p \<Rightarrow> (heap \<times> 'p) option) \<Rightarrow>
   chan_op list \<Rightarrow> heap \<times> 'p \<Rightarrow> (heap \<times> 'p) option" where
  "poller_run update remove [] hp = Some hp"
| "poller_run update remove (x # xs) hp =
     do { hp' \<leftarrow> poller_exec update remove x hp; poller_run update remove xs hp' }"

text \<open>
  The abstract poller: which address is registered for a descriptor, which events it watches,
  and whether the channel may be removed. \<open>fds\<close> gives the descriptor of a channel.
\<close>

record watch_table =
  wt_known :: "fd \<Rightarrow> addr option"
  wt_watched :: "fd \<Rightarrow> events option"
  wt_events :: "addr \<Rightarrow> events"
  wt_quiet :: "fd \<Rightarrow> bool"
  wt_fresh :: "addr \<Rightarrow> bool"

fun legal :: "(addr \<Rightarrow> fd option) \<Rightarrow> chan_op \<Rightarrow> watch_table \<Rightarrow> bool" where
  "legal fds (SetEvents a ev) w \<longleftrightarrow>
     (\<exists>fd. fds a = Some fd \<and> 0 \<le> fd \<and> unat ev < 2 ^ 15 \<and>
        (wt_known w fd = Some a \<or> (wt_known w fd = None \<and> wt_fresh w a)))"
| "legal fds (Remove a) w \<longleftrightarrow>
     (\<exists>fd. fds a = Some fd \<and> 0 \<le> fd \<and> wt_known w fd = Some a \<and> wt_events w a = 0 \<and> wt_quiet w fd)"

fun table_exec :: "(addr \<Rightarrow> fd option) \<Rightarrow> chan_op \<Rightarrow> watch_table \<Rightarrow> watch_table" where
  "table_exec fds (SetEvents a ev) w =
     (let fd = the (fds a)
      in w\<lparr>wt_known := (wt_known w)(fd \<mapsto> a), wt_watched := (wt_watched w)(fd := wanted ev),
           wt_events := (wt_events w)(a := ev),
           wt_quiet := (wt_quiet w)(fd := wt_known w fd = Some a \<and> ev = 0),
           wt_fresh := (wt_fresh w)(a := False)\<rparr>)"
| "table_exec fds (Remove a) w =
     (let fd = the (fds a)
      in w\<lparr>wt_known := (wt_known w)(fd := None), wt_watched := (wt_watched w)(fd := None),
           wt_quiet := (wt_quiet w)(fd := False), wt_fresh := (wt_fresh w)(a := False)\<rparr>)"

fun legal_run :: "(addr \<Rightarrow> fd option) \<Rightarrow> chan_op list \<Rightarrow> watch_table \<Rightarrow> bool" where
  "legal_run fds [] w = True"
| "legal_run fds (x # xs) w \<longleftrightarrow> legal fds x w \<and> legal_run fds xs (table_exec fds x w)"

fun table_run :: "(addr \<Rightarrow> fd option) \<Rightarrow> chan_op list \<Rightarrow> watch_table \<Rightarrow> watch_table" where
  "table_run fds [] w = w"
| "table_run fds (x # xs) w = table_run fds xs (table_exec fds x w)"

text \<open>The client's view proved once for every poller that meets the contract.\<close>

context poller_contract
begin

definition agrees :: "(addr \<Rightarrow> fd option) \<Rightarrow> watch_table \<Rightarrow> heap \<Rightarrow> 'p \<Rightarrow> bool" where
  "agrees fds w h p \<longleftrightarrow>
     known p = wt_known w \<and> watched p = wt_watched w \<and>
     (\<forall>a. wt_fresh w a \<longrightarrow> fresh h a) \<and>
     (\<forall>a. map_option ch_fd (h a) = fds a) \<and>
     (\<forall>a. map_option ch_events (h a) \<in> {None, Some (wt_events w a)}) \<and>
     (\<forall>fd. wt_quiet w fd \<longrightarrow> quiet h p fd)"

lemma agrees_heap:
  assumes "same_but_index h h'" "\<forall>a. map_option ch_fd (h a) = fds a"
    "\<forall>a. map_option ch_events (h a) \<in> {None, Some (ev a)}"
  shows "\<forall>a. map_option ch_fd (h' a) = fds a"
    and "\<forall>a. map_option ch_events (h' a) \<in> {None, Some (ev a)}"
  using assms by (simp_all add: same_but_index_field [OF assms(1)])

lemma agrees_chan:
  assumes "agrees fds w h p" "fds a = Some fd"
  obtains c where "h a = Some c" "ch_fd c = fd" "ch_events c = wt_events w a"
proof -
  have "map_option ch_fd (h a) = Some fd" "map_option ch_events (h a) \<in> {None, Some (wt_events w a)}"
    using assms by (auto simp only: agrees_def)
  then show thesis using that by auto
qed

lemma exec_agrees:
  assumes inv: "inv h p" and ag: "agrees fds w h p" and tid: "thread p = tid" and lg: "legal fds x w"
  shows "\<exists>h' p'. poller_exec (update tid) (remove tid) x (h, p) = Some (h', p') \<and> inv h' p' \<and>
    thread p' = tid \<and> agrees fds (table_exec fds x w) h' p'"
proof (cases x)
  case (SetEvents a ev)
  with lg obtain fd where fd: "fds a = Some fd" "0 \<le> fd" "unat ev < 2 ^ 15"
      "known p fd = Some a \<or> (known p fd = None \<and> fresh h a)"
    using ag by (auto simp: agrees_def)
  obtain c where c: "h a = Some c" "ch_fd c = fd" by (rule agrees_chan [OF ag fd(1)])
  let ?c = "c\<lparr>ch_events := ev\<rparr>" and ?h = "set_events a ev h"
  have h: "?h = h(a \<mapsto> ?c)" using c by (simp add: set_events_def)
  have "\<exists>h' p'. update tid a (?h, p) = Some (h', p') \<and> inv h' p' \<and> thread p' = thread p \<and>
      same_but_index ?h h' \<and> (\<forall>b. b \<noteq> a \<longrightarrow> fresh ?h b \<longrightarrow> fresh h' b) \<and> known p' = (known p)(ch_fd ?c \<mapsto> a) \<and>
      watched p' = (watched p)(ch_fd ?c := wanted (ch_events ?c)) \<and>
      (\<forall>fd. fd \<noteq> ch_fd ?c \<longrightarrow> quiet h' p' fd = quiet ?h p fd) \<and>
      (known p (ch_fd ?c) = Some a \<longrightarrow> ch_events ?c = 0 \<longrightarrow> quiet h' p' (ch_fd ?c))"
    using inv tid c fd by (intro update_spec) (auto simp: h events_change chan_ok_def fresh_def)
  then obtain h' p' where u: "update tid a (?h, p) = Some (h', p')" "inv h' p'" "thread p' = thread p"
      "same_but_index ?h h'" "known p' = (known p)(fd \<mapsto> a)" "watched p' = (watched p)(fd := wanted ev)"
      "\<forall>fd'. fd' \<noteq> fd \<longrightarrow> quiet h' p' fd' = quiet ?h p fd'"
      "known p fd = Some a \<longrightarrow> ev = 0 \<longrightarrow> quiet h' p' fd"
      "\<forall>b. b \<noteq> a \<longrightarrow> fresh ?h b \<longrightarrow> fresh h' b"
    using c(2) by auto
  have "\<forall>b. map_option ch_fd (h b) = fds b" using ag by (simp add: agrees_def)
  then have "\<forall>b. map_option ch_fd (?h b) = fds b" using c fd(1) h by simp
  moreover have "\<forall>b. map_option ch_events (?h b) \<in> {None, Some (((wt_events w)(a := ev)) b)}"
    using ag h by (auto simp: agrees_def)
  ultimately have "\<forall>b. map_option ch_fd (h' b) = fds b"
      "\<forall>b. map_option ch_events (h' b) \<in> {None, Some (((wt_events w)(a := ev)) b)}"
    using agrees_heap [OF u(4)] by blast+
  moreover have "quiet ?h p fd' = quiet h p fd'" for fd'
    using c(1) by (simp add: h events_quiet)
  moreover have "fresh ?h b = fresh h b" for b
    using c(1) by (simp add: h fresh_def)
  ultimately have "agrees fds (table_exec fds x w) h' p'"
    using u ag fd SetEvents by (auto simp: agrees_def Let_def)
  with u tid SetEvents show ?thesis by auto
next
  case (Remove a)
  with lg obtain fd where fd: "fds a = Some fd" "0 \<le> fd" "known p fd = Some a" "wt_events w a = 0"
      "quiet h p fd"
    using ag by (auto simp: agrees_def)
  obtain c where c: "h a = Some c" "ch_fd c = fd" and "ch_events c = wt_events w a"
    by (rule agrees_chan [OF ag fd(1)])
  with fd(4) have ev: "ch_events c = 0" by simp
  then have "chan_ok c" using c fd by (simp add: chan_ok_def)
  with remove_spec [OF inv tid c(1)] ev fd c(2)
  obtain h' p' where r: "remove tid a (h, p) = Some (h', p')" "inv h' p'" "thread p' = thread p"
      "same_but_index h h'" "known p' = (known p)(fd := None)" "watched p' = (watched p)(fd := None)"
      "\<forall>fd'. fd' \<noteq> fd \<longrightarrow> quiet h' p' fd' = quiet h p fd'"
      "\<forall>b. b \<noteq> a \<longrightarrow> fresh h b \<longrightarrow> fresh h' b"
    by auto
  from ag have "\<forall>b. map_option ch_fd (h b) = fds b"
      "\<forall>b. map_option ch_events (h b) \<in> {None, Some (wt_events w b)}"
    by (simp_all add: agrees_def)
  then have "\<forall>b. map_option ch_fd (h' b) = fds b"
      "\<forall>b. map_option ch_events (h' b) \<in> {None, Some (wt_events w b)}"
    using agrees_heap [OF r(4)] by blast+
  then have "agrees fds (table_exec fds x w) h' p'"
    using r ag fd Remove by (auto simp: agrees_def Let_def)
  with r tid Remove show ?thesis by auto
qed

lemma run_agrees:
  assumes "inv h p" "agrees fds w h p" "thread p = tid" "legal_run fds xs w"
  shows "\<exists>h' p'. poller_run (update tid) (remove tid) xs (h, p) = Some (h', p') \<and> inv h' p' \<and>
    agrees fds (table_run fds xs w) h' p'"
  using assms
proof (induction xs arbitrary: h p w)
  case Nil
  then show ?case by auto
next
  case (Cons x xs)
  then obtain h' p' where s: "poller_exec (update tid) (remove tid) x (h, p) = Some (h', p')" "inv h' p'"
      "thread p' = tid" "agrees fds (table_exec fds x w) h' p'"
    using exec_agrees [of h p fds w tid x] by auto
  from Cons.IH [OF s(2) s(4) s(3)] Cons.prems(4) show ?case
    using s(1) by simp
qed

lemma run_watched:
  assumes "inv h p" "agrees fds w h p" "thread p = tid" "legal_run fds xs w"
  shows "\<exists>h' p'. poller_run (update tid) (remove tid) xs (h, p) = Some (h', p') \<and>
    known p' = wt_known (table_run fds xs w) \<and> watched p' = wt_watched (table_run fds xs w)"
  using run_agrees [OF assms] by (auto simp: agrees_def)

end

end
