(* ===== verification/EPollPoller.thy ===== *)
theory EPollPoller
  imports Poller
begin

text \<open>
  \<^verbatim>\<open>muduo/net/poller/EPollPoller.h\<close>, \<^verbatim>\<open>EPollPoller.cc\<close>. The kernel is a parameter: \<open>ctl\<close> gives
  the result of \<^verbatim>\<open>epoll_ctl(2)\<close> from the calls made on this descriptor so far, the result of
  \<^verbatim>\<open>epoll_wait(2)\<close> is an argument of \<open>EPollPoller_poll\<close>. The poller carries the calls it made
  with their results as a history; \<open>interest\<close> replays it into the interest list, and
  \<open>kernel_ok\<close> is the behaviour the manual page documents: a call that names a descriptor
  correctly with respect to that list is accepted.
\<close>

datatype ctl_op = CTL_ADD | CTL_DEL | CTL_MOD

datatype ctl_call = Ctl ctl_op fd events addr

record epoller = poller +
  ep_size :: nat
  ep_history :: "(ctl_call \<times> int) list"

type_synonym epoll_ctl = "(ctl_call \<times> int) list \<Rightarrow> ctl_call \<Rightarrow> int"

definition kNew :: int where "kNew = - 1"
definition kAdded :: int where "kAdded = 1"
definition kDeleted :: int where "kDeleted = 2"

definition kInitEventListSize :: nat where "kInitEventListSize = 16"

lemmas index_consts = kNew_def kAdded_def kDeleted_def

text \<open>\<open>epollfd\<close> is what \<^verbatim>\<open>epoll_create1\<close> returned; a failure is fatal.\<close>

definition EPollPoller_new :: "int \<Rightarrow> int \<Rightarrow> epoller option" where
  "EPollPoller_new epollfd tid =
     (if epollfd < 0 then None
      else Some \<lparr>pl_channels = (\<lambda>_. None), pl_thread = tid, ep_size = kInitEventListSize, ep_history = []\<rparr>)"

fun operationToString :: "ctl_op \<Rightarrow> string" where
  "operationToString CTL_ADD = ''ADD''"
| "operationToString CTL_DEL = ''DEL''"
| "operationToString CTL_MOD = ''MOD''"

definition EPollPoller_update ::
  "epoll_ctl \<Rightarrow> ctl_op \<Rightarrow> addr \<Rightarrow> heap \<times> epoller \<Rightarrow> (heap \<times> epoller) option" where
  "EPollPoller_update ctl operation a hp =
     (case hp of (h, p) \<Rightarrow>
        do {
          c \<leftarrow> h a;
          let call = Ctl operation (ch_fd c) (ch_events c) a;
          let r = ctl (ep_history p) call;
          let p' = p\<lparr>ep_history := ep_history p @ [(call, r)]\<rparr>;
          if r < 0 \<and> operation \<noteq> CTL_DEL then None else Some (h, p') })"

definition EPollPoller_updateChannel ::
  "epoll_ctl \<Rightarrow> int \<Rightarrow> addr \<Rightarrow> heap \<times> epoller \<Rightarrow> (heap \<times> epoller) option" where
  "EPollPoller_updateChannel ctl tid a hp =
     (case hp of (h, p) \<Rightarrow>
        do {
          Poller_assertInLoopThread tid p;
          c \<leftarrow> h a;
          let index = ch_index c;
          let fd = ch_fd c;
          if index = kNew \<or> index = kDeleted then
            do {
              p' \<leftarrow> (if index = kNew then
                      do {
                        assert_that (pl_channels p fd = None);
                        Some (p\<lparr>pl_channels := (pl_channels p)(fd \<mapsto> a)\<rparr>) }
                    else
                      do {
                        assert_that (pl_channels p fd \<noteq> None);
                        assert_that (pl_channels p fd = Some a);
                        Some p });
              EPollPoller_update ctl CTL_ADD a (h(a \<mapsto> Channel_set_index kAdded c), p') }
          else
            do {
              assert_that (pl_channels p fd \<noteq> None);
              assert_that (pl_channels p fd = Some a);
              assert_that (index = kAdded);
              if Channel_isNoneEvent c then
                do {
                  (h', p') \<leftarrow> EPollPoller_update ctl CTL_DEL a (h, p);
                  Some (h'(a \<mapsto> Channel_set_index kDeleted c), p') }
              else EPollPoller_update ctl CTL_MOD a (h, p) } })"

definition EPollPoller_removeChannel ::
  "epoll_ctl \<Rightarrow> int \<Rightarrow> addr \<Rightarrow> heap \<times> epoller \<Rightarrow> (heap \<times> epoller) option" where
  "EPollPoller_removeChannel ctl tid a hp =
     (case hp of (h, p) \<Rightarrow>
        do {
          Poller_assertInLoopThread tid p;
          c \<leftarrow> h a;
          let fd = ch_fd c;
          assert_that (pl_channels p fd \<noteq> None);
          assert_that (pl_channels p fd = Some a);
          assert_that (Channel_isNoneEvent c);
          let index = ch_index c;
          assert_that (index = kAdded \<or> index = kDeleted);
          let p' = p\<lparr>pl_channels := (pl_channels p)(fd := None)\<rparr>;
          (h', p'') \<leftarrow> (if index = kAdded then EPollPoller_update ctl CTL_DEL a (h, p') else Some (h, p'));
          Some (h'(a \<mapsto> Channel_set_index kNew c), p'') })"

text \<open>
  \<open>events\<close> holds what \<^verbatim>\<open>epoll_wait\<close> stored into \<^verbatim>\<open>events_\<close>: the ready mask and the user pointer
  of each entry.
\<close>

fun fillActive :: "epoller \<Rightarrow> (events \<times> addr) list \<Rightarrow> heap \<times> addr list \<Rightarrow> (heap \<times> addr list) option" where
  "fillActive p [] ha = Some ha"
| "fillActive p ((ev, a) # evs) (h, active) =
     do {
       c \<leftarrow> h a;
       assert_that (pl_channels p (ch_fd c) \<noteq> None);
       assert_that (pl_channels p (ch_fd c) = Some a);
       fillActive p evs (h(a \<mapsto> Channel_set_revents ev c), active @ [a]) }"

definition EPollPoller_fillActiveChannels ::
  "epoller \<Rightarrow> (events \<times> addr) list \<Rightarrow> heap \<times> addr list \<Rightarrow> (heap \<times> addr list) option" where
  "EPollPoller_fillActiveChannels p events ha =
     do {
       assert_that (length events \<le> ep_size p);
       fillActive p events ha }"

text \<open>\<open>Inl errno\<close> is a failing wait, which is logged unless it is \<^verbatim>\<open>EINTR\<close>, and changes nothing.\<close>

definition EPollPoller_poll ::
  "int + (events \<times> addr) list \<Rightarrow> heap \<times> epoller \<Rightarrow> addr list \<Rightarrow> (heap \<times> epoller \<times> addr list) option" where
  "EPollPoller_poll result hp active =
     (case hp of (h, p) \<Rightarrow>
        (case result of
           Inl errno \<Rightarrow> Some (h, p, active)
         | Inr events \<Rightarrow>
             if events \<noteq> [] then
               do {
                 (h', active') \<leftarrow> EPollPoller_fillActiveChannels p events (h, active);
                 let p' = (if length events = ep_size p then p\<lparr>ep_size := ep_size p * 2\<rparr> else p);
                 Some (h', p', active') }
             else Some (h, p, active)))"

section \<open>The interest list\<close>

fun interest_step :: "ctl_call \<times> int \<Rightarrow> (fd \<Rightarrow> (events \<times> addr) option) \<Rightarrow> fd \<Rightarrow> (events \<times> addr) option" where
  "interest_step (Ctl operation fd ev a, r) t =
     (if r < 0 then t else if operation = CTL_DEL then t(fd := None) else t(fd \<mapsto> (ev, a)))"

definition interest :: "(ctl_call \<times> int) list \<Rightarrow> fd \<Rightarrow> (events \<times> addr) option" where
  "interest hist = fold interest_step hist (\<lambda>_. None)"

lemma interest_snoc [simp]:
  "interest (hist @ [(Ctl operation fd ev a, r)]) =
     (if r < 0 then interest hist
      else if operation = CTL_DEL then (interest hist)(fd := None) else (interest hist)(fd \<mapsto> (ev, a)))"
  by (simp add: interest_def)

lemma interest_Nil [simp]: "interest [] = (\<lambda>_. None)"
  by (simp add: interest_def)

fun ctl_legal :: "(fd \<Rightarrow> (events \<times> addr) option) \<Rightarrow> ctl_call \<Rightarrow> bool" where
  "ctl_legal t (Ctl operation fd ev a) \<longleftrightarrow> (operation = CTL_ADD \<longleftrightarrow> t fd = None)"

definition kernel_ok :: "epoll_ctl \<Rightarrow> bool" where
  "kernel_ok ctl \<longleftrightarrow> (\<forall>hist call. ctl_legal (interest hist) call \<longrightarrow> ctl hist call = 0)"

text \<open>A kernel with unlimited resources: it answers \<^verbatim>\<open>EEXIST\<close> or \<^verbatim>\<open>ENOENT\<close> and nothing else.\<close>

definition table_ctl :: epoll_ctl where
  "table_ctl hist call = (if ctl_legal (interest hist) call then 0 else - 1)"

lemma kernel_ok_table_ctl: "kernel_ok table_ctl"
  by (simp add: kernel_ok_def table_ctl_def)

definition EPoller_watched :: "epoller \<Rightarrow> fd \<Rightarrow> events option" where
  "EPoller_watched p fd =
     (case interest (ep_history p) fd of None \<Rightarrow> None | Some (ev, a) \<Rightarrow> wanted ev)"

text \<open>
  The index of a registered channel says whether its descriptor is in the interest list, under
  its own address; a descriptor that is not registered is not in the list.
\<close>

definition entry_ok :: "channel \<Rightarrow> addr \<Rightarrow> (events \<times> addr) option \<Rightarrow> bool" where
  "entry_ok c a e \<longleftrightarrow>
     (ch_index c = kAdded \<and> map_option snd e = Some a) \<or> (ch_index c = kDeleted \<and> e = None)"

definition EPoller_inv :: "heap \<Rightarrow> epoller \<Rightarrow> bool" where
  "EPoller_inv h p \<longleftrightarrow>
     (\<forall>fd. case pl_channels p fd of
             None \<Rightarrow> interest (ep_history p) fd = None
           | Some a \<Rightarrow> \<exists>c. h a = Some c \<and> ch_fd c = fd \<and> entry_ok c a (interest (ep_history p) fd))"

lemma EPoller_inv_new:
  "EPollPoller_new epollfd tid = Some p \<Longrightarrow> EPoller_inv h p"
  by (auto simp: EPollPoller_new_def EPoller_inv_def split: if_splits)

lemma EPoller_inv_known:
  "EPoller_inv h p \<Longrightarrow> pl_channels p fd = Some a \<Longrightarrow>
   \<exists>c. h a = Some c \<and> ch_fd c = fd \<and> entry_ok c a (interest (ep_history p) fd)"
  by (force simp: EPoller_inv_def dest: spec [of _ fd])

lemma EPoller_inv_unknown:
  "EPoller_inv h p \<Longrightarrow> pl_channels p fd = None \<Longrightarrow> interest (ep_history p) fd = None"
  by (force simp: EPoller_inv_def dest: spec [of _ fd])

text \<open>Every operation touches one channel, its entry and its descriptor.\<close>

lemma EPoller_inv_step:
  assumes inv: "EPoller_inv h p" and a: "h a = Some c" "ch_fd c = ch_fd c'"
    and k: "pl_channels p' = (pl_channels p)(ch_fd c := x)"
    and i: "interest (ep_history p') = (interest (ep_history p))(ch_fd c := e)"
    and x: "case x of None \<Rightarrow> e = None | Some b \<Rightarrow> b = a \<and> entry_ok c' a e"
  shows "EPoller_inv (h(a \<mapsto> c')) p'"
  unfolding EPoller_inv_def
proof
  fix fd
  show "case pl_channels p' fd of
      None \<Rightarrow> interest (ep_history p') fd = None
    | Some b \<Rightarrow> \<exists>d. (h(a \<mapsto> c')) b = Some d \<and> ch_fd d = fd \<and> entry_ok d b (interest (ep_history p') fd)"
  proof (cases "fd = ch_fd c")
    case True
    then show ?thesis using x a k i by (auto split: option.splits)
  next
    case False
    then show ?thesis
      using EPoller_inv_known [OF inv, of fd] EPoller_inv_unknown [OF inv, of fd] a k i
      by (auto split: option.splits)
  qed
qed

lemma EPoller_watched_step:
  "interest (ep_history p') = (interest (ep_history p))(fd := e) \<Longrightarrow>
   EPoller_watched p' =
     (EPoller_watched p)(fd := (case e of None \<Rightarrow> None | Some (ev, a) \<Rightarrow> wanted ev))"
  by (auto simp: EPoller_watched_def)

text \<open>The call the kernel accepts: the history grows by it and the entry changes.\<close>

lemma EPollPoller_update_accepted:
  assumes "kernel_ok ctl" "h a = Some c"
    and "operation = CTL_ADD \<longleftrightarrow> interest (ep_history p) (ch_fd c) = None"
  shows "\<exists>p'. EPollPoller_update ctl operation a (h, p) = Some (h, p') \<and>
    pl_channels p' = pl_channels p \<and> pl_thread p' = pl_thread p \<and> ep_size p' = ep_size p \<and>
    interest (ep_history p') = (interest (ep_history p))(ch_fd c :=
      if operation = CTL_DEL then None else Some (ch_events c, a))"
proof -
  have "ctl (ep_history p) (Ctl operation (ch_fd c) (ch_events c) a) = 0"
    using assms(1,3) by (auto simp: kernel_ok_def)
  then show ?thesis
    using assms(2) by (simp add: EPollPoller_update_def Let_def)
qed

text \<open>One call together with the change of the channel and of the map that goes with it.\<close>

lemma EPollPoller_ctl_step:
  assumes k: "kernel_ok ctl" and inv: "EPoller_inv h p" and c: "h a = Some c" "ch_fd c = ch_fd c'"
    and c0: "h0 a = Some c0" "ch_fd c0 = ch_fd c" "ch_events c0 = ch_events c"
    and p0: "p0 = p\<lparr>pl_channels := (pl_channels p)(ch_fd c := x)\<rparr>"
    and op: "operation = CTL_ADD \<longleftrightarrow> interest (ep_history p) (ch_fd c) = None"
    and x: "case x of None \<Rightarrow> operation = CTL_DEL
      | Some b \<Rightarrow> b = a \<and> ch_index c' = (if operation = CTL_DEL then kDeleted else kAdded)"
  shows "\<exists>p'. EPollPoller_update ctl operation a (h0, p0) = Some (h0, p') \<and> EPoller_inv (h(a \<mapsto> c')) p' \<and>
    pl_thread p' = pl_thread p \<and> pl_channels p' = (pl_channels p)(ch_fd c := x) \<and>
    EPoller_watched p' =
      (EPoller_watched p)(ch_fd c := if operation = CTL_DEL then None else wanted (ch_events c))"
proof -
  let ?e = "if operation = CTL_DEL then None else Some (ch_events c, a)"
  obtain p' where u: "EPollPoller_update ctl operation a (h0, p0) = Some (h0, p')"
      "pl_channels p' = pl_channels p0" "pl_thread p' = pl_thread p0"
      "interest (ep_history p') = (interest (ep_history p))(ch_fd c := ?e)"
    using EPollPoller_update_accepted [of ctl h0 a c0 operation p0] k c0 op p0 by auto
  have "EPoller_inv (h(a \<mapsto> c')) p'"
    by (rule EPoller_inv_step [OF inv c, of _ x ?e])
      (use u x p0 in \<open>simp_all add: entry_ok_def split: option.splits\<close>)
  with u p0 EPoller_watched_step [OF u(4)] show ?thesis by simp
qed

lemma fresh_upd: "fresh h b \<Longrightarrow> b \<noteq> a \<Longrightarrow> fresh (h(a \<mapsto> c)) b"
  by (simp add: fresh_def)

lemma channels_same: "pl_channels p fd = Some a \<Longrightarrow> p\<lparr>pl_channels := (pl_channels p)(fd \<mapsto> a)\<rparr> = p"
  by (simp add: fun_upd_idem)

lemmas epoll_op_simps = Poller_assertInLoopThread_def fresh_upd same_but_index_upd fun_upd_idem

lemma EPollPoller_updateChannel_spec:
  assumes k: "kernel_ok ctl" and inv: "EPoller_inv h p" and tid: "pl_thread p = tid" and c: "h a = Some c"
    and known: "pl_channels p (ch_fd c) = Some a \<or> (pl_channels p (ch_fd c) = None \<and> fresh h a)"
  shows "\<exists>h' p'. EPollPoller_updateChannel ctl tid a (h, p) = Some (h', p') \<and> EPoller_inv h' p' \<and>
    pl_thread p' = pl_thread p \<and> same_but_index h h' \<and> (\<forall>b. b \<noteq> a \<longrightarrow> fresh h b \<longrightarrow> fresh h' b) \<and>
    pl_channels p' = (pl_channels p)(ch_fd c \<mapsto> a) \<and>
    EPoller_watched p' = (EPoller_watched p)(ch_fd c := wanted (ch_events c))"
proof -
  let ?fd = "ch_fd c" and ?t = "interest (ep_history p)"
  let ?p = "p\<lparr>pl_channels := (pl_channels p)(?fd \<mapsto> a)\<rparr>" and ?h = "h(a \<mapsto> Channel_set_index kAdded c)"
  consider (add) "ch_index c = kNew \<and> pl_channels p ?fd = None \<or> ch_index c = kDeleted \<and> pl_channels p ?fd = Some a"
      "?t ?fd = None"
    | (change) "ch_index c = kAdded" "pl_channels p ?fd = Some a" "?t ?fd \<noteq> None"
    using known c EPoller_inv_known [OF inv, of ?fd] EPoller_inv_unknown [OF inv, of ?fd]
    by (auto simp: fresh_def entry_ok_def kNew_def)
  then show ?thesis
  proof cases
    case add
    with EPollPoller_ctl_step [OF k inv c, of "Channel_set_index kAdded c" ?h _ ?p "Some a" CTL_ADD]
    obtain p' where "EPollPoller_update ctl CTL_ADD a (?h, ?p) = Some (?h, p')" "EPoller_inv ?h p'"
        "pl_thread p' = pl_thread p" "pl_channels p' = (pl_channels p)(?fd \<mapsto> a)"
        "EPoller_watched p' = (EPoller_watched p)(?fd := wanted (ch_events c))"
      by auto
    with add tid c show ?thesis
      by (auto simp: EPollPoller_updateChannel_def epoll_op_simps index_consts)
  next
    case change
    then have p: "p = ?p" by (simp add: channels_same)
    let ?op = "if Channel_isNoneEvent c then CTL_DEL else CTL_MOD"
      and ?c = "if Channel_isNoneEvent c then Channel_set_index kDeleted c else c"
    have "\<exists>p'. EPollPoller_update ctl ?op a (h, p) = Some (h, p') \<and> EPoller_inv (h(a \<mapsto> ?c)) p' \<and>
        pl_thread p' = pl_thread p \<and> pl_channels p' = (pl_channels p)(?fd \<mapsto> a) \<and>
        EPoller_watched p' = (EPoller_watched p)(?fd := if ?op = CTL_DEL then None else wanted (ch_events c))"
      using change p c by (intro EPollPoller_ctl_step [OF k inv c, of _ h c]) auto
    moreover have "Channel_isNoneEvent c \<Longrightarrow> wanted (ch_events c) = None"
      by (simp add: Channel_isNoneEvent_def kNoneEvent_def wanted_def)
    ultimately show ?thesis
      using change tid c by (auto simp: EPollPoller_updateChannel_def epoll_op_simps index_consts)
  qed
qed

lemma EPollPoller_removeChannel_spec:
  assumes k: "kernel_ok ctl" and inv: "EPoller_inv h p" and tid: "pl_thread p = tid" and c: "h a = Some c"
    and known: "pl_channels p (ch_fd c) = Some a" and none: "ch_events c = 0"
  shows "\<exists>h' p'. EPollPoller_removeChannel ctl tid a (h, p) = Some (h', p') \<and> EPoller_inv h' p' \<and>
    pl_thread p' = pl_thread p \<and> same_but_index h h' \<and> (\<forall>b. b \<noteq> a \<longrightarrow> fresh h b \<longrightarrow> fresh h' b) \<and>
    pl_channels p' = (pl_channels p)(ch_fd c := None) \<and>
    EPoller_watched p' = (EPoller_watched p)(ch_fd c := None)"
proof -
  let ?p = "p\<lparr>pl_channels := (pl_channels p)(ch_fd c := None)\<rparr>" and ?c = "Channel_set_index kNew c"
  have none': "Channel_isNoneEvent c" using none by (simp add: Channel_isNoneEvent_def kNoneEvent_def)
  show ?thesis
  proof (cases "ch_index c = kAdded")
    case True
    then have "interest (ep_history p) (ch_fd c) \<noteq> None"
      using EPoller_inv_known [OF inv known] c by (auto simp: entry_ok_def index_consts)
    with EPollPoller_ctl_step [OF k inv c, of ?c h c ?p None CTL_DEL] c
    obtain p' where "EPollPoller_update ctl CTL_DEL a (h, ?p) = Some (h, p')" "EPoller_inv (h(a \<mapsto> ?c)) p'"
        "pl_thread p' = pl_thread p" "pl_channels p' = (pl_channels p)(ch_fd c := None)"
        "EPoller_watched p' = (EPoller_watched p)(ch_fd c := None)"
      by auto
    with True tid c known none' show ?thesis
      by (auto simp: EPollPoller_removeChannel_def epoll_op_simps)
  next
    case False
    then have t: "ch_index c = kDeleted" "interest (ep_history p) (ch_fd c) = None"
      using EPoller_inv_known [OF inv known] c by (auto simp: entry_ok_def)
    then have "EPoller_inv (h(a \<mapsto> ?c)) ?p"
      by (intro EPoller_inv_step [OF inv c, of _ _ None None]) (simp_all add: fun_upd_idem)
    moreover have "EPoller_watched ?p = (EPoller_watched p)(ch_fd c := None)"
      using t(2) by (auto simp: EPoller_watched_def)
    ultimately show ?thesis
      using False t tid c known none' by (auto simp: EPollPoller_removeChannel_def epoll_op_simps)
  qed
qed

section \<open>The contract holds on every kernel that behaves as documented\<close>

locale epoll_env =
  fixes ctl :: epoll_ctl
  assumes kernel: "kernel_ok ctl"

sublocale epoll_env \<subseteq> epc: poller_contract EPoller_inv pl_thread pl_channels EPoller_watched "\<lambda>_ _ _. True"
    "EPollPoller_updateChannel ctl" "EPollPoller_removeChannel ctl"
proof unfold_locales
  fix h p tid a c
  assume "EPoller_inv h p" "pl_thread p = tid" "h a = Some c"
  note facts = this
  assume "pl_channels p (ch_fd c) = Some a \<or> (pl_channels p (ch_fd c) = None \<and> fresh h a)"
  with EPollPoller_updateChannel_spec [OF kernel facts]
  show "\<exists>h' p'. EPollPoller_updateChannel ctl tid a (h, p) = Some (h', p') \<and> EPoller_inv h' p' \<and>
      pl_thread p' = pl_thread p \<and>
      same_but_index h h' \<and> (\<forall>b. b \<noteq> a \<longrightarrow> fresh h b \<longrightarrow> fresh h' b) \<and>
      pl_channels p' = (pl_channels p)(ch_fd c \<mapsto> a) \<and>
      EPoller_watched p' = (EPoller_watched p)(ch_fd c := wanted (ch_events c)) \<and>
      (\<forall>fd. fd \<noteq> ch_fd c \<longrightarrow> True = True) \<and>
      (pl_channels p (ch_fd c) = Some a \<longrightarrow> ch_events c = 0 \<longrightarrow> True)"
    by simp
next
  fix h p tid a c
  assume "EPoller_inv h p" "pl_thread p = tid" "h a = Some c"
  note facts = this
  assume "pl_channels p (ch_fd c) = Some a" "ch_events c = 0"
  with EPollPoller_removeChannel_spec [OF kernel facts]
  show "\<exists>h' p'. EPollPoller_removeChannel ctl tid a (h, p) = Some (h', p') \<and> EPoller_inv h' p' \<and>
      pl_thread p' = pl_thread p \<and>
      same_but_index h h' \<and> (\<forall>b. b \<noteq> a \<longrightarrow> fresh h b \<longrightarrow> fresh h' b) \<and>
      pl_channels p' = (pl_channels p)(ch_fd c := None) \<and>
      EPoller_watched p' = (EPoller_watched p)(ch_fd c := None) \<and>
      (\<forall>fd. fd \<noteq> ch_fd c \<longrightarrow> True = True)"
    by simp
next
  fix h p a c ev
  assume i: "EPoller_inv h p" and c: "h a = Some c"
  show "EPoller_inv (h(a \<mapsto> c\<lparr>ch_events := ev\<rparr>)) p"
    unfolding EPoller_inv_def
  proof
    fix fd
    show "case pl_channels p fd of
        None \<Rightarrow> interest (ep_history p) fd = None
      | Some b \<Rightarrow> \<exists>d. (h(a \<mapsto> c\<lparr>ch_events := ev\<rparr>)) b = Some d \<and> ch_fd d = fd \<and>
          entry_ok d b (interest (ep_history p) fd)"
      using EPoller_inv_known [OF i, of fd] EPoller_inv_unknown [OF i, of fd] c
      by (auto simp: entry_ok_def split: option.splits)
  qed
qed simp

interpretation table_kernel: epoll_env table_ctl
  by unfold_locales (rule kernel_ok_table_ctl)

section \<open>Polling\<close>

text \<open>
  What the kernel promises of \<^verbatim>\<open>epoll_wait\<close>: at most as many entries as there is room for, each
  from the interest list, no descriptor twice.
\<close>

definition wait_ok :: "epoller \<Rightarrow> (events \<times> addr) list \<Rightarrow> bool" where
  "wait_ok p events \<longleftrightarrow>
     length events \<le> ep_size p \<and> distinct (map snd events) \<and>
     snd ` set events \<subseteq> snd ` ran (interest (ep_history p))"

lemma EPoller_inv_same_index:
  assumes "EPoller_inv h p" "\<And>a. map_option (\<lambda>c. (ch_fd c, ch_index c)) (h' a) = map_option (\<lambda>c. (ch_fd c, ch_index c)) (h a)"
  shows "EPoller_inv h' p"
  unfolding EPoller_inv_def
proof
  fix fd
  show "case pl_channels p fd of None \<Rightarrow> interest (ep_history p) fd = None
      | Some b \<Rightarrow> \<exists>d. h' b = Some d \<and> ch_fd d = fd \<and> entry_ok d b (interest (ep_history p) fd)"
  proof (cases "pl_channels p fd")
    case None
    then show ?thesis using EPoller_inv_unknown [OF assms(1)] by simp
  next
    case (Some b)
    from EPoller_inv_known [OF assms(1) this] obtain c where "h b = Some c" "ch_fd c = fd"
      "entry_ok c b (interest (ep_history p) fd)" by auto
    with assms(2) [of b] Some show ?thesis by (auto simp: entry_ok_def)
  qed
qed

lemma fillActive_spec:
  assumes "EPoller_inv h p" "\<forall>a \<in> snd ` set evs. \<exists>fd. pl_channels p fd = Some a" "distinct (map snd evs)"
  shows "fillActive p evs (h, active) = Some (ready_heap evs h, active @ map snd evs)"
  using assms
proof (induction evs arbitrary: h active)
  case Nil
  then show ?case by simp
next
  case (Cons x evs)
  obtain ev a where x: "x = (ev, a)" by fastforce
  with Cons.prems(1,2) obtain c where c: "h a = Some c" "pl_channels p (ch_fd c) = Some a"
    using EPoller_inv_known by force
  have "EPoller_inv (h(a \<mapsto> Channel_set_revents ev c)) p"
    by (rule EPoller_inv_same_index [OF Cons.prems(1)]) (simp add: c(1))
  then have "fillActive p evs (h(a \<mapsto> Channel_set_revents ev c), active @ [a]) =
      Some (ready_heap evs (h(a \<mapsto> Channel_set_revents ev c)), (active @ [a]) @ map snd evs)"
    by (rule Cons.IH) (use Cons.prems(2,3) in simp_all)
  with Cons.prems(3) c show ?case
    by (simp add: x ready_heap_Cons)
qed

text \<open>An entry of the interest list belongs to a registered channel.\<close>

lemma interest_registered:
  assumes "EPoller_inv h p" "a \<in> snd ` ran (interest (ep_history p))"
  shows "\<exists>fd. pl_channels p fd = Some a"
proof -
  obtain fd ev where i: "interest (ep_history p) fd = Some (ev, a)"
    using assms(2) by (auto simp: ran_def)
  with EPoller_inv_unknown [OF assms(1), of fd] obtain b where b: "pl_channels p fd = Some b" by fastforce
  with EPoller_inv_known [OF assms(1) b] i show ?thesis by (auto simp: entry_ok_def)
qed

lemma EPollPoller_poll_spec:
  assumes "EPoller_inv h p" "wait_ok p events"
  shows "EPollPoller_poll (Inr events) (h, p) active =
    Some (ready_heap events h,
      p\<lparr>ep_size := (if events \<noteq> [] \<and> length events = ep_size p then 2 else 1) * ep_size p\<rparr>,
      active @ map snd events)"
proof -
  have "\<forall>a \<in> snd ` set events. \<exists>fd. pl_channels p fd = Some a"
    using interest_registered [OF assms(1)] assms(2) unfolding wait_ok_def by blast
  from fillActive_spec [OF assms(1) this] assms(2) show ?thesis
    by (simp add: EPollPoller_poll_def EPollPoller_fillActiveChannels_def wait_ok_def)
qed

end
