(* ===== verification/PollPoller.thy ===== *)
theory PollPoller
  imports Poller
begin

text \<open>
  \<^verbatim>\<open>muduo/net/poller/PollPoller.h\<close>, \<^verbatim>\<open>PollPoller.cc\<close>. The poller keeps the array handed to
  \<^verbatim>\<open>poll(2)\<close> itself. The entries are 16 bits wide: a mask is narrowed when it is stored and
  sign-extended when it is read back. An entry whose channel wants nothing holds \<^verbatim>\<open>-fd-1\<close>, which
  the kernel ignores.
\<close>

type_synonym short = "16 word"

record pollfd =
  pfd_fd :: int
  pfd_events :: short
  pfd_revents :: short

record poll_poller = poller +
  pp_pollfds :: "pollfd list"

definition PollPoller_new :: "int \<Rightarrow> poll_poller" where
  "PollPoller_new tid = \<lparr>pl_channels = (\<lambda>_. None), pl_thread = tid, pp_pollfds = []\<rparr>"

definition to_short :: "events \<Rightarrow> short" where
  "to_short ev = ucast ev"

definition of_short :: "short \<Rightarrow> events" where
  "of_short w = scast w"

definition PollPoller_updateChannel ::
  "int \<Rightarrow> addr \<Rightarrow> heap \<times> poll_poller \<Rightarrow> (heap \<times> poll_poller) option" where
  "PollPoller_updateChannel tid a hp =
     (case hp of (h, p) \<Rightarrow>
        do {
          Poller_assertInLoopThread tid p;
          c \<leftarrow> h a;
          let fd = ch_fd c;
          if ch_index c < 0 then
            do {
              assert_that (pl_channels p fd = None);
              let pfd = \<lparr>pfd_fd = fd, pfd_events = to_short (ch_events c), pfd_revents = 0\<rparr>;
              let pollfds = pp_pollfds p @ [pfd];
              let idx = int (length pollfds) - 1;
              Some (h(a \<mapsto> Channel_set_index idx c),
                    p\<lparr>pp_pollfds := pollfds, pl_channels := (pl_channels p)(fd \<mapsto> a)\<rparr>) }
          else
            do {
              assert_that (pl_channels p fd \<noteq> None);
              assert_that (pl_channels p fd = Some a);
              let idx = ch_index c;
              assert_that (0 \<le> idx \<and> idx < int (length (pp_pollfds p)));
              let pfd = pp_pollfds p ! nat idx;
              assert_that (pfd_fd pfd = fd \<or> pfd_fd pfd = - fd - 1);
              let pfd = pfd\<lparr>pfd_fd := fd, pfd_events := to_short (ch_events c), pfd_revents := 0\<rparr>;
              let pfd = (if Channel_isNoneEvent c then pfd\<lparr>pfd_fd := - fd - 1\<rparr> else pfd);
              Some (h, p\<lparr>pp_pollfds := (pp_pollfds p)[nat idx := pfd]\<rparr>) } })"

text \<open>\<^verbatim>\<open>iter_swap\<close> with the last element.\<close>

definition swap_last :: "nat \<Rightarrow> 'a list \<Rightarrow> 'a list" where
  "swap_last idx xs = xs[idx := last xs, length xs - 1 := xs ! idx]"

definition PollPoller_removeChannel ::
  "int \<Rightarrow> addr \<Rightarrow> heap \<times> poll_poller \<Rightarrow> (heap \<times> poll_poller) option" where
  "PollPoller_removeChannel tid a hp =
     (case hp of (h, p) \<Rightarrow>
        do {
          Poller_assertInLoopThread tid p;
          c \<leftarrow> h a;
          let fd = ch_fd c;
          assert_that (pl_channels p fd \<noteq> None);
          assert_that (pl_channels p fd = Some a);
          assert_that (Channel_isNoneEvent c);
          let idx = ch_index c;
          assert_that (0 \<le> idx \<and> idx < int (length (pp_pollfds p)));
          let pfd = pp_pollfds p ! nat idx;
          assert_that (pfd_fd pfd = - fd - 1 \<and> of_short (pfd_events pfd) = ch_events c);
          let channels = (pl_channels p)(fd := None);
          if nat idx = length (pp_pollfds p) - 1 then
            Some (h, p\<lparr>pl_channels := channels, pp_pollfds := butlast (pp_pollfds p)\<rparr>)
          else
            do {
              let atEnd = pfd_fd (last (pp_pollfds p));
              let pollfds = swap_last (nat idx) (pp_pollfds p);
              let channelAtEnd = (if atEnd < 0 then - atEnd - 1 else atEnd);
              b \<leftarrow> channels channelAtEnd;
              d \<leftarrow> h b;
              Some (h(b \<mapsto> Channel_set_index idx d),
                    p\<lparr>pl_channels := channels, pp_pollfds := butlast pollfds\<rparr>) } })"

text \<open>The loop of \<^verbatim>\<open>fillActiveChannels\<close>; it stops early once \<open>numEvents\<close> entries were taken.\<close>

fun pollFillActive :: "poll_poller \<Rightarrow> pollfd list \<Rightarrow> nat \<Rightarrow> heap \<times> addr list \<Rightarrow> (heap \<times> addr list) option" where
  "pollFillActive p [] numEvents ha = Some ha"
| "pollFillActive p (pfd # pfds) numEvents (h, active) =
     (if numEvents = 0 then Some (h, active)
      else if 0 < sint (pfd_revents pfd) then
        do {
          a \<leftarrow> pl_channels p (pfd_fd pfd);
          c \<leftarrow> h a;
          assert_that (ch_fd c = pfd_fd pfd);
          pollFillActive p pfds (numEvents - 1)
            (h(a \<mapsto> Channel_set_revents (of_short (pfd_revents pfd)) c), active @ [a]) }
      else pollFillActive p pfds numEvents (h, active))"

definition PollPoller_fillActiveChannels ::
  "poll_poller \<Rightarrow> nat \<Rightarrow> heap \<times> addr list \<Rightarrow> (heap \<times> addr list) option" where
  "PollPoller_fillActiveChannels p numEvents ha = pollFillActive p (pp_pollfds p) numEvents ha"

text \<open>
  \<open>Inr (numEvents, revents)\<close> is a wait that returned \<open>numEvents\<close> and stored \<open>revents\<close> into
  the entries of the array, in order; \<open>Inl errno\<close> is a failing one.
\<close>

definition PollPoller_poll ::
  "int + nat \<times> short list \<Rightarrow> heap \<times> poll_poller \<Rightarrow> addr list \<Rightarrow> (heap \<times> poll_poller \<times> addr list) option" where
  "PollPoller_poll result hp active =
     (case hp of (h, p) \<Rightarrow>
        (case result of
           Inl errno \<Rightarrow> Some (h, p, active)
         | Inr (numEvents, revents) \<Rightarrow>
             do {
               let p' = p\<lparr>pp_pollfds := map2 (\<lambda>pfd r. pfd\<lparr>pfd_revents := r\<rparr>) (pp_pollfds p) revents\<rparr>;
               (h', active') \<leftarrow> (if 0 < numEvents then PollPoller_fillActiveChannels p' numEvents (h, active)
                                 else Some (h, active));
               Some (h', p', active') }))"

section \<open>The invariant of the array\<close>

text \<open>The descriptor an entry stands for.\<close>

definition owner :: "pollfd \<Rightarrow> fd" where
  "owner pfd = (if pfd_fd pfd < 0 then - pfd_fd pfd - 1 else pfd_fd pfd)"

definition slot_of :: "pollfd list \<Rightarrow> channel \<Rightarrow> bool" where
  "slot_of pfds c \<longleftrightarrow>
     0 \<le> ch_fd c \<and> 0 \<le> ch_index c \<and> nat (ch_index c) < length pfds \<and>
     owner (pfds ! nat (ch_index c)) = ch_fd c"

definition PollPoller_inv :: "heap \<Rightarrow> poll_poller \<Rightarrow> bool" where
  "PollPoller_inv h p \<longleftrightarrow>
     (\<forall>fd a. pl_channels p fd = Some a \<longrightarrow> (\<exists>c. h a = Some c \<and> ch_fd c = fd \<and> slot_of (pp_pollfds p) c)) \<and>
     (\<forall>i < length (pp_pollfds p). \<exists>a c. pl_channels p (owner (pp_pollfds p ! i)) = Some a \<and>
        h a = Some c \<and> ch_index c = int i) \<and>
     (\<forall>pfd \<in> set (pp_pollfds p). pfd_fd pfd < 0 \<longrightarrow> pfd_events pfd = 0)"

definition PollPoller_watched :: "poll_poller \<Rightarrow> fd \<Rightarrow> events option" where
  "PollPoller_watched p fd =
     (case map_of (map (\<lambda>pfd. (pfd_fd pfd, pfd_events pfd)) (pp_pollfds p)) fd of
        None \<Rightarrow> None
      | Some ev \<Rightarrow> wanted (of_short ev))"

text \<open>A channel may be removed once its entry is the ignored one.\<close>

definition PollPoller_quiet :: "heap \<Rightarrow> poll_poller \<Rightarrow> fd \<Rightarrow> bool" where
  "PollPoller_quiet h p fd \<longleftrightarrow> 0 \<le> fd \<and> - fd - 1 \<in> pfd_fd ` set (pp_pollfds p)"

lemma PollPoller_inv_new: "PollPoller_inv h (PollPoller_new tid)"
  by (simp add: PollPoller_inv_def PollPoller_new_def)

lemma of_short_to_short: "unat ev < 2 ^ 15 \<Longrightarrow> of_short (to_short ev) = ev"
proof -
  assume "unat ev < 2 ^ 15"
  then have "unat (take_bit 15 ev) = unat ev"
    unfolding unsigned_take_bit_eq by (rule take_bit_nat_eq_self)
  then have "take_bit 15 ev = ev" by (rule word_unat_eq_iff [THEN iffD2])
  then have "bit ev n \<Longrightarrow> n < 15" for n by (metis bit_take_bit_iff)
  then show ?thesis
    unfolding of_short_def to_short_def by (intro bit_eqI) (auto simp: bit_simps min_def, fastforce+)
qed

lemma of_short_0 [simp]: "of_short 0 = 0" "to_short 0 = 0"
  by (simp_all add: of_short_def to_short_def)

lemma PollPoller_inv_known:
  "PollPoller_inv h p \<Longrightarrow> pl_channels p fd = Some a \<Longrightarrow>
   \<exists>c. h a = Some c \<and> ch_fd c = fd \<and> slot_of (pp_pollfds p) c"
  by (simp add: PollPoller_inv_def)

lemma PollPoller_inv_slot:
  "PollPoller_inv h p \<Longrightarrow> i < length (pp_pollfds p) \<Longrightarrow>
   \<exists>a c. pl_channels p (owner (pp_pollfds p ! i)) = Some a \<and> h a = Some c \<and> ch_index c = int i"
  by (simp add: PollPoller_inv_def)

lemma PollPoller_inv_ignored:
  "PollPoller_inv h p \<Longrightarrow> pfd \<in> set (pp_pollfds p) \<Longrightarrow> pfd_fd pfd < 0 \<Longrightarrow> pfd_events pfd = 0"
  by (simp add: PollPoller_inv_def)

text \<open>The slot of a registered channel is the only one that stands for its descriptor.\<close>

lemma PollPoller_slot_unique:
  assumes "PollPoller_inv h p" "pl_channels p fd = Some a" "h a = Some c"
    "i < length (pp_pollfds p)" "owner (pp_pollfds p ! i) = fd"
  shows "ch_index c = int i"
  using PollPoller_inv_slot [OF assms(1,4)] assms(2,3,5) by auto

text \<open>What the kernel is told of a descriptor can be read off its channel's slot.\<close>

definition slot_view :: "fd \<Rightarrow> pollfd \<Rightarrow> events option" where
  "slot_view fd pfd = (if pfd_fd pfd = fd then wanted (of_short (pfd_events pfd)) else None)"

lemma PollPoller_watched_known:
  assumes inv: "PollPoller_inv h p" and a: "pl_channels p fd = Some a" "h a = Some c"
  shows "PollPoller_watched p fd = slot_view fd (pp_pollfds p ! nat (ch_index c))"
proof (cases "map_of (map (\<lambda>pfd. (pfd_fd pfd, pfd_events pfd)) (pp_pollfds p)) fd")
  case None
  then have "fd \<notin> pfd_fd ` set (pp_pollfds p)" by (force simp: map_of_eq_None_iff)
  moreover have "nat (ch_index c) < length (pp_pollfds p)"
    using PollPoller_inv_known [OF inv a(1)] a(2) by (auto simp: slot_of_def)
  ultimately show ?thesis using None by (auto simp: PollPoller_watched_def slot_view_def)
next
  case (Some ev)
  then obtain i where i: "i < length (pp_pollfds p)" "pfd_fd (pp_pollfds p ! i) = fd" "pfd_events (pp_pollfds p ! i) = ev"
    by (auto dest!: map_of_SomeD simp: in_set_conv_nth)
  moreover have "0 \<le> fd" using PollPoller_inv_known [OF inv a(1)] a(2) by (auto simp: slot_of_def)
  ultimately have "ch_index c = int i"
    by (intro PollPoller_slot_unique [OF inv a]) (simp_all add: owner_def)
  with i Some show ?thesis by (simp add: PollPoller_watched_def slot_view_def)
qed

lemma PollPoller_watched_unknown:
  assumes inv: "PollPoller_inv h p" and "pl_channels p fd = None"
  shows "PollPoller_watched p fd = None"
proof (cases "map_of (map (\<lambda>pfd. (pfd_fd pfd, pfd_events pfd)) (pp_pollfds p)) fd")
  case None
  then show ?thesis by (simp add: PollPoller_watched_def)
next
  case (Some ev)
  then obtain i where i: "i < length (pp_pollfds p)" "pfd_fd (pp_pollfds p ! i) = fd" "pfd_events (pp_pollfds p ! i) = ev"
    by (auto dest!: map_of_SomeD simp: in_set_conv_nth)
  then have "fd < 0"
    using PollPoller_inv_slot [OF inv i(1)] assms(2) by (auto simp: owner_def split: if_splits)
  with i have "ev = 0" using PollPoller_inv_ignored [OF inv, of "pp_pollfds p ! i"] by auto
  with Some show ?thesis by (simp add: PollPoller_watched_def wanted_def)
qed

lemma quiet_nth:
  "PollPoller_quiet h p fd \<longleftrightarrow> 0 \<le> fd \<and> (\<exists>i < length (pp_pollfds p). pfd_fd (pp_pollfds p ! i) = - fd - 1)"
  by (auto simp: PollPoller_quiet_def in_set_conv_nth image_iff) (metis nth_mem)

text \<open>The quiet state of a registered channel, read off its slot.\<close>

lemma PollPoller_quiet_known:
  assumes inv: "PollPoller_inv h p" and a: "pl_channels p fd = Some a" "h a = Some c"
  shows "PollPoller_quiet h p fd \<longleftrightarrow> pfd_fd (pp_pollfds p ! nat (ch_index c)) = - fd - 1"
proof -
  have s: "slot_of (pp_pollfds p) c" "ch_fd c = fd" using PollPoller_inv_known [OF inv a(1)] a(2) by auto
  show ?thesis
  proof
    assume "PollPoller_quiet h p fd"
    then obtain i where i: "i < length (pp_pollfds p)" "pfd_fd (pp_pollfds p ! i) = - fd - 1" "0 \<le> fd"
      by (auto simp: quiet_nth)
    then have "ch_index c = int i" by (intro PollPoller_slot_unique [OF inv a]) (simp_all add: owner_def)
    with i show "pfd_fd (pp_pollfds p ! nat (ch_index c)) = - fd - 1" by simp
  qed (use s in \<open>auto simp: quiet_nth slot_of_def\<close>)
qed

lemma PollPoller_quiet_unknown:
  assumes inv: "PollPoller_inv h p" and "pl_channels p fd = None"
  shows "\<not> PollPoller_quiet h p fd"
proof
  assume "PollPoller_quiet h p fd"
  then obtain i where i: "i < length (pp_pollfds p)" "owner (pp_pollfds p ! i) = fd"
    by (auto simp: quiet_nth owner_def)
  with PollPoller_inv_slot [OF inv i(1)] assms(2) show False by simp
qed

text \<open>A descriptor whose slot keeps its contents, wherever it moves, is seen the same.\<close>

lemma PollPoller_frame:
  assumes "PollPoller_inv h p" "PollPoller_inv h' p'" "pl_channels p' fd = pl_channels p fd"
    and "\<And>b d. pl_channels p fd = Some b \<Longrightarrow> h b = Some d \<Longrightarrow>
      \<exists>d'. h' b = Some d' \<and> pp_pollfds p' ! nat (ch_index d') = pp_pollfds p ! nat (ch_index d)"
  shows "PollPoller_watched p' fd = PollPoller_watched p fd" "PollPoller_quiet h' p' fd = PollPoller_quiet h p fd"
proof -
  show "PollPoller_watched p' fd = PollPoller_watched p fd"
  proof (cases "pl_channels p fd")
    case None
    then show ?thesis using assms(1-3) by (simp add: PollPoller_watched_unknown)
  next
    case (Some b)
    with PollPoller_inv_known [OF assms(1)] assms(4) show ?thesis
      using assms(1-3) by (fastforce simp: PollPoller_watched_known)
  qed
  show "PollPoller_quiet h' p' fd = PollPoller_quiet h p fd"
  proof (cases "pl_channels p fd")
    case None
    then show ?thesis using assms(1-3) by (simp add: PollPoller_quiet_unknown)
  next
    case (Some b)
    with PollPoller_inv_known [OF assms(1)] assms(4) show ?thesis
      using assms(1-3) by (fastforce simp: PollPoller_quiet_known)
  qed
qed

lemma PollPoller_inv_other:
  "PollPoller_inv h p \<Longrightarrow> pl_channels p fd = Some b \<Longrightarrow> h a = Some c \<Longrightarrow> fd \<noteq> ch_fd c \<Longrightarrow> b \<noteq> a"
  using PollPoller_inv_known by fastforce

lemma slot_of_nat: "slot_of pfds c \<Longrightarrow> ch_index c = int (nat (ch_index c))"
  by (simp add: slot_of_def)

text \<open>First registration: the entry is appended.\<close>

lemma PollPoller_add_inv:
  assumes inv: "PollPoller_inv h p" and c: "h a = Some c" "0 \<le> ch_fd c" "pl_channels p (ch_fd c) = None"
    and h': "h' = h(a \<mapsto> Channel_set_index (int (length (pp_pollfds p))) c)"
    and p': "pp_pollfds p' = pp_pollfds p @ [pfd]" "pl_channels p' = (pl_channels p)(ch_fd c \<mapsto> a)"
    and pfd: "pfd_fd pfd = ch_fd c"
  shows "PollPoller_inv h' p'"
  unfolding PollPoller_inv_def
proof (intro conjI allI impI ballI)
  fix fd b assume "pl_channels p' fd = Some b"
  then consider "fd = ch_fd c" "b = a" | "fd \<noteq> ch_fd c" "pl_channels p fd = Some b"
    using p' by (auto split: if_splits)
  then show "\<exists>d. h' b = Some d \<and> ch_fd d = fd \<and> slot_of (pp_pollfds p') d"
  proof cases
    case 1
    then show ?thesis using c h' p' pfd by (simp add: slot_of_def owner_def)
  next
    case 2
    with PollPoller_inv_known [OF inv 2(2)] PollPoller_inv_other [OF inv 2(2) c(1)] h' p'
    show ?thesis by (auto simp: slot_of_def nth_append)
  qed
next
  fix i assume "i < length (pp_pollfds p')"
  then consider "i = length (pp_pollfds p)" | "i < length (pp_pollfds p)" using p' by fastforce
  then show "\<exists>b d. pl_channels p' (owner (pp_pollfds p' ! i)) = Some b \<and> h' b = Some d \<and> ch_index d = int i"
  proof cases
    case 1
    then show ?thesis using c h' p' pfd by (simp add: owner_def)
  next
    case 2
    with PollPoller_inv_slot [OF inv 2] c h' p' PollPoller_inv_other [OF inv _ c(1)]
    show ?thesis by (fastforce simp: nth_append)
  qed
next
  fix x assume "x \<in> set (pp_pollfds p')" "pfd_fd x < 0"
  then show "pfd_events x = 0" using PollPoller_inv_ignored [OF inv] p' pfd c by auto
qed

text \<open>A later update overwrites the channel's own entry.\<close>

lemma PollPoller_change_inv:
  assumes inv: "PollPoller_inv h p" and c: "h a = Some c" "pl_channels p (ch_fd c) = Some a"
    and p': "pp_pollfds p' = (pp_pollfds p)[nat (ch_index c) := pfd]" "pl_channels p' = pl_channels p"
    and pfd: "owner pfd = ch_fd c" "pfd_fd pfd < 0 \<longrightarrow> pfd_events pfd = 0"
  shows "PollPoller_inv h p'"
proof -
  have s: "slot_of (pp_pollfds p) c" using PollPoller_inv_known [OF inv c(2)] c(1) by auto
  have own: "owner (pp_pollfds p' ! i) = owner (pp_pollfds p ! i)" if "i < length (pp_pollfds p)" for i
    using that s p' pfd by (cases "i = nat (ch_index c)") (simp_all add: slot_of_def)
  show ?thesis
    unfolding PollPoller_inv_def
  proof (intro conjI allI impI ballI)
    fix fd b assume "pl_channels p' fd = Some b"
    with PollPoller_inv_known [OF inv, of fd b] p' own
    show "\<exists>d. h b = Some d \<and> ch_fd d = fd \<and> slot_of (pp_pollfds p') d" by (auto simp: slot_of_def)
  next
    fix i assume i: "i < length (pp_pollfds p')"
    with PollPoller_inv_slot [OF inv, of i] p' own [of i]
    show "\<exists>b d. pl_channels p' (owner (pp_pollfds p' ! i)) = Some b \<and> h b = Some d \<and> ch_index d = int i"
      by simp
  next
    fix x assume "x \<in> set (pp_pollfds p')" "pfd_fd x < 0"
    then show "pfd_events x = 0"
      using PollPoller_inv_ignored [OF inv, of x] p' pfd set_update_subset_insert [of "pp_pollfds p"] by auto
  qed
qed

lemmas poll_update_defs = PollPoller_updateChannel_def Poller_assertInLoopThread_def Let_def

lemma PollPoller_add_spec:
  assumes inv: "PollPoller_inv h p" and tid: "pl_thread p = tid" and c: "h a = Some c" "chan_ok c"
    and known: "pl_channels p (ch_fd c) = None" "fresh h a"
  shows "\<exists>h' p'. PollPoller_updateChannel tid a (h, p) = Some (h', p') \<and> PollPoller_inv h' p' \<and>
    pl_thread p' = pl_thread p \<and> same_but_index h h' \<and> (\<forall>b. b \<noteq> a \<longrightarrow> fresh h b \<longrightarrow> fresh h' b) \<and>
    pl_channels p' = (pl_channels p)(ch_fd c \<mapsto> a) \<and>
    PollPoller_watched p' = (PollPoller_watched p)(ch_fd c := wanted (ch_events c)) \<and>
    (\<forall>fd. fd \<noteq> ch_fd c \<longrightarrow> PollPoller_quiet h' p' fd = PollPoller_quiet h p fd) \<and>
    (pl_channels p (ch_fd c) = Some a \<longrightarrow> ch_events c = 0 \<longrightarrow> PollPoller_quiet h' p' (ch_fd c))"
proof -
  have fd: "0 \<le> ch_fd c" and ev: "of_short (to_short (ch_events c)) = ch_events c"
    using c(2) by (simp_all add: chan_ok_def of_short_to_short)
  define pfd where "pfd = \<lparr>pfd_fd = ch_fd c, pfd_events = to_short (ch_events c), pfd_revents = 0\<rparr>"
  define p' where "p' = p\<lparr>pp_pollfds := pp_pollfds p @ [pfd], pl_channels := (pl_channels p)(ch_fd c \<mapsto> a)\<rparr>"
  define h' where "h' = h(a \<mapsto> Channel_set_index (int (length (pp_pollfds p))) c)"
  have "ch_index c < 0" using known c by (simp add: fresh_def)
  then have r: "PollPoller_updateChannel tid a (h, p) = Some (h', p')"
    using known tid c by (simp add: poll_update_defs p'_def h'_def pfd_def)
  have inv': "PollPoller_inv h' p'"
    by (rule PollPoller_add_inv [OF inv c(1) fd known(1) h'_def, of p' pfd]) (simp_all add: p'_def pfd_def)
  have frame: "PollPoller_watched p' x = PollPoller_watched p x" "PollPoller_quiet h' p' x = PollPoller_quiet h p x"
    if "x \<noteq> ch_fd c" for x
    using that PollPoller_inv_other [OF inv _ c(1)] PollPoller_inv_known [OF inv, of x]
    by (intro PollPoller_frame [OF inv inv']; force simp: p'_def h'_def slot_of_def nth_append)+
  have "PollPoller_watched p' (ch_fd c) = wanted (ch_events c)"
    using PollPoller_watched_known [OF inv', of "ch_fd c" a] ev
    by (simp add: p'_def h'_def pfd_def slot_view_def nth_append)
  with frame have "PollPoller_watched p' = (PollPoller_watched p)(ch_fd c := wanted (ch_events c))" by auto
  with r inv' frame known show ?thesis
    using c by (simp add: p'_def h'_def same_but_index_upd) (simp add: fresh_def)
qed

lemma PollPoller_change_spec:
  assumes inv: "PollPoller_inv h p" and tid: "pl_thread p = tid" and c: "h a = Some c" "chan_ok c"
    and known: "pl_channels p (ch_fd c) = Some a"
  shows "\<exists>h' p'. PollPoller_updateChannel tid a (h, p) = Some (h', p') \<and> PollPoller_inv h' p' \<and>
    pl_thread p' = pl_thread p \<and> same_but_index h h' \<and> (\<forall>b. b \<noteq> a \<longrightarrow> fresh h b \<longrightarrow> fresh h' b) \<and>
    pl_channels p' = (pl_channels p)(ch_fd c \<mapsto> a) \<and>
    PollPoller_watched p' = (PollPoller_watched p)(ch_fd c := wanted (ch_events c)) \<and>
    (\<forall>fd. fd \<noteq> ch_fd c \<longrightarrow> PollPoller_quiet h' p' fd = PollPoller_quiet h p fd) \<and>
    (pl_channels p (ch_fd c) = Some a \<longrightarrow> ch_events c = 0 \<longrightarrow> PollPoller_quiet h' p' (ch_fd c))"
proof -
  have fd: "0 \<le> ch_fd c" and ev: "of_short (to_short (ch_events c)) = ch_events c"
    using c(2) by (simp_all add: chan_ok_def of_short_to_short)
  have s: "slot_of (pp_pollfds p) c" using PollPoller_inv_known [OF inv known] c by auto
  have none: "Channel_isNoneEvent c \<longleftrightarrow> ch_events c = 0"
    by (simp add: Channel_isNoneEvent_def kNoneEvent_def)
  define pfd where "pfd = \<lparr>pfd_fd = if ch_events c = 0 then - ch_fd c - 1 else ch_fd c,
    pfd_events = to_short (ch_events c), pfd_revents = 0\<rparr>"
  define p' where "p' = p\<lparr>pp_pollfds := (pp_pollfds p)[nat (ch_index c) := pfd]\<rparr>"
  have "pfd_fd (pp_pollfds p ! nat (ch_index c)) \<in> {ch_fd c, - ch_fd c - 1}"
    using s by (auto simp: slot_of_def owner_def split: if_splits)
  with s have r: "PollPoller_updateChannel tid a (h, p) = Some (h, p')"
    using tid c known none
    by (cases "pp_pollfds p ! nat (ch_index c)") (auto simp: poll_update_defs p'_def pfd_def slot_of_def)
  have inv': "PollPoller_inv h p'"
    by (rule PollPoller_change_inv [OF inv c(1) known, of p' pfd])
      (use fd in \<open>auto simp: p'_def pfd_def owner_def\<close>)
  have frame: "PollPoller_watched p' x = PollPoller_watched p x" "PollPoller_quiet h p' x = PollPoller_quiet h p x"
    if "x \<noteq> ch_fd c" for x
    using that PollPoller_slot_unique [OF inv known c(1)] PollPoller_inv_known [OF inv, of x] s
    by (intro PollPoller_frame [OF inv inv']; force simp: p'_def slot_of_def nth_list_update)+
  have w: "PollPoller_watched p' (ch_fd c) = wanted (ch_events c)"
    using PollPoller_watched_known [OF inv', of "ch_fd c" a] ev known c s fd
    by (simp add: p'_def pfd_def slot_view_def slot_of_def wanted_def)
  have q: "PollPoller_quiet h p' (ch_fd c)" if "ch_events c = 0"
    by (subst PollPoller_quiet_known [OF inv', of _ a c])
      (use that known c s in \<open>simp_all add: p'_def pfd_def slot_of_def\<close>)
  have "PollPoller_watched p' = (PollPoller_watched p)(ch_fd c := wanted (ch_events c))"
    using frame w by auto
  with r inv' frame q known show ?thesis by (auto simp: p'_def)
qed

section \<open>Removal\<close>

text \<open>The last entry moves into the freed slot.\<close>

lemma swap_pop_nth:
  "idx < length xs \<Longrightarrow> i < length xs - 1 \<Longrightarrow> butlast (swap_last idx xs) ! i = (if i = idx then last xs else xs ! i)"
  by (auto simp: swap_last_def nth_butlast nth_list_update)

lemma swap_last_length [simp]: "length (swap_last idx xs) = length xs"
  by (simp add: swap_last_def)

lemma swap_pop_last: "xs \<noteq> [] \<Longrightarrow> butlast (swap_last (length xs - 1) xs) = butlast xs"
  by (rule nth_equalityI) (auto simp: swap_pop_nth nth_butlast swap_last_def)

lemma swap_pop_subset:
  assumes "idx < length xs"
  shows "set (butlast (swap_last idx xs)) \<subseteq> set xs"
proof
  fix x assume "x \<in> set (butlast (swap_last idx xs))"
  then obtain i where "i < length xs - 1" "x = butlast (swap_last idx xs) ! i"
    by (auto simp: in_set_conv_nth)
  moreover have "last xs \<in> set xs" using assms by (intro last_in_set) auto
  ultimately show "x \<in> set xs" using assms by (simp add: swap_pop_nth)
qed

text \<open>
  Both branches of the removal are one operation: the entry of \<open>c\<close> leaves, and the channel of
  the last entry, unless it is \<open>c\<close> itself, gets the freed index.
\<close>

definition reindexed :: "heap \<Rightarrow> poll_poller \<Rightarrow> addr \<Rightarrow> int \<Rightarrow> heap \<Rightarrow> bool" where
  "reindexed h p a idx h' \<longleftrightarrow>
     (\<forall>b d. h b = Some d \<longrightarrow> pl_channels p (ch_fd d) = Some b \<longrightarrow> b \<noteq> a \<longrightarrow>
        h' b = Some (if ch_index d = int (length (pp_pollfds p)) - 1 then Channel_set_index idx d else d))"

lemma reindexedD:
  "reindexed h p a idx h' \<Longrightarrow> h b = Some d \<Longrightarrow> pl_channels p (ch_fd d) = Some b \<Longrightarrow> b \<noteq> a \<Longrightarrow>
   h' b = Some (if ch_index d = int (length (pp_pollfds p)) - 1 then Channel_set_index idx d else d)"
  by (simp add: reindexed_def)

lemma swap_pop_nth':
  "idx < length xs \<Longrightarrow> j < length xs - 1 \<Longrightarrow>
   butlast (swap_last idx xs) ! j = xs ! (if j = idx then length xs - 1 else j)"
  by (cases "xs = []") (simp_all add: swap_pop_nth last_conv_nth)

lemma PollPoller_remove_moved:
  assumes inv: "PollPoller_inv h p" and c: "h a = Some c" "pl_channels p (ch_fd c) = Some a"
    and p': "pl_channels p' = (pl_channels p)(ch_fd c := None)"
      "pp_pollfds p' = butlast (swap_last (nat (ch_index c)) (pp_pollfds p))"
    and h': "reindexed h p a (ch_index c) h'"
    and b: "fd \<noteq> ch_fd c" "pl_channels p fd = Some b" "h b = Some d"
  shows "\<exists>d'. h' b = Some d' \<and> ch_fd d' = fd \<and> slot_of (pp_pollfds p') d' \<and>
    pp_pollfds p' ! nat (ch_index d') = pp_pollfds p ! nat (ch_index d)"
proof -
  let ?n = "length (pp_pollfds p) - 1" and ?i = "nat (ch_index c)"
  have sc: "slot_of (pp_pollfds p) c" using PollPoller_inv_known [OF inv c(2)] c(1) by auto
  have d: "slot_of (pp_pollfds p) d" "ch_fd d = fd" using PollPoller_inv_known [OF inv b(2)] b(3) by auto
  have hb: "h' b = Some (if ch_index d = int (length (pp_pollfds p)) - 1 then Channel_set_index (ch_index c) d else d)"
    using reindexedD [OF h' b(3)] d(2) b PollPoller_inv_other [OF inv b(2) c(1) b(1)] by simp
  have ne: "nat (ch_index d) \<noteq> ?i" using d sc b(1) by (auto simp: slot_of_def)
  show ?thesis
  proof (cases "ch_index d = int (length (pp_pollfds p)) - 1")
    case True
    then have "nat (ch_index d) = ?n" "?i < ?n" using ne sc d by (auto simp: slot_of_def)
    with True show ?thesis using hb d sc p'(2) swap_pop_nth' [of ?i "pp_pollfds p" ?i] by (simp add: slot_of_def)
  next
    case False
    then have "nat (ch_index d) < ?n" using d by (auto simp: slot_of_def)
    with False ne show ?thesis
      using hb d sc p'(2) swap_pop_nth' [of ?i "pp_pollfds p" "nat (ch_index d)"] by (simp add: slot_of_def)
  qed
qed

lemma PollPoller_remove_inv:
  assumes inv: "PollPoller_inv h p" and c: "h a = Some c" "pl_channels p (ch_fd c) = Some a"
    and p': "pl_channels p' = (pl_channels p)(ch_fd c := None)"
      "pp_pollfds p' = butlast (swap_last (nat (ch_index c)) (pp_pollfds p))"
    and h': "reindexed h p a (ch_index c) h'"
  shows "PollPoller_inv h' p'"
  unfolding PollPoller_inv_def
proof (intro conjI allI impI ballI)
  fix fd b assume "pl_channels p' fd = Some b"
  then have b: "fd \<noteq> ch_fd c" "pl_channels p fd = Some b" using p' by (auto split: if_splits)
  with PollPoller_inv_known [OF inv b(2)] obtain d where "h b = Some d" by auto
  from PollPoller_remove_moved [OF inv c p' h' b this]
  show "\<exists>d. h' b = Some d \<and> ch_fd d = fd \<and> slot_of (pp_pollfds p') d" by auto
next
  let ?n = "length (pp_pollfds p) - 1" and ?i = "nat (ch_index c)"
  have sc: "slot_of (pp_pollfds p) c" using PollPoller_inv_known [OF inv c(2)] c(1) by auto
  then have i: "?i < length (pp_pollfds p)" "0 \<le> ch_index c" by (auto simp: slot_of_def)
  fix j assume "j < length (pp_pollfds p')"
  then have j: "j < ?n" using p'(2) by simp
  define k where "k = (if j = ?i then ?n else j)"
  have nth: "pp_pollfds p' ! j = pp_pollfds p ! k" using swap_pop_nth' [OF i(1) j] p'(2) by (simp add: k_def)
  have k: "k < length (pp_pollfds p)" "k \<noteq> ?i" using i j by (auto simp: k_def)
  obtain b d where b: "pl_channels p (owner (pp_pollfds p ! k)) = Some b" "h b = Some d" "ch_index d = int k"
    using PollPoller_inv_slot [OF inv k(1)] by auto
  have ne: "owner (pp_pollfds p ! k) \<noteq> ch_fd c" "b \<noteq> a" using b c k by auto
  have "pl_channels p (ch_fd d) = Some b" using PollPoller_inv_known [OF inv b(1)] b by auto
  from reindexedD [OF h' b(2) this ne(2)]
  have "\<exists>d'. h' b = Some d' \<and> ch_index d' = int j" using b(3) i j by (auto simp: k_def split: if_splits)
  with b(1) ne p'(1) nth
  show "\<exists>b d. pl_channels p' (owner (pp_pollfds p' ! j)) = Some b \<and> h' b = Some d \<and> ch_index d = int j"
    by simp
next
  fix x assume "x \<in> set (pp_pollfds p')" "pfd_fd x < 0"
  moreover have "nat (ch_index c) < length (pp_pollfds p)"
    using PollPoller_inv_known [OF inv c(2)] c(1) by (auto simp: slot_of_def)
  ultimately show "pfd_events x = 0"
    using PollPoller_inv_ignored [OF inv, of x] p'(2) swap_pop_subset [of "nat (ch_index c)" "pp_pollfds p"] by auto
qed

text \<open>The branch that moves the last entry, with its guards spelled out.\<close>

lemma PollPoller_removeChannel_swap:
  assumes "pl_thread p = tid" "h a = Some c" "pl_channels p (ch_fd c) = Some a" "Channel_isNoneEvent c"
    and "ch_index c = int i" "i < length (pp_pollfds p)" "i \<noteq> length (pp_pollfds p) - 1"
    and "pfd_fd (pp_pollfds p ! i) = - ch_fd c - 1" "of_short (pfd_events (pp_pollfds p ! i)) = ch_events c"
    and "owner (last (pp_pollfds p)) = x" "x \<noteq> ch_fd c" "pl_channels p x = Some b" "h b = Some d"
  shows "PollPoller_removeChannel tid a (h, p) =
    Some (h(b \<mapsto> Channel_set_index (ch_index c) d),
      p\<lparr>pl_channels := (pl_channels p)(ch_fd c := None), pp_pollfds := butlast (swap_last i (pp_pollfds p))\<rparr>)"
proof -
  have "((pl_channels p)(ch_fd c := None)) x = Some b" using assms by simp
  moreover note assms(1-10,13)
  ultimately show ?thesis
    unfolding PollPoller_removeChannel_def Poller_assertInLoopThread_def Let_def owner_def [symmetric]
    by (simp del: fun_upd_apply)
qed

text \<open>What the operation returns, with both branches folded together.\<close>

lemma PollPoller_remove_result:
  assumes inv: "PollPoller_inv h p" and tid: "pl_thread p = tid" and c: "h a = Some c" "pl_channels p (ch_fd c) = Some a"
    and ev: "ch_events c = 0" and q: "PollPoller_quiet h p (ch_fd c)"
  shows "\<exists>h'. PollPoller_removeChannel tid a (h, p) =
      Some (h', p\<lparr>pl_channels := (pl_channels p)(ch_fd c := None),
        pp_pollfds := butlast (swap_last (nat (ch_index c)) (pp_pollfds p))\<rparr>) \<and>
    same_but_index h h' \<and> (\<forall>b. fresh h b \<longrightarrow> fresh h' b) \<and>
    reindexed h p a (ch_index c) h'"
proof -
  let ?n = "length (pp_pollfds p) - 1" and ?i = "nat (ch_index c)"
  have s: "slot_of (pp_pollfds p) c" using PollPoller_inv_known [OF inv c(2)] c(1) by auto
  have fd: "pfd_fd (pp_pollfds p ! ?i) = - ch_fd c - 1" using q PollPoller_quiet_known [OF inv c(2,1)] by simp
  have e: "pfd_events (pp_pollfds p ! ?i) = 0"
    using PollPoller_inv_ignored [OF inv, of "pp_pollfds p ! ?i"] fd s by (simp add: slot_of_def)
  have ne: "pp_pollfds p \<noteq> []" using s by (auto simp: slot_of_def)
  have slot: "slot_of (pp_pollfds p) d" if "h b = Some d" "pl_channels p (ch_fd d) = Some b" for b d
    using PollPoller_inv_known [OF inv that(2)] that(1) by auto
  note defs = PollPoller_removeChannel_def Poller_assertInLoopThread_def Let_def
  obtain b d where b: "pl_channels p (owner (pp_pollfds p ! ?n)) = Some b" "h b = Some d" "ch_index d = int ?n"
    using PollPoller_inv_slot [OF inv, of ?n] ne by auto
  have at_end: "x = b"
    if x: "h x = Some y" "pl_channels p (ch_fd y) = Some x" "ch_index y = int (length (pp_pollfds p)) - 1" for x y
  proof -
    have "nat (ch_index y) = ?n" using x(3) by simp
    then show ?thesis using slot [OF x(1,2)] x(2) b(1) by (simp add: slot_of_def)
  qed
  have guards: "0 \<le> ch_index c" "ch_index c < int (length (pp_pollfds p))" "Channel_isNoneEvent c"
    using s ev by (auto simp: slot_of_def Channel_isNoneEvent_def kNoneEvent_def)
  show ?thesis
  proof (cases "?i = ?n")
    case True
    with b c(2) s have "b = a" by (simp add: slot_of_def)
    with at_end have "reindexed h p a (ch_index c) h" unfolding reindexed_def by metis
    moreover have "butlast (swap_last ?i (pp_pollfds p)) = butlast (pp_pollfds p)"
      unfolding True by (rule swap_pop_last [OF ne])
    ultimately show ?thesis
      using tid c fd e ev guards True by (intro exI [of _ h]) (simp add: defs)
  next
    case False
    let ?h = "h(b \<mapsto> Channel_set_index (ch_index c) d)"
    have ne': "owner (pp_pollfds p ! ?n) \<noteq> ch_fd c" "b \<noteq> a" using b c False by auto
    have idx: "ch_index c = int ?i" "?i < length (pp_pollfds p)" using guards(1,2) by (simp_all add: nat_less_iff)
    have e': "of_short (pfd_events (pp_pollfds p ! ?i)) = ch_events c" by (simp add: e ev)
    have own: "owner (last (pp_pollfds p)) = owner (pp_pollfds p ! ?n)" by (simp add: last_conv_nth [OF ne])
    have "PollPoller_removeChannel tid a (h, p) = Some (?h, p\<lparr>pl_channels := (pl_channels p)(ch_fd c := None),
        pp_pollfds := butlast (swap_last (nat (ch_index c)) (pp_pollfds p))\<rparr>)"
      using PollPoller_removeChannel_swap [OF tid c guards(3) idx(1) idx(2) False fd e' own ne'(1) b(1,2)] .
    moreover have "reindexed h p a (ch_index c) ?h"
      unfolding reindexed_def
    proof (intro allI impI)
      fix x y assume x: "h x = Some y" "pl_channels p (ch_fd y) = Some x" "x \<noteq> a"
      have "ch_index d = int (length (pp_pollfds p)) - 1" using b(3) ne by (cases "pp_pollfds p") auto
      then show "?h x = Some (if ch_index y = int (length (pp_pollfds p)) - 1 then Channel_set_index (ch_index c) y else y)"
        using x b(2) at_end [OF x(1,2)] by (cases "x = b") auto
    qed
    moreover have "\<forall>x. fresh h x \<longrightarrow> fresh ?h x" using b by (auto simp: fresh_def)
    ultimately show ?thesis using b(2) by (blast intro: same_but_index_upd)
  qed
qed

lemma PollPoller_removeChannel_spec:
  assumes inv: "PollPoller_inv h p" and tid: "pl_thread p = tid" and c: "h a = Some c" "pl_channels p (ch_fd c) = Some a"
    and ev: "ch_events c = 0" and q: "PollPoller_quiet h p (ch_fd c)"
  shows "\<exists>h' p'. PollPoller_removeChannel tid a (h, p) = Some (h', p') \<and> PollPoller_inv h' p' \<and>
    pl_thread p' = pl_thread p \<and> same_but_index h h' \<and> (\<forall>b. b \<noteq> a \<longrightarrow> fresh h b \<longrightarrow> fresh h' b) \<and>
    pl_channels p' = (pl_channels p)(ch_fd c := None) \<and>
    PollPoller_watched p' = (PollPoller_watched p)(ch_fd c := None) \<and>
    (\<forall>fd. fd \<noteq> ch_fd c \<longrightarrow> PollPoller_quiet h' p' fd = PollPoller_quiet h p fd)"
proof -
  define p' where "p' = p\<lparr>pl_channels := (pl_channels p)(ch_fd c := None),
    pp_pollfds := butlast (swap_last (nat (ch_index c)) (pp_pollfds p))\<rparr>"
  obtain h' where r: "PollPoller_removeChannel tid a (h, p) = Some (h', p')" "same_but_index h h'"
      "\<forall>b. fresh h b \<longrightarrow> fresh h' b"
      and h': "reindexed h p a (ch_index c) h'"
    using PollPoller_remove_result [OF assms] unfolding p'_def by blast
  have p': "pl_channels p' = (pl_channels p)(ch_fd c := None)"
      "pp_pollfds p' = butlast (swap_last (nat (ch_index c)) (pp_pollfds p))" by (simp_all add: p'_def)
  have inv': "PollPoller_inv h' p'" by (rule PollPoller_remove_inv [OF inv c p' h'])
  have frame: "PollPoller_watched p' x = PollPoller_watched p x" "PollPoller_quiet h' p' x = PollPoller_quiet h p x"
    if x: "x \<noteq> ch_fd c" for x
  proof -
    have same: "pl_channels p' x = pl_channels p x" using x by (simp add: p')
    have moved: "\<exists>d'. h' b = Some d' \<and> pp_pollfds p' ! nat (ch_index d') = pp_pollfds p ! nat (ch_index d)"
      if "pl_channels p x = Some b" "h b = Some d" for b d
      using PollPoller_remove_moved [OF inv c p' h' x that] by blast
    show "PollPoller_watched p' x = PollPoller_watched p x" "PollPoller_quiet h' p' x = PollPoller_quiet h p x"
      by (rule PollPoller_frame [OF inv inv' same moved]; assumption)+
  qed
  moreover have "PollPoller_watched p' (ch_fd c) = None"
    by (rule PollPoller_watched_unknown [OF inv']) (simp add: p')
  ultimately have "PollPoller_watched p' = (PollPoller_watched p)(ch_fd c := None)" by auto
  with r inv' frame show ?thesis by (auto simp: p'_def)
qed

lemma PollPoller_inv_same_index:
  assumes inv: "PollPoller_inv h p"
    and same: "\<And>a. map_option (\<lambda>c. (ch_fd c, ch_index c)) (h' a) = map_option (\<lambda>c. (ch_fd c, ch_index c)) (h a)"
  shows "PollPoller_inv h' p"
proof -
  have *: "\<exists>c'. h' b = Some c' \<and> ch_fd c' = ch_fd d \<and> ch_index c' = ch_index d" if "h b = Some d" for b d
    using same [of b] that by auto
  show ?thesis
    unfolding PollPoller_inv_def
  proof (intro conjI allI impI ballI)
    fix fd a assume "pl_channels p fd = Some a"
    from PollPoller_inv_known [OF inv this] obtain c where "h a = Some c" "ch_fd c = fd" "slot_of (pp_pollfds p) c"
      by auto
    with * [of a c] show "\<exists>c. h' a = Some c \<and> ch_fd c = fd \<and> slot_of (pp_pollfds p) c"
      by (auto simp: slot_of_def)
  next
    fix i assume "i < length (pp_pollfds p)"
    from PollPoller_inv_slot [OF inv this] *
    show "\<exists>a c. pl_channels p (owner (pp_pollfds p ! i)) = Some a \<and> h' a = Some c \<and> ch_index c = int i"
      by metis
  qed (rule PollPoller_inv_ignored [OF inv])
qed

interpretation pp: poller_contract PollPoller_inv pl_thread pl_channels PollPoller_watched PollPoller_quiet
    PollPoller_updateChannel PollPoller_removeChannel
proof (unfold_locales, goal_cases)
  case (1 h p tid a c)
  from 1(5) show ?case
  proof
    assume "pl_channels p (ch_fd c) = Some a"
    with 1(1-4) show ?case by (rule PollPoller_change_spec)
  next
    assume "pl_channels p (ch_fd c) = None \<and> fresh h a"
    with 1(1-4) show ?case by (intro PollPoller_add_spec) auto
  qed
next
  case (2 h p tid a c)
  then show ?case by (intro PollPoller_removeChannel_spec)
next
  case (3 h p a c ev)
  then show ?case by (intro PollPoller_inv_same_index [OF 3(1)]) simp
next
  case (4 h a c ev p fd)
  then show ?case by (simp add: PollPoller_quiet_def)
qed

section \<open>Polling\<close>

text \<open>
  What the kernel promises of \<^verbatim>\<open>poll\<close>: it answers for every entry, ignores the negative
  descriptors, uses no mask with the sign bit, and returns the number of non-empty answers.
\<close>

definition poll_ok :: "poll_poller \<Rightarrow> nat \<times> short list \<Rightarrow> bool" where
  "poll_ok p result \<longleftrightarrow>
     (case result of (numEvents, revents) \<Rightarrow>
        length revents = length (pp_pollfds p) \<and>
        numEvents = length (filter (\<lambda>r. r \<noteq> 0) revents) \<and>
        (\<forall>r \<in> set revents. 0 \<le> sint r) \<and>
        (\<forall>(pfd, r) \<in> set (zip (pp_pollfds p) revents). pfd_fd pfd < 0 \<longrightarrow> r = 0))"

text \<open>The channels of the non-empty answers, in the order of the array.\<close>

definition answers :: "poll_poller \<Rightarrow> pollfd list \<Rightarrow> (events \<times> addr) list" where
  "answers p pfds =
     map (\<lambda>pfd. (of_short (pfd_revents pfd), the (pl_channels p (pfd_fd pfd))))
       (filter (\<lambda>pfd. pfd_revents pfd \<noteq> 0) pfds)"

lemma sint_positive: "0 \<le> sint r \<Longrightarrow> 0 < sint r \<longleftrightarrow> r \<noteq> 0"
  by (metis order_le_less sint_0 signed_eq_0_iff less_irrefl)

lemma PollPoller_distinct_owner:
  assumes "PollPoller_inv h p"
  shows "distinct (map owner (pp_pollfds p))"
  unfolding distinct_conv_nth
proof (intro allI impI)
  fix i j assume ij: "i < length (map owner (pp_pollfds p))" "j < length (map owner (pp_pollfds p))" "i \<noteq> j"
  then show "map owner (pp_pollfds p) ! i \<noteq> map owner (pp_pollfds p) ! j"
    using PollPoller_inv_slot [OF assms, of i] PollPoller_inv_slot [OF assms, of j] by auto
qed

lemma pollFillActive_done [simp]: "pollFillActive p pfds 0 ha = Some ha"
  by (cases pfds; cases ha) simp_all

lemma pollFillActive_skip: "pfd_revents pfd = 0 \<Longrightarrow> pollFillActive p (pfd # pfds) n ha = pollFillActive p pfds n ha"
  by (cases ha) simp

lemma answers_simps [simp]:
  "answers p [] = []"
  "answers p (pfd # pfds) =
     (if pfd_revents pfd = 0 then answers p pfds
      else (of_short (pfd_revents pfd), the (pl_channels p (pfd_fd pfd))) # answers p pfds)"
  by (simp_all add: answers_def)

lemma pollFillActive_spec:
  assumes "PollPoller_inv h p"
    and "\<forall>pfd \<in> set pfds. 0 \<le> sint (pfd_revents pfd) \<and> (pfd_revents pfd \<noteq> 0 \<longrightarrow> pl_channels p (pfd_fd pfd) \<noteq> None)"
    and "distinct (map owner pfds)"
  shows "pollFillActive p pfds (length (answers p pfds)) (h, active) =
    Some (ready_heap (answers p pfds) h, active @ map snd (answers p pfds))"
  using assms
proof (induction pfds arbitrary: h active)
  case Nil
  then show ?case by simp
next
  case (Cons pfd pfds)
  show ?case
  proof (cases "pfd_revents pfd = 0")
    case True
    with Cons.IH [OF Cons.prems(1)] Cons.prems show ?thesis
      by (simp add: pollFillActive_skip del: pollFillActive.simps)
  next
    case False
    with Cons.prems(2) obtain a where a: "pl_channels p (pfd_fd pfd) = Some a" by auto
    with PollPoller_inv_known [OF Cons.prems(1)] obtain c where c: "h a = Some c" "ch_fd c = pfd_fd pfd" by blast
    let ?h = "h(a \<mapsto> Channel_set_revents (of_short (pfd_revents pfd)) c)"
    have inv': "PollPoller_inv ?h p"
      by (rule PollPoller_inv_same_index [OF Cons.prems(1)]) (simp add: c)
    have "a \<notin> snd ` set (answers p pfds)"
    proof
      assume "a \<in> snd ` set (answers p pfds)"
      with Cons.prems(2) obtain x where x: "x \<in> set pfds" "pl_channels p (pfd_fd x) = Some a"
        by (fastforce simp: answers_def)
      then have "pfd_fd x = pfd_fd pfd" using PollPoller_inv_known [OF Cons.prems(1) x(2)] c by auto
      then have "owner x = owner pfd" by (simp add: owner_def)
      then have "owner pfd \<in> owner ` set pfds" using x(1) by (metis image_eqI)
      with Cons.prems(3) show False by simp
    qed
    note ready = ready_heap_Cons [of a "answers p pfds" h c, OF this c(1)]
    have "pollFillActive p pfds (length (answers p pfds)) (?h, active @ [a]) =
        Some (ready_heap (answers p pfds) ?h, (active @ [a]) @ map snd (answers p pfds))"
      by (rule Cons.IH [OF inv']) (use Cons.prems in auto)
    with False a c Cons.prems(2) show ?thesis by (simp add: sint_positive ready)
  qed
qed

lemma store_revents_owner:
  "length rs = length pfds \<Longrightarrow> map owner (map2 (\<lambda>pfd r. pfd\<lparr>pfd_revents := r\<rparr>) pfds rs) = map owner pfds"
  by (induction pfds rs rule: list_induct2') (simp_all add: owner_def)

lemma store_revents_nonzero:
  "length rs = length pfds \<Longrightarrow>
   length (answers p (map2 (\<lambda>pfd r. pfd\<lparr>pfd_revents := r\<rparr>) pfds rs)) = length (filter (\<lambda>r. r \<noteq> 0) rs)"
  by (induction pfds rs rule: list_induct2') simp_all

lemma store_revents_set:
  "x \<in> set (map2 (\<lambda>pfd r. pfd\<lparr>pfd_revents := r\<rparr>) pfds rs) \<Longrightarrow>
   \<exists>pfd r. (pfd, r) \<in> set (zip pfds rs) \<and> x = pfd\<lparr>pfd_revents := r\<rparr>"
  by auto

text \<open>The invariant does not look at \<^verbatim>\<open>revents\<close>.\<close>

lemma PollPoller_inv_store:
  assumes inv: "PollPoller_inv h p" and len: "length rs = length (pp_pollfds p)"
  shows "PollPoller_inv h (p\<lparr>pp_pollfds := map2 (\<lambda>pfd r. pfd\<lparr>pfd_revents := r\<rparr>) (pp_pollfds p) rs\<rparr>)"
    (is "PollPoller_inv h ?p")
proof -
  have own: "owner (pp_pollfds ?p ! i) = owner (pp_pollfds p ! i)" if "i < length (pp_pollfds p)" for i
    using that len by (simp add: owner_def)
  have n: "length (pp_pollfds ?p) = length (pp_pollfds p)" using len by simp
  show ?thesis
    unfolding PollPoller_inv_def n
  proof (intro conjI allI impI ballI)
    fix fd a assume "pl_channels ?p fd = Some a"
    with PollPoller_inv_known [OF inv, of fd a] own n
    show "\<exists>c. h a = Some c \<and> ch_fd c = fd \<and> slot_of (pp_pollfds ?p) c" by (auto simp: slot_of_def)
  next
    fix i assume "i < length (pp_pollfds p)"
    from PollPoller_inv_slot [OF inv this] own [OF this]
    show "\<exists>a c. pl_channels ?p (owner (pp_pollfds ?p ! i)) = Some a \<and> h a = Some c \<and> ch_index c = int i" by simp
  next
    fix x assume "x \<in> set (pp_pollfds ?p)" "pfd_fd x < 0"
    then show "pfd_events x = 0" using PollPoller_inv_ignored [OF inv] by (auto dest!: set_zip_leftD)
  qed
qed

lemma PollPoller_poll_spec:
  assumes inv: "PollPoller_inv h p" and ok: "poll_ok p (numEvents, revents)"
    and p': "p' = p\<lparr>pp_pollfds := map2 (\<lambda>pfd r. pfd\<lparr>pfd_revents := r\<rparr>) (pp_pollfds p) revents\<rparr>"
  shows "PollPoller_poll (Inr (numEvents, revents)) (h, p) active =
    Some (ready_heap (answers p' (pp_pollfds p')) h, p', active @ map snd (answers p' (pp_pollfds p')))"
proof -
  have len: "length revents = length (pp_pollfds p)" using ok by (simp add: poll_ok_def)
  have n: "numEvents = length (answers p' (pp_pollfds p'))"
    using ok store_revents_nonzero [OF len] p' by (simp add: poll_ok_def)
  have inv': "PollPoller_inv h p'" unfolding p' by (rule PollPoller_inv_store [OF inv len])
  have "0 \<le> sint (pfd_revents x) \<and> (pfd_revents x \<noteq> 0 \<longrightarrow> pl_channels p' (pfd_fd x) \<noteq> None)"
    if x: "x \<in> set (pp_pollfds p')" for x
  proof -
    obtain pfd r where z: "(pfd, r) \<in> set (zip (pp_pollfds p) revents)" "x = pfd\<lparr>pfd_revents := r\<rparr>"
      using store_revents_set x unfolding p' by fastforce
    have "pfd_fd x < 0 \<longrightarrow> pfd_revents x = 0" "0 \<le> sint (pfd_revents x)"
      using ok z by (auto simp: poll_ok_def dest: set_zip_rightD)
    moreover obtain a where "pl_channels p' (owner x) = Some a"
      using x PollPoller_inv_slot [OF inv'] by (metis in_set_conv_nth)
    ultimately show ?thesis by (auto simp: owner_def split: if_splits)
  qed
  with pollFillActive_spec [OF inv' _ PollPoller_distinct_owner [OF inv'], of active]
  have "pollFillActive p' (pp_pollfds p') numEvents (h, active) =
      Some (ready_heap (answers p' (pp_pollfds p')) h, active @ map snd (answers p' (pp_pollfds p')))"
    unfolding n by blast
  then show ?thesis
    unfolding PollPoller_poll_def PollPoller_fillActiveChannels_def prod.case sum.case Let_def p' [symmetric]
    by (cases "numEvents = 0") (use n in simp_all)
qed

end
