(* ===== verification/DefaultPoller.thy ===== *)
theory DefaultPoller
  imports EPollPoller PollPoller
begin

text \<open>
  \<^verbatim>\<open>muduo/net/poller/DefaultPoller.cc\<close> and the virtual calls of \<^verbatim>\<open>Poller\<close>: an event loop holds
  one of the two pollers, chosen from the environment, and does not know which. The theorems say
  that it need not: on every sequence of channel operations that keeps to the protocol of
  \<open>legal\<close> both pollers succeed and watch the same descriptors for the same events.
\<close>

datatype anypoller = AnyEPoll epoller | AnyPoll poll_poller

text \<open>\<open>use_poll\<close> is whether \<^verbatim>\<open>MUDUO_USE_POLL\<close> is set.\<close>

definition newDefaultPoller :: "bool \<Rightarrow> int \<Rightarrow> int \<Rightarrow> anypoller option" where
  "newDefaultPoller use_poll epollfd tid =
     (if use_poll then Some (AnyPoll (PollPoller_new tid))
      else map_option AnyEPoll (EPollPoller_new epollfd tid))"

definition Poller_updateChannel ::
  "epoll_ctl \<Rightarrow> int \<Rightarrow> addr \<Rightarrow> heap \<times> anypoller \<Rightarrow> (heap \<times> anypoller) option" where
  "Poller_updateChannel ctl tid a hp =
     (case hp of
        (h, AnyEPoll p) \<Rightarrow> map_option (map_prod id AnyEPoll) (EPollPoller_updateChannel ctl tid a (h, p))
      | (h, AnyPoll p) \<Rightarrow> map_option (map_prod id AnyPoll) (PollPoller_updateChannel tid a (h, p)))"

definition Poller_removeChannel ::
  "epoll_ctl \<Rightarrow> int \<Rightarrow> addr \<Rightarrow> heap \<times> anypoller \<Rightarrow> (heap \<times> anypoller) option" where
  "Poller_removeChannel ctl tid a hp =
     (case hp of
        (h, AnyEPoll p) \<Rightarrow> map_option (map_prod id AnyEPoll) (EPollPoller_removeChannel ctl tid a (h, p))
      | (h, AnyPoll p) \<Rightarrow> map_option (map_prod id AnyPoll) (PollPoller_removeChannel tid a (h, p)))"

fun any_channels :: "anypoller \<Rightarrow> fd \<Rightarrow> addr option" where
  "any_channels (AnyEPoll p) = pl_channels p"
| "any_channels (AnyPoll p) = pl_channels p"

fun any_thread :: "anypoller \<Rightarrow> int" where
  "any_thread (AnyEPoll p) = pl_thread p"
| "any_thread (AnyPoll p) = pl_thread p"

fun any_watched :: "anypoller \<Rightarrow> fd \<Rightarrow> events option" where
  "any_watched (AnyEPoll p) = EPoller_watched p"
| "any_watched (AnyPoll p) = PollPoller_watched p"

fun any_inv :: "heap \<Rightarrow> anypoller \<Rightarrow> bool" where
  "any_inv h (AnyEPoll p) = EPoller_inv h p"
| "any_inv h (AnyPoll p) = PollPoller_inv h p"

fun any_quiet :: "heap \<Rightarrow> anypoller \<Rightarrow> fd \<Rightarrow> bool" where
  "any_quiet h (AnyEPoll p) fd = True"
| "any_quiet h (AnyPoll p) fd = PollPoller_quiet h p fd"

section \<open>The dispatching poller meets the contract\<close>

sublocale epoll_env \<subseteq> any: poller_contract any_inv any_thread any_channels any_watched any_quiet
    "Poller_updateChannel ctl" "Poller_removeChannel ctl"
proof (unfold_locales, goal_cases)
  case (1 h p tid a c)
  show ?case
  proof (cases p)
    case (AnyEPoll q)
    with epc.update_spec [of h q tid a c] 1 show ?thesis by (fastforce simp: Poller_updateChannel_def)
  next
    case (AnyPoll q)
    with pp.update_spec [of h q tid a c] 1 show ?thesis by (fastforce simp: Poller_updateChannel_def)
  qed
next
  case (2 h p tid a c)
  show ?case
  proof (cases p)
    case (AnyEPoll q)
    with epc.remove_spec [of h q tid a c] 2 show ?thesis by (fastforce simp: Poller_removeChannel_def)
  next
    case (AnyPoll q)
    with pp.remove_spec [of h q tid a c] 2 show ?thesis by (fastforce simp: Poller_removeChannel_def)
  qed
next
  case (3 h p a c ev)
  then show ?case by (cases p) (auto intro: epc.events_change pp.events_change)
next
  case (4 h a c ev p fd)
  then show ?case by (cases p) (auto simp: pp.events_quiet)
qed

section \<open>Runs from a new poller\<close>

definition new_heap :: "addr \<Rightarrow> (addr \<Rightarrow> fd option) \<Rightarrow> heap" where
  "new_heap loop fds a = map_option (Channel_new loop) (fds a)"

definition new_table :: "(addr \<Rightarrow> fd option) \<Rightarrow> watch_table" where
  "new_table fds = \<lparr>wt_known = (\<lambda>_. None), wt_watched = (\<lambda>_. None), wt_events = (\<lambda>_. 0),
     wt_quiet = (\<lambda>_. False), wt_fresh = (\<lambda>a. fds a \<noteq> None)\<rparr>"

context epoll_env
begin

lemma new_agrees:
  assumes "newDefaultPoller use_poll epollfd tid = Some p"
  shows "any_inv (new_heap loop fds) p" "any_thread p = tid"
    "any.agrees fds (new_table fds) (new_heap loop fds) p"
proof -
  consider q where "p = AnyEPoll q" "EPollPoller_new epollfd tid = Some q" | "p = AnyPoll (PollPoller_new tid)"
    using assms by (auto simp: newDefaultPoller_def split: if_splits)
  then have *: "any_inv (new_heap loop fds) p \<and> any_thread p = tid \<and> any_channels p = (\<lambda>_. None) \<and>
      any_watched p = (\<lambda>_. None)"
  proof cases
    case (1 q)
    then show ?thesis
      using EPoller_inv_new [OF 1(2)] by (auto simp: EPollPoller_new_def EPoller_watched_def split: if_splits)
  next
    case 2
    then show ?thesis
      using PollPoller_inv_new by (auto simp: PollPoller_new_def PollPoller_watched_def)
  qed
  then show "any_inv (new_heap loop fds) p" "any_thread p = tid" by simp_all
  from * show "any.agrees fds (new_table fds) (new_heap loop fds) p"
    by (auto simp: any.agrees_def new_table_def new_heap_def fresh_def Channel_new_def option.map_comp o_def
        option.map_ident split: option.splits)
qed

lemmas new_run = any.run_watched [OF new_agrees(1,3,2)]

lemmas dispatch_update = any.update_spec

lemmas dispatch_remove = any.remove_spec

end

text \<open>
  C3. Whichever poller \<^verbatim>\<open>newDefaultPoller\<close> returns, and for every kernel that behaves as documented:
  a sequence of channel operations that keeps to the protocol (a descriptor belongs to one channel
  at a time, a channel is removed only after it was registered and then disabled, and is not
  registered again after its removal) never fails an assertion or a system call, and at its end
  the registered channels and the events the kernel watches per descriptor are those of the
  abstract table.
\<close>

theorem newDefaultPoller_run:
  assumes "kernel_ok ctl" "newDefaultPoller use_poll epollfd tid = Some p"
    and "legal_run fds xs (new_table fds)"
  shows "\<exists>h' p'. poller_run (Poller_updateChannel ctl tid) (Poller_removeChannel ctl tid) xs (new_heap loop fds, p) =
      Some (h', p') \<and>
    any_channels p' = wt_known (table_run fds xs (new_table fds)) \<and>
    any_watched p' = wt_watched (table_run fds xs (new_table fds))"
  using assms by (intro epoll_env.new_run epoll_env.intro)

definition example_fds :: "addr \<Rightarrow> fd option" where
  "example_fds a = (if a = 100 then Some 5 else if a = 200 then Some 6 else None)"

definition example_ops :: "chan_op list" where
  "example_ops = [SetEvents 100 kReadEvent, SetEvents 200 kReadEvent,
     SetEvents 200 (kReadEvent OR kWriteEvent), SetEvents 100 0, Remove 100]"

lemma example_legal: "legal_run example_fds example_ops (new_table example_fds)"
  by (simp add: example_ops_def example_fds_def new_table_def poll_defs kReadEvent_def kWriteEvent_def)

theorem newDefaultPoller_run_witness:
  "\<exists>h' p'. poller_run (Poller_updateChannel table_ctl 7) (Poller_removeChannel table_ctl 7) example_ops
      (new_heap 1 example_fds, AnyPoll (PollPoller_new 7)) = Some (h', p') \<and>
    any_channels p' = wt_known (table_run example_fds example_ops (new_table example_fds)) \<and>
    any_watched p' = wt_watched (table_run example_fds example_ops (new_table example_fds))"
  by (rule newDefaultPoller_run [OF kernel_ok_table_ctl _ example_legal, of True 3]) (simp add: newDefaultPoller_def)












end
