(* ===== verification/EventLoop.thy ===== *)
theory EventLoop
  imports DefaultPoller
begin

text \<open>
  \<^verbatim>\<open>muduo/net/EventLoop.h\<close>, \<^verbatim>\<open>EventLoop.cc\<close>, and the operations of \<^verbatim>\<open>Channel\<close> that go through the
  loop. The loop's record holds the poller, the heap of its channels and the counter of the
  eventfd that \<^verbatim>\<open>wakeup()\<close> writes. The thread that makes a call is an argument \<open>tid\<close>.

  Functors and callbacks run arbitrary code. A functor is a value of a type \<open>'f\<close>; the state is
  the loop together with the state \<open>'u\<close> of the rest of the program, and an argument \<open>call\<close>
  gives the effect of a functor on it. \<^verbatim>\<open>queueInLoop\<close>, \<^verbatim>\<open>quit\<close> and \<^verbatim>\<open>doPendingFunctors\<close> are composed of
  the parts that \<open>LoopThreads\<close> interleaves with the calls of other threads.
\<close>

record 'f eventloop =
  el_self :: addr
  el_looping :: bool
  el_quit :: bool
  el_eventHandling :: bool
  el_callingPendingFunctors :: bool
  el_iteration :: "64 word"
  el_threadId :: int
  el_poller :: anypoller
  el_heap :: heap
  el_wakeupChannel :: addr
  el_wakeupCount :: nat
  el_activeChannels :: "addr list"
  el_currentActiveChannel :: "addr option"
  el_pendingFunctors :: "'f list"

definition EventLoop_isInLoopThread :: "int \<Rightarrow> 'f eventloop \<Rightarrow> bool" where
  "EventLoop_isInLoopThread tid l \<longleftrightarrow> el_threadId l = tid"

text \<open>\<^verbatim>\<open>abortNotInLoopThread\<close> logs at level FATAL, which aborts.\<close>

definition EventLoop_assertInLoopThread :: "int \<Rightarrow> 'f eventloop \<Rightarrow> unit option" where
  "EventLoop_assertInLoopThread tid l = (if EventLoop_isInLoopThread tid l then Some () else None)"

section \<open>Channels of the loop\<close>

definition EventLoop_updateChannel :: "epoll_ctl \<Rightarrow> int \<Rightarrow> addr \<Rightarrow> 'f eventloop \<Rightarrow> 'f eventloop option" where
  "EventLoop_updateChannel ctl tid a l =
     do {
       c \<leftarrow> el_heap l a;
       assert_that (ch_loop c = el_self l);
       EventLoop_assertInLoopThread tid l;
       (h, p) \<leftarrow> Poller_updateChannel ctl tid a (el_heap l, el_poller l);
       Some (l\<lparr>el_heap := h, el_poller := p\<rparr>) }"

definition EventLoop_removeChannel :: "epoll_ctl \<Rightarrow> int \<Rightarrow> addr \<Rightarrow> 'f eventloop \<Rightarrow> 'f eventloop option" where
  "EventLoop_removeChannel ctl tid a l =
     do {
       c \<leftarrow> el_heap l a;
       assert_that (ch_loop c = el_self l);
       EventLoop_assertInLoopThread tid l;
       assert_that (el_eventHandling l \<longrightarrow>
         el_currentActiveChannel l = Some a \<or> a \<notin> set (el_activeChannels l));
       (h, p) \<leftarrow> Poller_removeChannel ctl tid a (el_heap l, el_poller l);
       Some (l\<lparr>el_heap := h, el_poller := p\<rparr>) }"

definition EventLoop_hasChannel :: "int \<Rightarrow> addr \<Rightarrow> 'f eventloop \<Rightarrow> bool option" where
  "EventLoop_hasChannel tid a l =
     do {
       c \<leftarrow> el_heap l a;
       assert_that (ch_loop c = el_self l);
       EventLoop_assertInLoopThread tid l;
       case el_poller l of
         AnyEPoll p \<Rightarrow> Poller_hasChannel tid a (el_heap l, p)
       | AnyPoll p \<Rightarrow> Poller_hasChannel tid a (el_heap l, p) }"

definition Channel_update :: "epoll_ctl \<Rightarrow> int \<Rightarrow> addr \<Rightarrow> 'f eventloop \<Rightarrow> 'f eventloop option" where
  "Channel_update ctl tid a l =
     do {
       c \<leftarrow> el_heap l a;
       EventLoop_updateChannel ctl tid a (l\<lparr>el_heap := (el_heap l)(a \<mapsto> c\<lparr>ch_addedToLoop := True\<rparr>)\<rparr>) }"

definition Channel_remove :: "epoll_ctl \<Rightarrow> int \<Rightarrow> addr \<Rightarrow> 'f eventloop \<Rightarrow> 'f eventloop option" where
  "Channel_remove ctl tid a l =
     do {
       c \<leftarrow> el_heap l a;
       assert_that (Channel_isNoneEvent c);
       EventLoop_removeChannel ctl tid a (l\<lparr>el_heap := (el_heap l)(a \<mapsto> c\<lparr>ch_addedToLoop := False\<rparr>)\<rparr>) }"

definition Channel_change :: "epoll_ctl \<Rightarrow> int \<Rightarrow> (channel \<Rightarrow> channel) \<Rightarrow> addr \<Rightarrow> 'f eventloop \<Rightarrow> 'f eventloop option" where
  "Channel_change ctl tid f a l =
     do {
       c \<leftarrow> el_heap l a;
       Channel_update ctl tid a (l\<lparr>el_heap := (el_heap l)(a \<mapsto> f c)\<rparr>) }"

definition Channel_enableReading :: "epoll_ctl \<Rightarrow> int \<Rightarrow> addr \<Rightarrow> 'f eventloop \<Rightarrow> 'f eventloop option" where
  "Channel_enableReading ctl tid = Channel_change ctl tid (or_events kReadEvent)"

definition Channel_disableReading :: "epoll_ctl \<Rightarrow> int \<Rightarrow> addr \<Rightarrow> 'f eventloop \<Rightarrow> 'f eventloop option" where
  "Channel_disableReading ctl tid = Channel_change ctl tid (mask_events kReadEvent)"

definition Channel_enableWriting :: "epoll_ctl \<Rightarrow> int \<Rightarrow> addr \<Rightarrow> 'f eventloop \<Rightarrow> 'f eventloop option" where
  "Channel_enableWriting ctl tid = Channel_change ctl tid (or_events kWriteEvent)"

definition Channel_disableWriting :: "epoll_ctl \<Rightarrow> int \<Rightarrow> addr \<Rightarrow> 'f eventloop \<Rightarrow> 'f eventloop option" where
  "Channel_disableWriting ctl tid = Channel_change ctl tid (mask_events kWriteEvent)"

definition Channel_disableAll :: "epoll_ctl \<Rightarrow> int \<Rightarrow> addr \<Rightarrow> 'f eventloop \<Rightarrow> 'f eventloop option" where
  "Channel_disableAll ctl tid = Channel_change ctl tid none_events"

text \<open>The destructor's checks.\<close>

definition Channel_destroy :: "int \<Rightarrow> addr \<Rightarrow> 'f eventloop \<Rightarrow> 'f eventloop option" where
  "Channel_destroy tid a l =
     do {
       c \<leftarrow> el_heap l a;
       assert_that (\<not> ch_eventHandling c);
       assert_that (\<not> ch_addedToLoop c);
       (if EventLoop_isInLoopThread tid l
        then do { b \<leftarrow> EventLoop_hasChannel tid a l; assert_that (\<not> b) }
        else Some ());
       Some (l\<lparr>el_heap := (el_heap l)(a := None)\<rparr>) }"

section \<open>Construction and destruction\<close>

definition createEventfd :: "int \<Rightarrow> int option" where
  "createEventfd evtfd = (if evtfd < 0 then None else Some evtfd)"

text \<open>
  \<open>in_thread\<close> is the thread's current loop (\<^verbatim>\<open>t_loopInThisThread\<close>). The constructor of the timer
  queue registers the timer channel, then the loop registers its wakeup channel.
\<close>

definition EventLoop_new ::
  "epoll_ctl \<Rightarrow> bool \<Rightarrow> int \<Rightarrow> addr option \<Rightarrow> addr \<Rightarrow> int \<Rightarrow> addr \<times> fd \<Rightarrow> addr \<times> int \<Rightarrow> 'f eventloop option" where
  "EventLoop_new ctl use_poll epollfd in_thread self tid timer wakeup =
     do {
       poller \<leftarrow> newDefaultPoller use_poll epollfd tid;
       let l = \<lparr>el_self = self, el_looping = False, el_quit = False, el_eventHandling = False,
         el_callingPendingFunctors = False, el_iteration = 0, el_threadId = tid, el_poller = poller,
         el_heap = (\<lambda>_. None)(fst timer \<mapsto> Channel_new self (snd timer)),
         el_wakeupChannel = fst wakeup, el_wakeupCount = 0,
         el_activeChannels = [], el_currentActiveChannel = None, el_pendingFunctors = []\<rparr>;
       l \<leftarrow> Channel_enableReading ctl tid (fst timer) l;
       wakeupFd \<leftarrow> createEventfd (snd wakeup);
       let l = l\<lparr>el_heap := (el_heap l)(fst wakeup \<mapsto> Channel_new self wakeupFd)\<rparr>;
       assert_that (in_thread = None);
       Channel_enableReading ctl tid (fst wakeup) l }"

definition EventLoop_destroy :: "epoll_ctl \<Rightarrow> int \<Rightarrow> 'f eventloop \<Rightarrow> 'f eventloop option" where
  "EventLoop_destroy ctl tid l =
     do {
       l \<leftarrow> Channel_disableAll ctl tid (el_wakeupChannel l) l;
       Channel_remove ctl tid (el_wakeupChannel l) l }"

section \<open>Wakeup and functors\<close>

text \<open>
  A write to the non-blocking eventfd adds one to its counter unless the counter would pass its
  maximum, in which case the write fails and is logged. A read takes the counter to zero.
\<close>

definition kMaxEventfd :: nat where "kMaxEventfd = 2 ^ 64 - 2"

definition EventLoop_wakeup :: "'f eventloop \<Rightarrow> 'f eventloop" where
  "EventLoop_wakeup l =
     (if el_wakeupCount l < kMaxEventfd then l\<lparr>el_wakeupCount := el_wakeupCount l + 1\<rparr> else l)"

definition EventLoop_handleRead :: "'f eventloop \<Rightarrow> 'f eventloop" where
  "EventLoop_handleRead l = l\<lparr>el_wakeupCount := 0\<rparr>"

definition queue_push :: "'f \<Rightarrow> 'f eventloop \<Rightarrow> 'f eventloop" where
  "queue_push cb l = l\<lparr>el_pendingFunctors := el_pendingFunctors l @ [cb]\<rparr>"

text \<open>The test that decides whether \<^verbatim>\<open>queueInLoop\<close> wakes the loop up.\<close>

definition queueInLoop_wakes :: "int \<Rightarrow> 'f eventloop \<Rightarrow> bool" where
  "queueInLoop_wakes tid l \<longleftrightarrow> \<not> EventLoop_isInLoopThread tid l \<or> el_callingPendingFunctors l"

definition EventLoop_queueInLoop :: "int \<Rightarrow> 'f \<Rightarrow> 'f eventloop \<Rightarrow> 'f eventloop" where
  "EventLoop_queueInLoop tid cb l =
     (let l = queue_push cb l
      in if queueInLoop_wakes tid l then EventLoop_wakeup l else l)"

definition EventLoop_queueSize :: "'f eventloop \<Rightarrow> nat" where
  "EventLoop_queueSize l = length (el_pendingFunctors l)"

definition EventLoop_runInLoop ::
  "('f \<Rightarrow> 'f eventloop \<times> 'u \<Rightarrow> ('f eventloop \<times> 'u) option) \<Rightarrow> int \<Rightarrow> 'f \<Rightarrow> 'f eventloop \<times> 'u \<Rightarrow> ('f eventloop \<times> 'u) option" where
  "EventLoop_runInLoop call tid cb s =
     (if EventLoop_isInLoopThread tid (fst s) then call cb s
      else Some (EventLoop_queueInLoop tid cb (fst s), snd s))"

definition quit_set :: "'f eventloop \<Rightarrow> 'f eventloop" where
  "quit_set l = l\<lparr>el_quit := True\<rparr>"

definition quit_wakes :: "int \<Rightarrow> 'f eventloop \<Rightarrow> bool" where
  "quit_wakes tid l \<longleftrightarrow> \<not> EventLoop_isInLoopThread tid l"

definition EventLoop_quit :: "int \<Rightarrow> 'f eventloop \<Rightarrow> 'f eventloop" where
  "EventLoop_quit tid l =
     (let l = quit_set l
      in if quit_wakes tid l then EventLoop_wakeup l else l)"

fun run_functors ::
  "('f \<Rightarrow> 's \<Rightarrow> 's option) \<Rightarrow> 'f list \<Rightarrow> 's \<Rightarrow> 's option" where
  "run_functors call [] s = Some s"
| "run_functors call (f # fs) s = do { s \<leftarrow> call f s; run_functors call fs s }"

text \<open>\<^verbatim>\<open>doPendingFunctors\<close> before the critical section, the critical section, and after the loop.\<close>

definition functors_begin :: "'f eventloop \<Rightarrow> 'f eventloop" where
  "functors_begin l = l\<lparr>el_callingPendingFunctors := True\<rparr>"

definition functors_swap :: "'f eventloop \<Rightarrow> 'f list \<times> 'f eventloop" where
  "functors_swap l = (el_pendingFunctors l, l\<lparr>el_pendingFunctors := []\<rparr>)"

definition functors_end :: "'f eventloop \<Rightarrow> 'f eventloop" where
  "functors_end l = l\<lparr>el_callingPendingFunctors := False\<rparr>"

definition EventLoop_doPendingFunctors ::
  "('f \<Rightarrow> 'f eventloop \<times> 'u \<Rightarrow> ('f eventloop \<times> 'u) option) \<Rightarrow> 'f eventloop \<times> 'u \<Rightarrow> ('f eventloop \<times> 'u) option" where
  "EventLoop_doPendingFunctors call s =
     (case s of (l, u) \<Rightarrow>
        do {
          let (functors, l) = functors_swap (functors_begin l);
          (l, u) \<leftarrow> run_functors call functors (l, u);
          Some (functors_end l, u) })"

section \<open>The loop\<close>

text \<open>
  The poll of one iteration: what the kernel reported is an argument, as a list of ready masks
  with the channels they belong to, or for the poll poller the count and the array.
\<close>

datatype poll_input = EPollInput "int + (events \<times> addr) list" | PollInput "int + nat \<times> short list"

definition Poller_poll :: "poll_input \<Rightarrow> 'f eventloop \<Rightarrow> 'f eventloop option" where
  "Poller_poll inp l =
     (case (el_poller l, inp) of
        (AnyEPoll p, EPollInput r) \<Rightarrow>
          do {
            (h, p, active) \<leftarrow> EPollPoller_poll r (el_heap l, p) [];
            Some (l\<lparr>el_heap := h, el_poller := AnyEPoll p, el_activeChannels := active\<rparr>) }
      | (AnyPoll p, PollInput r) \<Rightarrow>
          do {
            (h, p, active) \<leftarrow> PollPoller_poll r (el_heap l, p) [];
            Some (l\<lparr>el_heap := h, el_poller := AnyPoll p, el_activeChannels := active\<rparr>) }
      | _ \<Rightarrow> None)"

text \<open>
  \<open>handle a now\<close> is \<^verbatim>\<open>Channel::handleEvent\<close> of the channel at \<open>a\<close>, which runs its callbacks.
\<close>

fun handle_active ::
  "(addr \<Rightarrow> 'f eventloop \<times> 'u \<Rightarrow> ('f eventloop \<times> 'u) option) \<Rightarrow> addr list \<Rightarrow> 'f eventloop \<times> 'u \<Rightarrow> ('f eventloop \<times> 'u) option" where
  "handle_active handle [] s = Some s"
| "handle_active handle (a # as) (l, u) =
     do {
       s \<leftarrow> handle a (l\<lparr>el_currentActiveChannel := Some a\<rparr>, u);
       handle_active handle as s }"

definition EventLoop_iteration ::
  "('f \<Rightarrow> 'f eventloop \<times> 'u \<Rightarrow> ('f eventloop \<times> 'u) option) \<Rightarrow>
   (int \<Rightarrow> addr \<Rightarrow> 'f eventloop \<times> 'u \<Rightarrow> ('f eventloop \<times> 'u) option) \<Rightarrow>
   int \<times> poll_input \<Rightarrow> 'f eventloop \<times> 'u \<Rightarrow> ('f eventloop \<times> 'u) option" where
  "EventLoop_iteration call handle inp s =
     (case (inp, s) of ((now, ready), (l, u)) \<Rightarrow>
        do {
          l \<leftarrow> Poller_poll ready (l\<lparr>el_activeChannels := []\<rparr>);
          let l = l\<lparr>el_iteration := el_iteration l + 1, el_eventHandling := True\<rparr>;
          (l, u) \<leftarrow> handle_active (handle now) (el_activeChannels l) (l, u);
          EventLoop_doPendingFunctors call
            (l\<lparr>el_currentActiveChannel := None, el_eventHandling := False\<rparr>, u) })"

text \<open>
  \<open>while_not_quit\<close> consumes one entry of the input per iteration. Its result says whether the
  loop has returned, and what is left of the input.
\<close>

fun while_not_quit ::
  "('f \<Rightarrow> 'f eventloop \<times> 'u \<Rightarrow> ('f eventloop \<times> 'u) option) \<Rightarrow>
   (int \<Rightarrow> addr \<Rightarrow> 'f eventloop \<times> 'u \<Rightarrow> ('f eventloop \<times> 'u) option) \<Rightarrow>
   (int \<times> poll_input) list \<Rightarrow> 'f eventloop \<times> 'u \<Rightarrow> (bool \<times> (int \<times> poll_input) list \<times> 'f eventloop \<times> 'u) option" where
  "while_not_quit call handle [] s = Some (el_quit (fst s), [], s)"
| "while_not_quit call handle (inp # inps) s =
     (if el_quit (fst s) then Some (True, inp # inps, s)
      else do { s \<leftarrow> EventLoop_iteration call handle inp s; while_not_quit call handle inps s })"

definition EventLoop_loop ::
  "('f \<Rightarrow> 'f eventloop \<times> 'u \<Rightarrow> ('f eventloop \<times> 'u) option) \<Rightarrow>
   (int \<Rightarrow> addr \<Rightarrow> 'f eventloop \<times> 'u \<Rightarrow> ('f eventloop \<times> 'u) option) \<Rightarrow>
   int \<Rightarrow> (int \<times> poll_input) list \<Rightarrow> 'f eventloop \<times> 'u \<Rightarrow> (bool \<times> (int \<times> poll_input) list \<times> 'f eventloop \<times> 'u) option" where
  "EventLoop_loop call handle tid inps s =
     (case s of (l, u) \<Rightarrow>
        do {
          assert_that (\<not> el_looping l);
          EventLoop_assertInLoopThread tid l;
          (returned, rest, l, u) \<leftarrow>
            while_not_quit call handle inps (l\<lparr>el_looping := True, el_quit := False\<rparr>, u);
          Some (returned, rest, (if returned then l\<lparr>el_looping := False\<rparr> else l), u) })"

section \<open>Channel operations succeed on a well-formed loop\<close>

definition EventLoop_inv :: "'f eventloop \<Rightarrow> bool" where
  "EventLoop_inv l \<longleftrightarrow> any_inv (el_heap l) (el_poller l) \<and> any_thread (el_poller l) = el_threadId l"

lemma any_inv_same_index:
  assumes "any_inv h p"
    "\<And>a. map_option (\<lambda>c. (ch_fd c, ch_index c)) (h' a) = map_option (\<lambda>c. (ch_fd c, ch_index c)) (h a)"
  shows "any_inv h' p"
  using assms by (cases p) (auto intro: EPoller_inv_same_index PollPoller_inv_same_index)

lemma any_quiet_heap: "any_quiet h p fd = any_quiet h' p fd"
  by (cases p) (simp_all add: PollPoller_quiet_def)

lemma same_but_index_eq:
  assumes "same_but_index h h'" "h a = Some c"
  shows "\<exists>i. h' a = Some (Channel_set_index i c)"
proof -
  have "map_option (Channel_set_index 0) (h' a) = Some (Channel_set_index 0 c)"
    using assms unfolding same_but_index_def by (metis option.map(2))
  then obtain c' where c': "h' a = Some c'" "Channel_set_index 0 c' = Channel_set_index 0 c"
    by auto
  then have "c' = Channel_set_index (ch_index c') c"
    by (cases c; cases c') (simp add: Channel_set_index_def)
  with c'(1) show ?thesis by metis
qed

text \<open>What a poller operation on the channel at \<open>a\<close> leaves alone.\<close>

definition only_poller :: "'f eventloop \<Rightarrow> 'f eventloop \<Rightarrow> bool" where
  "only_poller l l' \<longleftrightarrow> l' = l\<lparr>el_heap := el_heap l', el_poller := el_poller l'\<rparr>"

lemma only_poller_simps:
  assumes "only_poller l l'"
  shows "el_self l' = el_self l" "el_threadId l' = el_threadId l" "el_eventHandling l' = el_eventHandling l"
    "el_currentActiveChannel l' = el_currentActiveChannel l" "el_activeChannels l' = el_activeChannels l"
    "el_pendingFunctors l' = el_pendingFunctors l" "el_callingPendingFunctors l' = el_callingPendingFunctors l"
    "el_wakeupCount l' = el_wakeupCount l" "el_quit l' = el_quit l"
  using assms unfolding only_poller_def by (cases l; cases l'; simp)+

lemma only_poller_trans: "only_poller l l' \<Longrightarrow> only_poller l' l'' \<Longrightarrow> only_poller l l''"
  by (cases l; cases l'; cases l'') (simp add: only_poller_def)

lemma Channel_change_spec:
  assumes k: "kernel_ok ctl" and inv: "EventLoop_inv l" and tid: "el_threadId l = tid"
    and c: "el_heap l a = Some c" "ch_loop c = el_self l"
    and f: "chan_ok (f c)" "ch_fd (f c) = ch_fd c" "ch_index (f c) = ch_index c" "ch_loop (f c) = ch_loop c"
    and known: "any_channels (el_poller l) (ch_fd c) = Some a \<or>
      any_channels (el_poller l) (ch_fd c) = None \<and> ch_index c = - 1"
  shows "\<exists>l' i. Channel_change ctl tid f a l = Some l' \<and> EventLoop_inv l' \<and> only_poller l l' \<and>
    el_heap l' a = Some (Channel_set_index i ((f c)\<lparr>ch_addedToLoop := True\<rparr>)) \<and>
    same_but_index ((el_heap l)(a \<mapsto> (f c)\<lparr>ch_addedToLoop := True\<rparr>)) (el_heap l') \<and>
    any_channels (el_poller l') = (any_channels (el_poller l))(ch_fd c \<mapsto> a) \<and>
    any_watched (el_poller l') = (any_watched (el_poller l))(ch_fd c := wanted (ch_events (f c))) \<and>
    (any_channels (el_poller l) (ch_fd c) = Some a \<and> ch_events (f c) = 0 \<longrightarrow>
      any_quiet (el_heap l') (el_poller l') (ch_fd c))"
proof -
  let ?c = "(f c)\<lparr>ch_addedToLoop := True\<rparr>"
  let ?h = "(el_heap l)(a \<mapsto> ?c)"
  have "any_inv ?h (el_poller l)"
    by (rule any_inv_same_index [of "el_heap l"]) (use inv c f in \<open>simp_all add: EventLoop_inv_def\<close>)
  moreover have "any_thread (el_poller l) = tid" using inv tid by (simp add: EventLoop_inv_def)
  moreover have "chan_ok ?c" using f(1) by (simp add: chan_ok_def)
  ultimately have "\<exists>h' p'. Poller_updateChannel ctl tid a (?h, el_poller l) = Some (h', p') \<and> any_inv h' p' \<and>
      any_thread p' = any_thread (el_poller l) \<and> same_but_index ?h h' \<and>
      (\<forall>b. b \<noteq> a \<longrightarrow> fresh ?h b \<longrightarrow> fresh h' b) \<and>
      any_channels p' = (any_channels (el_poller l))(ch_fd ?c \<mapsto> a) \<and>
      any_watched p' = (any_watched (el_poller l))(ch_fd ?c := wanted (ch_events ?c)) \<and>
      (\<forall>fd. fd \<noteq> ch_fd ?c \<longrightarrow> any_quiet h' p' fd = any_quiet ?h (el_poller l) fd) \<and>
      (any_channels (el_poller l) (ch_fd ?c) = Some a \<longrightarrow> ch_events ?c = 0 \<longrightarrow> any_quiet h' p' (ch_fd ?c))"
    using known f c by (intro epoll_env.dispatch_update [OF epoll_env.intro [OF k]]) (auto simp: fresh_def)
  then obtain h' p' where u: "Poller_updateChannel ctl tid a (?h, el_poller l) = Some (h', p')" "any_inv h' p'"
      "any_thread p' = any_thread (el_poller l)" "same_but_index ?h h'"
      "any_channels p' = (any_channels (el_poller l))(ch_fd c \<mapsto> a)"
      "any_watched p' = (any_watched (el_poller l))(ch_fd c := wanted (ch_events (f c)))"
      "any_channels (el_poller l) (ch_fd c) = Some a \<longrightarrow> ch_events (f c) = 0 \<longrightarrow> any_quiet h' p' (ch_fd c)"
    using f by auto
  let ?l = "l\<lparr>el_heap := h', el_poller := p'\<rparr>"
  have "Channel_change ctl tid f a l = Some ?l"
    using c f tid u(1) by (simp add: Channel_change_def Channel_update_def EventLoop_updateChannel_def
        EventLoop_assertInLoopThread_def EventLoop_isInLoopThread_def)
  moreover obtain i where "h' a = Some (Channel_set_index i ?c)"
    using same_but_index_eq [OF u(4), of a ?c] by auto
  ultimately show ?thesis
    using u inv by (intro exI [of _ ?l] exI [of _ i]) (simp add: EventLoop_inv_def only_poller_def)
qed

lemma Channel_remove_spec:
  assumes k: "kernel_ok ctl" and inv: "EventLoop_inv l" and tid: "el_threadId l = tid"
    and c: "el_heap l a = Some c" "ch_loop c = el_self l" "0 \<le> ch_fd c" "ch_events c = 0"
    and known: "any_channels (el_poller l) (ch_fd c) = Some a"
    and quiet: "any_quiet (el_heap l) (el_poller l) (ch_fd c)"
    and active: "el_eventHandling l \<longrightarrow> el_currentActiveChannel l = Some a \<or> a \<notin> set (el_activeChannels l)"
  shows "\<exists>l' i. Channel_remove ctl tid a l = Some l' \<and> EventLoop_inv l' \<and> only_poller l l' \<and>
    el_heap l' a = Some (Channel_set_index i (c\<lparr>ch_addedToLoop := False\<rparr>)) \<and>
    any_channels (el_poller l') = (any_channels (el_poller l))(ch_fd c := None) \<and>
    any_watched (el_poller l') = (any_watched (el_poller l))(ch_fd c := None)"
proof -
  let ?c = "c\<lparr>ch_addedToLoop := False\<rparr>"
  let ?h = "(el_heap l)(a \<mapsto> ?c)"
  have "any_inv ?h (el_poller l)"
    by (rule any_inv_same_index [of "el_heap l"]) (use inv c in \<open>simp_all add: EventLoop_inv_def\<close>)
  moreover have "any_thread (el_poller l) = tid" using inv tid by (simp add: EventLoop_inv_def)
  moreover have "chan_ok ?c" using c by (simp add: chan_ok_def)
  moreover have "any_quiet ?h (el_poller l) (ch_fd c)" using quiet any_quiet_heap by metis
  ultimately have "\<exists>h' p'. Poller_removeChannel ctl tid a (?h, el_poller l) = Some (h', p') \<and> any_inv h' p' \<and>
      any_thread p' = any_thread (el_poller l) \<and> same_but_index ?h h' \<and>
      (\<forall>b. b \<noteq> a \<longrightarrow> fresh ?h b \<longrightarrow> fresh h' b) \<and>
      any_channels p' = (any_channels (el_poller l))(ch_fd ?c := None) \<and>
      any_watched p' = (any_watched (el_poller l))(ch_fd ?c := None) \<and>
      (\<forall>fd. fd \<noteq> ch_fd ?c \<longrightarrow> any_quiet h' p' fd = any_quiet ?h (el_poller l) fd)"
    using known c by (intro epoll_env.dispatch_remove [OF epoll_env.intro [OF k]]) auto
  then obtain h' p' where u: "Poller_removeChannel ctl tid a (?h, el_poller l) = Some (h', p')" "any_inv h' p'"
      "any_thread p' = any_thread (el_poller l)" "same_but_index ?h h'"
      "any_channels p' = (any_channels (el_poller l))(ch_fd c := None)"
      "any_watched p' = (any_watched (el_poller l))(ch_fd c := None)"
    by auto
  let ?l = "l\<lparr>el_heap := h', el_poller := p'\<rparr>"
  have "Channel_remove ctl tid a l = Some ?l"
    using c tid u(1) active by (simp add: Channel_remove_def EventLoop_removeChannel_def Channel_isNoneEvent_def
        kNoneEvent_def EventLoop_assertInLoopThread_def EventLoop_isInLoopThread_def)
  moreover obtain i where "h' a = Some (Channel_set_index i ?c)"
    using same_but_index_eq [OF u(4), of a ?c] by auto
  ultimately show ?thesis
    using u inv by (intro exI [of _ ?l] exI [of _ i]) (simp add: EventLoop_inv_def only_poller_def)
qed

end
