(* ===== verification/StringPiece.thy ===== *)
theory StringPiece
  imports Prelude "HOL-Library.Char_ord" "HOL-Library.List_Lexorder"
begin

text \<open>
  \<^verbatim>\<open>muduo/base/StringPiece.h\<close>: a pointer and an \<^verbatim>\<open>int\<close> length. The pointer is modelled by
  the bytes that may be read from it on (\<open>sp_ptr\<close>, the null pointer by the empty list); an
  operation that reads outside them has no result. Lengths are C \<^verbatim>\<open>int\<close>s, so the conversion
  of a \<^verbatim>\<open>size_t\<close> truncates to 32 bits.
\<close>

record stringpiece =
  sp_ptr :: "char list"
  sp_length :: int

definition to_int32 :: "nat \<Rightarrow> int" where
  "to_int32 n = sint (word_of_nat n :: 32 word)"

lemma to_int32_small: "n < 2 ^ 31 \<Longrightarrow> to_int32 n = int n"
  by (simp add: to_int32_def signed_take_bit_int_eq_self_iff signed_of_nat)

abbreviation NUL :: char where "NUL \<equiv> CHR 0x00"

text \<open>\<^verbatim>\<open>strlen\<close> on memory that holds a terminating zero byte.\<close>

definition strlen :: "char list \<Rightarrow> nat" where
  "strlen cs = std_find NUL cs"

text \<open>
  \<^verbatim>\<open>memcmp\<close> over the first \<open>n\<close> bytes, compared as unsigned characters; only the sign of the
  result is specified, and there is no result when a byte outside either object is read.
\<close>

fun memcmp_upto :: "nat \<Rightarrow> char list \<Rightarrow> char list \<Rightarrow> int option" where
  "memcmp_upto 0 xs ys = Some 0"
| "memcmp_upto (Suc n) (x # xs) (y # ys) =
     (if x = y then memcmp_upto n xs ys else Some (if x < y then -1 else 1))"
| "memcmp_upto (Suc n) _ _ = None"

definition memcmp :: "char list \<Rightarrow> char list \<Rightarrow> int \<Rightarrow> int option" where
  "memcmp xs ys n = (if n < 0 then None else memcmp_upto (nat n) xs ys)"

section \<open>Operations\<close>

definition StringPiece_default :: stringpiece where
  "StringPiece_default = \<lparr>sp_ptr = [], sp_length = 0\<rparr>"

definition StringPiece_cstr :: "char list \<Rightarrow> stringpiece" where
  "StringPiece_cstr str = \<lparr>sp_ptr = str, sp_length = to_int32 (strlen str)\<rparr>"

definition StringPiece_string :: "char list \<Rightarrow> stringpiece" where
  "StringPiece_string str = \<lparr>sp_ptr = str, sp_length = to_int32 (length str)\<rparr>"

definition StringPiece_range :: "char list \<Rightarrow> int \<Rightarrow> stringpiece" where
  "StringPiece_range offset len = \<lparr>sp_ptr = offset, sp_length = len\<rparr>"

definition StringPiece_empty :: "stringpiece \<Rightarrow> bool" where
  "StringPiece_empty s \<longleftrightarrow> sp_length s = 0"

definition StringPiece_clear :: "stringpiece \<Rightarrow> stringpiece" where
  "StringPiece_clear s = s\<lparr>sp_ptr := [], sp_length := 0\<rparr>"

definition StringPiece_set :: "char list \<Rightarrow> int \<Rightarrow> stringpiece \<Rightarrow> stringpiece" where
  "StringPiece_set buffer len s = s\<lparr>sp_ptr := buffer, sp_length := len\<rparr>"

definition StringPiece_nth :: "int \<Rightarrow> stringpiece \<Rightarrow> char option" where
  "StringPiece_nth i s = (if 0 \<le> i \<and> nat i < length (sp_ptr s) then Some (sp_ptr s ! nat i) else None)"

definition StringPiece_remove_prefix :: "nat \<Rightarrow> stringpiece \<Rightarrow> stringpiece option" where
  "StringPiece_remove_prefix n s =
     (if n \<le> length (sp_ptr s) then Some (s\<lparr>sp_ptr := drop n (sp_ptr s), sp_length := sp_length s - int n\<rparr>)
      else None)"

definition StringPiece_remove_suffix :: "nat \<Rightarrow> stringpiece \<Rightarrow> stringpiece" where
  "StringPiece_remove_suffix n s = s\<lparr>sp_length := sp_length s - int n\<rparr>"

definition StringPiece_eq :: "stringpiece \<Rightarrow> stringpiece \<Rightarrow> bool option" where
  "StringPiece_eq s x =
     (if sp_length s = sp_length x
      then do { r \<leftarrow> memcmp (sp_ptr s) (sp_ptr x) (sp_length s); Some (r = 0) }
      else Some False)"

definition StringPiece_ne :: "stringpiece \<Rightarrow> stringpiece \<Rightarrow> bool option" where
  "StringPiece_ne s x = do { b \<leftarrow> StringPiece_eq s x; Some (\<not> b) }"

text \<open>The four instances of \<^verbatim>\<open>STRINGPIECE_BINARY_PREDICATE(cmp,auxcmp)\<close>.\<close>

definition memcmp_min :: "stringpiece \<Rightarrow> stringpiece \<Rightarrow> int option" where
  "memcmp_min s x =
     memcmp (sp_ptr s) (sp_ptr x) (if sp_length s < sp_length x then sp_length s else sp_length x)"

definition StringPiece_lt :: "stringpiece \<Rightarrow> stringpiece \<Rightarrow> bool option" where
  "StringPiece_lt s x =
     do { r \<leftarrow> memcmp_min s x; Some (r < 0 \<or> (r = 0 \<and> sp_length s < sp_length x)) }"

definition StringPiece_le :: "stringpiece \<Rightarrow> stringpiece \<Rightarrow> bool option" where
  "StringPiece_le s x =
     do { r \<leftarrow> memcmp_min s x; Some (r < 0 \<or> (r = 0 \<and> sp_length s \<le> sp_length x)) }"

definition StringPiece_ge :: "stringpiece \<Rightarrow> stringpiece \<Rightarrow> bool option" where
  "StringPiece_ge s x =
     do { r \<leftarrow> memcmp_min s x; Some (r > 0 \<or> (r = 0 \<and> sp_length s \<ge> sp_length x)) }"

definition StringPiece_gt :: "stringpiece \<Rightarrow> stringpiece \<Rightarrow> bool option" where
  "StringPiece_gt s x =
     do { r \<leftarrow> memcmp_min s x; Some (r > 0 \<or> (r = 0 \<and> sp_length s > sp_length x)) }"

definition StringPiece_compare :: "stringpiece \<Rightarrow> stringpiece \<Rightarrow> int option" where
  "StringPiece_compare s x =
     do { r \<leftarrow> memcmp_min s x;
          Some (if r = 0
                then (if sp_length s < sp_length x then -1 else if sp_length s > sp_length x then 1 else r)
                else r) }"

definition StringPiece_as_string :: "stringpiece \<Rightarrow> char list option" where
  "StringPiece_as_string s =
     (if 0 \<le> sp_length s \<and> nat (sp_length s) \<le> length (sp_ptr s)
      then Some (take (nat (sp_length s)) (sp_ptr s)) else None)"

definition StringPiece_CopyToString :: "stringpiece \<Rightarrow> char list option" where
  "StringPiece_CopyToString s =
     (if 0 \<le> sp_length s \<and> nat (sp_length s) \<le> length (sp_ptr s)
      then Some (take (nat (sp_length s)) (sp_ptr s)) else None)"

definition StringPiece_starts_with :: "stringpiece \<Rightarrow> stringpiece \<Rightarrow> bool option" where
  "StringPiece_starts_with s x =
     (if sp_length s \<ge> sp_length x
      then do { r \<leftarrow> memcmp (sp_ptr s) (sp_ptr x) (sp_length x); Some (r = 0) }
      else Some False)"

section \<open>The string a piece denotes\<close>

text \<open>A piece that lies inside its object.\<close>

definition StringPiece_wf :: "stringpiece \<Rightarrow> bool" where
  "StringPiece_wf s \<longleftrightarrow> 0 \<le> sp_length s \<and> nat (sp_length s) \<le> length (sp_ptr s)"

definition piece_string :: "stringpiece \<Rightarrow> char list" where
  "piece_string s = take (nat (sp_length s)) (sp_ptr s)"

lemma sp_length_wf: "StringPiece_wf s \<Longrightarrow> sp_length s = int (length (piece_string s))"
  by (simp add: StringPiece_wf_def piece_string_def)

lemma take_piece_string:
  "n \<le> length (piece_string s) \<Longrightarrow> take n (sp_ptr s) = take n (piece_string s)"
  by (simp add: piece_string_def)

lemma piece_string_bound: "length (piece_string s) \<le> length (sp_ptr s)"
  by (simp add: piece_string_def)

lemma StringPiece_as_string_wf: "StringPiece_wf s \<Longrightarrow> StringPiece_as_string s = Some (piece_string s)"
  by (simp add: StringPiece_as_string_def StringPiece_wf_def piece_string_def)

text \<open>\<^verbatim>\<open>memcmp\<close> orders two runs of the same length lexicographically.\<close>

definition cmp_sign :: "'a::linorder list \<Rightarrow> 'a list \<Rightarrow> int" where
  "cmp_sign xs ys = (if xs = ys then 0 else if xs < ys then -1 else 1)"

lemma memcmp_upto_take:
  "n \<le> length xs \<Longrightarrow> n \<le> length ys \<Longrightarrow>
   memcmp_upto n xs ys = Some (cmp_sign (take n xs) (take n ys))"
  by (induction n xs ys rule: memcmp_upto.induct) (simp_all add: cmp_sign_def)

lemma memcmp_take:
  "n \<le> length xs \<Longrightarrow> n \<le> length ys \<Longrightarrow>
   memcmp xs ys (int n) = Some (cmp_sign (take n xs) (take n ys))"
  by (simp add: memcmp_def memcmp_upto_take)

text \<open>The comparison of two whole strings through their common length.\<close>

definition common :: "'a list \<Rightarrow> 'a list \<Rightarrow> nat" where
  "common xs ys = min (length xs) (length ys)"

lemma memcmp_min_wf:
  assumes "StringPiece_wf s" "StringPiece_wf x"
  shows "memcmp_min s x =
    Some (cmp_sign (take (common (piece_string s) (piece_string x)) (piece_string s))
                   (take (common (piece_string s) (piece_string x)) (piece_string x)))"
proof -
  let ?n = "common (piece_string s) (piece_string x)"
  have le: "?n \<le> length (piece_string s)" "?n \<le> length (piece_string x)"
    by (simp_all add: common_def)
  have "(if sp_length s < sp_length x then sp_length s else sp_length x) = int ?n"
    using assms by (simp add: sp_length_wf common_def min_def)
  then have "memcmp_min s x = memcmp (sp_ptr s) (sp_ptr x) (int ?n)"
    by (simp add: memcmp_min_def)
  also have "\<dots> = Some (cmp_sign (take ?n (sp_ptr s)) (take ?n (sp_ptr x)))"
    using le piece_string_bound [of s] piece_string_bound [of x] by (intro memcmp_take) simp_all
  finally show ?thesis
    using le by (simp add: take_piece_string)
qed

lemma list_less_common:
  "(xs :: 'a::linorder list) < ys \<longleftrightarrow>
     take (common xs ys) xs < take (common xs ys) ys \<or>
     take (common xs ys) xs = take (common xs ys) ys \<and> length xs < length ys"
proof (induction xs arbitrary: ys)
  case Nil
  then show ?case by (cases ys) (simp_all add: common_def)
next
  case (Cons x xs)
  show ?case
  proof (cases ys)
    case Nil
    then show ?thesis by (simp add: common_def)
  next
    case (Cons y ys')
    then have "common (x # xs) ys = Suc (common xs ys')"
      by (simp add: common_def)
    with Cons Cons.IH [of ys'] show ?thesis by auto
  qed
qed

lemma list_eq_common:
  "xs = ys \<longleftrightarrow> take (common xs ys) xs = take (common xs ys) ys \<and> length xs = length ys"
  by (auto simp: common_def)

lemma common_commute: "common xs ys = common ys xs"
  by (simp add: common_def min.commute)

lemma cmp_sign_iff [simp]:
  "cmp_sign xs ys < 0 \<longleftrightarrow> xs < ys"
  "0 < cmp_sign xs ys \<longleftrightarrow> ys < xs"
  "cmp_sign xs ys = 0 \<longleftrightarrow> xs = ys"
  by (auto simp: cmp_sign_def)

lemmas piece_order_simps = memcmp_min_wf sp_length_wf

lemma StringPiece_lt_wf:
  "StringPiece_wf s \<Longrightarrow> StringPiece_wf x \<Longrightarrow>
   StringPiece_lt s x = Some (piece_string s < piece_string x)"
  by (simp add: StringPiece_lt_def piece_order_simps list_less_common [of "piece_string s"])

lemma StringPiece_gt_wf:
  "StringPiece_wf s \<Longrightarrow> StringPiece_wf x \<Longrightarrow>
   StringPiece_gt s x = Some (piece_string x < piece_string s)"
  by (auto simp: StringPiece_gt_def piece_order_simps list_less_common [of "piece_string x"]
      common_commute [of "piece_string x"])

lemma StringPiece_le_not_gt:
  assumes "StringPiece_wf s" "StringPiece_wf x"
  shows "StringPiece_le s x = map_option Not (StringPiece_gt s x)"
  using assms by (auto simp: StringPiece_le_def StringPiece_gt_def piece_order_simps)

lemma StringPiece_ge_not_lt:
  assumes "StringPiece_wf s" "StringPiece_wf x"
  shows "StringPiece_ge s x = map_option Not (StringPiece_lt s x)"
  using assms by (auto simp: StringPiece_ge_def StringPiece_lt_def piece_order_simps)

lemma StringPiece_compare_wf:
  assumes "StringPiece_wf s" "StringPiece_wf x"
  shows "StringPiece_compare s x = Some (cmp_sign (piece_string s) (piece_string x))"
proof -
  let ?n = "common (piece_string s) (piece_string x)"
  show ?thesis
    using assms list_less_common [of "piece_string s" "piece_string x"]
      list_eq_common [of "piece_string s" "piece_string x"]
    by (cases "take ?n (piece_string s) = take ?n (piece_string x)")
      (simp_all add: StringPiece_compare_def piece_order_simps cmp_sign_def)
qed

lemma StringPiece_eq_wf:
  assumes "StringPiece_wf s" "StringPiece_wf x"
  shows "StringPiece_eq s x = Some (piece_string s = piece_string x)"
proof (cases "length (piece_string s) = length (piece_string x)")
  case True
  then have "memcmp (sp_ptr s) (sp_ptr x) (sp_length s) = Some (cmp_sign (piece_string s) (piece_string x))"
    using assms piece_string_bound [of s] piece_string_bound [of x]
    by (simp add: sp_length_wf memcmp_take take_piece_string)
  with True assms show ?thesis by (simp add: StringPiece_eq_def sp_length_wf)
next
  case False
  with assms show ?thesis by (auto simp: StringPiece_eq_def sp_length_wf)
qed

lemma StringPiece_starts_with_wf:
  assumes "StringPiece_wf s" "StringPiece_wf x"
  shows "StringPiece_starts_with s x = Some (prefix (piece_string x) (piece_string s))"
proof (cases "length (piece_string x) \<le> length (piece_string s)")
  case True
  then have "memcmp (sp_ptr s) (sp_ptr x) (sp_length x) =
      Some (cmp_sign (take (length (piece_string x)) (piece_string s)) (piece_string x))"
    using assms piece_string_bound [of s] piece_string_bound [of x]
    by (simp add: sp_length_wf memcmp_take take_piece_string)
  moreover have "take (length (piece_string x)) (piece_string s) = piece_string x \<longleftrightarrow>
      prefix (piece_string x) (piece_string s)"
    by (metis append_eq_conv_conj append_take_drop_id prefix_def)
  ultimately show ?thesis using True assms by (simp add: StringPiece_starts_with_def sp_length_wf)
next
  case False
  then have "\<not> prefix (piece_string x) (piece_string s)"
    using prefix_length_le by blast
  with False assms show ?thesis by (simp add: StringPiece_starts_with_def sp_length_wf)
qed

text \<open>
  On pieces that lie inside their objects every comparison operator of
  \<^verbatim>\<open>StringPiece\<close> returns, and decides the lexicographic order (bytes compared as unsigned)
  of the strings the pieces denote; \<^verbatim>\<open>compare\<close> returns its sign and \<^verbatim>\<open>starts_with\<close> decides
  the prefix relation.
\<close>

theorem StringPiece_comparisons:
  assumes "StringPiece_wf s" "StringPiece_wf x"
  shows "StringPiece_lt s x = Some (piece_string s < piece_string x) \<and>
         StringPiece_le s x = Some (piece_string s \<le> piece_string x) \<and>
         StringPiece_gt s x = Some (piece_string x < piece_string s) \<and>
         StringPiece_ge s x = Some (piece_string x \<le> piece_string s) \<and>
         StringPiece_eq s x = Some (piece_string s = piece_string x) \<and>
         StringPiece_compare s x = Some (cmp_sign (piece_string s) (piece_string x)) \<and>
         StringPiece_starts_with s x = Some (prefix (piece_string x) (piece_string s))"
  using assms
  by (simp add: StringPiece_lt_wf StringPiece_gt_wf StringPiece_le_not_gt StringPiece_ge_not_lt
      StringPiece_eq_wf StringPiece_compare_wf StringPiece_starts_with_wf not_less)

theorem StringPiece_comparisons_witness:
  "StringPiece_wf (StringPiece_range ''abcd'' 2) \<and> StringPiece_wf (StringPiece_range ''abd'' 3) \<and>
   StringPiece_lt (StringPiece_range ''abcd'' 2) (StringPiece_range ''abd'' 3) = Some True"
proof -
  have wf: "StringPiece_wf (StringPiece_range ''abcd'' 2)" "StringPiece_wf (StringPiece_range ''abd'' 3)"
    by (simp_all add: StringPiece_wf_def StringPiece_range_def)
  have "piece_string (StringPiece_range ''abcd'' 2) < piece_string (StringPiece_range ''abd'' 3)"
    by (simp add: piece_string_def StringPiece_range_def numeral_eq_Suc)
  with wf StringPiece_comparisons [OF wf] show ?thesis by simp
qed

end
