(* ===== verification/Endian.thy ===== *)
theory Endian
  imports Prelude
begin

text \<open>
  Network byte order: \<^verbatim>\<open>muduo/net/Endian.h\<close>. The host is little-endian (x86-64), so the
  object representation of an integer lists its bytes from the least significant one and
  \<^verbatim>\<open>htobe64\<close>/\<^verbatim>\<open>be64toh\<close> of the C library reverse the bytes. Bytes are values of type
  \<^typ>\<open>char\<close> (HOL characters are the 256 byte values).

  The locale \<open>net_int\<close> is the contract of a fixed-width encoding; it is interpreted for the
  four integer widths of the wire format.
\<close>

section \<open>Object representation of machine words\<close>

fun le_bytes :: "nat \<Rightarrow> nat \<Rightarrow> char list" where
  "le_bytes 0 x = []"
| "le_bytes (Suc n) x = char_of (x mod 256) # le_bytes n (x div 256)"

fun le_value :: "char list \<Rightarrow> nat" where
  "le_value [] = 0"
| "le_value (c # cs) = of_char c + 256 * le_value cs"

lemma length_le_bytes [simp]: "length (le_bytes n x) = n"
  by (induction n arbitrary: x) auto

lemma of_char_less: "of_char (c :: char) < (256 :: nat)"
  by (metis char_of_char mod_less_divisor of_char_of zero_less_numeral)

lemma le_value_bytes: "le_value (le_bytes n x) = x mod 256 ^ n"
proof (induction n arbitrary: x)
  case 0
  then show ?case by simp
next
  case (Suc n)
  have "x mod 256 ^ Suc n = 256 * (x div 256 mod 256 ^ n) + x mod 256"
    by (simp add: mod_mult2_eq)
  with Suc show ?case by simp
qed

lemma le_bytes_value: "le_bytes (length cs) (le_value cs) = cs"
proof (induction cs)
  case Nil
  then show ?case by simp
next
  case (Cons c cs)
  have "(of_char c + 256 * le_value cs) mod 256 = (of_char c :: nat)"
    using of_char_less [of c] by simp
  moreover have "(of_char c + 256 * le_value cs) div 256 = le_value cs"
    using of_char_less [of c] by simp
  ultimately show ?case using Cons by (simp add: mod_simps)
qed

lemma le_value_less: "le_value cs < 256 ^ length cs"
  by (metis le_bytes_value le_value_bytes mod_less_divisor zero_less_numeral zero_less_power)

text \<open>The bytes of a word in host memory, and the word a run of host memory holds.\<close>

definition mem_bytes :: "'a::len word \<Rightarrow> char list" where
  "mem_bytes w = le_bytes (LENGTH('a) div 8) (unat w)"

definition mem_word :: "char list \<Rightarrow> 'a::len word" where
  "mem_word cs = word_of_nat (le_value cs)"

lemma length_mem_bytes [simp]: "length (mem_bytes (w :: 'a::len word)) = LENGTH('a) div 8"
  by (simp add: mem_bytes_def)

lemma power_256: "8 dvd n \<Longrightarrow> (256 :: nat) ^ (n div 8) = 2 ^ n"
  by (auto simp: power_mult elim!: dvdE)

lemma mem_word_bytes:
  "8 dvd LENGTH('a) \<Longrightarrow> mem_word (mem_bytes w) = (w :: 'a::len word)"
  by (simp add: mem_word_def mem_bytes_def le_value_bytes power_256)

section \<open>Byte order conversion\<close>

definition byteswap :: "'a::len word \<Rightarrow> 'a word" where
  "byteswap w = mem_word (rev (mem_bytes w))"

definition hostToNetwork64 :: "64 word \<Rightarrow> 64 word" where
  "hostToNetwork64 host64 = byteswap host64"

definition hostToNetwork32 :: "32 word \<Rightarrow> 32 word" where
  "hostToNetwork32 host32 = byteswap host32"

definition hostToNetwork16 :: "16 word \<Rightarrow> 16 word" where
  "hostToNetwork16 host16 = byteswap host16"

definition networkToHost64 :: "64 word \<Rightarrow> 64 word" where
  "networkToHost64 net64 = byteswap net64"

definition networkToHost32 :: "32 word \<Rightarrow> 32 word" where
  "networkToHost32 net32 = byteswap net32"

definition networkToHost16 :: "16 word \<Rightarrow> 16 word" where
  "networkToHost16 net16 = byteswap net16"

lemmas endian_defs =
  hostToNetwork64_def hostToNetwork32_def hostToNetwork16_def
  networkToHost64_def networkToHost32_def networkToHost16_def

lemma mem_bytes_word:
  assumes "8 dvd LENGTH('a)" and "length cs = LENGTH('a) div 8"
  shows "mem_bytes (mem_word cs :: 'a::len word) = cs"
proof -
  have "unat (mem_word cs :: 'a word) = le_value cs"
    using le_value_less [of cs] assms power_256 [of "LENGTH('a)"]
    by (simp add: mem_word_def unat_of_nat)
  then show ?thesis
    using assms(2) le_bytes_value [of cs] by (simp add: mem_bytes_def)
qed

lemma mem_bytes_byteswap:
  "8 dvd LENGTH('a) \<Longrightarrow> mem_bytes (byteswap w) = rev (mem_bytes (w :: 'a::len word))"
  by (simp add: byteswap_def mem_bytes_word)

lemma byteswap_byteswap:
  "8 dvd LENGTH('a) \<Longrightarrow> byteswap (byteswap w) = (w :: 'a::len word)"
  by (simp add: byteswap_def [of "byteswap w"] mem_bytes_byteswap mem_word_bytes)

section \<open>Fixed-width integers on the wire\<close>

locale net_int =
  fixes width :: nat
    and enc :: "'a \<Rightarrow> char list"
    and dec :: "char list \<Rightarrow> 'a"
  assumes length_enc: "length (enc x) = width"
    and dec_enc: "dec (enc x) = x"
begin

lemma dec_prefix: "dec (take width (enc x @ rest)) = x"
  by (simp add: length_enc dec_enc)

lemma enc_inject: "enc x = enc y \<longleftrightarrow> x = y"
  by (metis dec_enc)

lemma enc_stream_inject: "enc x @ xs = enc y @ ys \<longleftrightarrow> x = y \<and> xs = ys"
  by (metis append_eq_append_conv dec_enc length_enc)

end

definition enc64 :: "64 word \<Rightarrow> char list" where "enc64 x = mem_bytes (hostToNetwork64 x)"
definition enc32 :: "32 word \<Rightarrow> char list" where "enc32 x = mem_bytes (hostToNetwork32 x)"
definition enc16 :: "16 word \<Rightarrow> char list" where "enc16 x = mem_bytes (hostToNetwork16 x)"
definition enc8 :: "8 word \<Rightarrow> char list" where "enc8 x = mem_bytes x"

definition dec64 :: "char list \<Rightarrow> 64 word" where "dec64 cs = networkToHost64 (mem_word cs)"
definition dec32 :: "char list \<Rightarrow> 32 word" where "dec32 cs = networkToHost32 (mem_word cs)"
definition dec16 :: "char list \<Rightarrow> 16 word" where "dec16 cs = networkToHost16 (mem_word cs)"
definition dec8 :: "char list \<Rightarrow> 8 word" where "dec8 cs = mem_word cs"

interpretation be64: net_int 8 enc64 dec64
  by unfold_locales (simp_all add: enc64_def dec64_def endian_defs mem_word_bytes byteswap_byteswap)

interpretation be32: net_int 4 enc32 dec32
  by unfold_locales (simp_all add: enc32_def dec32_def endian_defs mem_word_bytes byteswap_byteswap)

interpretation be16: net_int 2 enc16 dec16
  by unfold_locales (simp_all add: enc16_def dec16_def endian_defs mem_word_bytes byteswap_byteswap)

interpretation be8: net_int 1 enc8 dec8
  by unfold_locales (simp_all add: enc8_def dec8_def mem_word_bytes)

lemmas net_int_lengths [simp] =
  be64.length_enc be32.length_enc be16.length_enc be8.length_enc

text \<open>The first byte on the wire is the most significant one.\<close>

lemma le_bytes_4:
  "le_bytes 4 x = [char_of (x mod 256), char_of (x div 256 mod 256),
     char_of (x div 65536 mod 256), char_of (x div 16777216 mod 256)]"
proof -
  have "le_bytes (Suc (Suc (Suc (Suc 0)))) x = [char_of (x mod 256), char_of (x div 256 mod 256),
     char_of (x div 65536 mod 256), char_of (x div 16777216 mod 256)]"
    unfolding le_bytes.simps by (simp flip: div_mult2_eq)
  moreover have "Suc (Suc (Suc (Suc 0))) = 4" by simp
  ultimately show ?thesis by (simp only:)
qed

lemma enc32_big_endian:
  "enc32 x = [char_of (unat x div 16777216 mod 256), char_of (unat x div 65536 mod 256),
     char_of (unat x div 256 mod 256), char_of (unat x mod 256)]"
proof -
  have "enc32 x = rev (mem_bytes x)"
    by (simp add: enc32_def hostToNetwork32_def mem_bytes_byteswap)
  then show ?thesis
    by (simp add: mem_bytes_def le_bytes_4)
qed

end
