(* ===== verification/Buffer.thy ===== *)
theory Buffer
  imports StringPiece Endian
begin

text \<open>
  The I/O buffer \<^verbatim>\<open>muduo/net/Buffer.h\<close>, \<^verbatim>\<open>Buffer.cc\<close>: a byte vector with a reader and a
  writer index. Pointers into the vector (\<^verbatim>\<open>peek()\<close>, \<^verbatim>\<open>beginWrite()\<close>, the results of the
  searches) are indices, the null pointer is \<^term>\<open>None\<close>. \<^verbatim>\<open>size_t\<close> values are natural
  numbers; every subtraction of the code is guarded by an \<^verbatim>\<open>assert\<close> or by the invariant.

  The abstract value of a buffer is its content, the readable bytes. The locale
  \<open>byte_queue\<close> is what the rest of the program relies on: appending adds at the back,
  retrieving drops from the front, and nothing else changes the content.
\<close>

record buffer =
  buf_vec :: "char list"
  readerIndex :: nat
  writerIndex :: nat

section \<open>Operations\<close>

definition kCheapPrepend :: nat where "kCheapPrepend = 8"
definition kInitialSize :: nat where "kInitialSize = 1024"
definition kCRLF :: "char list" where "kCRLF = [CHR 0x0D, CHR 0x0A]"

definition Buffer_readableBytes :: "buffer \<Rightarrow> nat" where
  "Buffer_readableBytes b = writerIndex b - readerIndex b"

definition Buffer_writableBytes :: "buffer \<Rightarrow> nat" where
  "Buffer_writableBytes b = length (buf_vec b) - writerIndex b"

definition Buffer_prependableBytes :: "buffer \<Rightarrow> nat" where
  "Buffer_prependableBytes b = readerIndex b"

definition Buffer_peek :: "buffer \<Rightarrow> nat" where
  "Buffer_peek b = readerIndex b"

definition Buffer_beginWrite :: "buffer \<Rightarrow> nat" where
  "Buffer_beginWrite b = writerIndex b"

definition Buffer_new :: "nat \<Rightarrow> buffer option" where
  "Buffer_new initialSize =
     (let b = \<lparr>buf_vec = replicate (kCheapPrepend + initialSize) NUL,
               readerIndex = kCheapPrepend, writerIndex = kCheapPrepend\<rparr>
      in do {
        assert_that (Buffer_readableBytes b = 0);
        assert_that (Buffer_writableBytes b = initialSize);
        assert_that (Buffer_prependableBytes b = kCheapPrepend);
        Some b })"

definition Buffer_swap :: "buffer \<Rightarrow> buffer \<Rightarrow> buffer \<times> buffer" where
  "Buffer_swap b rhs =
     (b\<lparr>buf_vec := buf_vec rhs, readerIndex := readerIndex rhs, writerIndex := writerIndex rhs\<rparr>,
      rhs\<lparr>buf_vec := buf_vec b, readerIndex := readerIndex b, writerIndex := writerIndex b\<rparr>)"

definition Buffer_findCRLF :: "buffer \<Rightarrow> nat option" where
  "Buffer_findCRLF b =
     (let crlf = Buffer_peek b
            + std_search kCRLF (segment (Buffer_peek b) (Buffer_beginWrite b) (buf_vec b))
      in if crlf = Buffer_beginWrite b then None else Some crlf)"

definition Buffer_findCRLF_from :: "nat \<Rightarrow> buffer \<Rightarrow> nat option option" where
  "Buffer_findCRLF_from start b =
     do {
       assert_that (Buffer_peek b \<le> start);
       assert_that (start \<le> Buffer_beginWrite b);
       let crlf = start + std_search kCRLF (segment start (Buffer_beginWrite b) (buf_vec b));
       Some (if crlf = Buffer_beginWrite b then None else Some crlf) }"

definition Buffer_findEOL :: "buffer \<Rightarrow> nat option" where
  "Buffer_findEOL b =
     map_option (\<lambda>i. Buffer_peek b + i)
       (memchr (CHR 0x0A) (segment (Buffer_peek b) (Buffer_peek b + Buffer_readableBytes b) (buf_vec b)))"

definition Buffer_findEOL_from :: "nat \<Rightarrow> buffer \<Rightarrow> nat option option" where
  "Buffer_findEOL_from start b =
     do {
       assert_that (Buffer_peek b \<le> start);
       assert_that (start \<le> Buffer_beginWrite b);
       Some (map_option (\<lambda>i. start + i)
         (memchr (CHR 0x0A) (segment start (Buffer_beginWrite b) (buf_vec b)))) }"

definition Buffer_retrieveAll :: "buffer \<Rightarrow> buffer" where
  "Buffer_retrieveAll b = b\<lparr>readerIndex := kCheapPrepend, writerIndex := kCheapPrepend\<rparr>"

definition Buffer_retrieve :: "nat \<Rightarrow> buffer \<Rightarrow> buffer option" where
  "Buffer_retrieve len b =
     do {
       assert_that (len \<le> Buffer_readableBytes b);
       Some (if len < Buffer_readableBytes b then b\<lparr>readerIndex := readerIndex b + len\<rparr>
             else Buffer_retrieveAll b) }"

definition Buffer_retrieveUntil :: "nat \<Rightarrow> buffer \<Rightarrow> buffer option" where
  "Buffer_retrieveUntil endp b =
     do {
       assert_that (Buffer_peek b \<le> endp);
       assert_that (endp \<le> Buffer_beginWrite b);
       Buffer_retrieve (endp - Buffer_peek b) b }"

definition Buffer_retrieveInt64 :: "buffer \<Rightarrow> buffer option" where
  "Buffer_retrieveInt64 b = Buffer_retrieve 8 b"

definition Buffer_retrieveInt32 :: "buffer \<Rightarrow> buffer option" where
  "Buffer_retrieveInt32 b = Buffer_retrieve 4 b"

definition Buffer_retrieveInt16 :: "buffer \<Rightarrow> buffer option" where
  "Buffer_retrieveInt16 b = Buffer_retrieve 2 b"

definition Buffer_retrieveInt8 :: "buffer \<Rightarrow> buffer option" where
  "Buffer_retrieveInt8 b = Buffer_retrieve 1 b"

definition Buffer_retrieveAsString :: "nat \<Rightarrow> buffer \<Rightarrow> (char list \<times> buffer) option" where
  "Buffer_retrieveAsString len b =
     do {
       assert_that (len \<le> Buffer_readableBytes b);
       let result = segment (Buffer_peek b) (Buffer_peek b + len) (buf_vec b);
       b' \<leftarrow> Buffer_retrieve len b;
       Some (result, b') }"

definition Buffer_retrieveAllAsString :: "buffer \<Rightarrow> (char list \<times> buffer) option" where
  "Buffer_retrieveAllAsString b = Buffer_retrieveAsString (Buffer_readableBytes b) b"

definition Buffer_toStringPiece :: "buffer \<Rightarrow> stringpiece" where
  "Buffer_toStringPiece b =
     StringPiece_range (drop (Buffer_peek b) (buf_vec b)) (to_int32 (Buffer_readableBytes b))"

definition Buffer_makeSpace :: "nat \<Rightarrow> buffer \<Rightarrow> buffer option" where
  "Buffer_makeSpace len b =
     (if Buffer_writableBytes b + Buffer_prependableBytes b < len + kCheapPrepend
      then Some (b\<lparr>buf_vec := vec_resize (writerIndex b + len) NUL (buf_vec b)\<rparr>)
      else do {
        assert_that (kCheapPrepend < readerIndex b);
        let readable = Buffer_readableBytes b;
        let b' = b\<lparr>buf_vec := overwrite kCheapPrepend
                     (segment (readerIndex b) (writerIndex b) (buf_vec b)) (buf_vec b),
                   readerIndex := kCheapPrepend,
                   writerIndex := kCheapPrepend + readable\<rparr>;
        assert_that (readable = Buffer_readableBytes b');
        Some b' })"

definition Buffer_ensureWritableBytes :: "nat \<Rightarrow> buffer \<Rightarrow> buffer option" where
  "Buffer_ensureWritableBytes len b =
     do {
       b' \<leftarrow> (if Buffer_writableBytes b < len then Buffer_makeSpace len b else Some b);
       assert_that (Buffer_writableBytes b' \<ge> len);
       Some b' }"

definition Buffer_hasWritten :: "nat \<Rightarrow> buffer \<Rightarrow> buffer option" where
  "Buffer_hasWritten len b =
     do {
       assert_that (len \<le> Buffer_writableBytes b);
       Some (b\<lparr>writerIndex := writerIndex b + len\<rparr>) }"

definition Buffer_unwrite :: "nat \<Rightarrow> buffer \<Rightarrow> buffer option" where
  "Buffer_unwrite len b =
     do {
       assert_that (len \<le> Buffer_readableBytes b);
       Some (b\<lparr>writerIndex := writerIndex b - len\<rparr>) }"

text \<open>\<^verbatim>\<open>append(const char*, size_t)\<close>: the argument is the \<^verbatim>\<open>len\<close> bytes read from the pointer.\<close>

definition Buffer_append :: "char list \<Rightarrow> buffer \<Rightarrow> buffer option" where
  "Buffer_append data b =
     do {
       b1 \<leftarrow> Buffer_ensureWritableBytes (length data) b;
       let b2 = b1\<lparr>buf_vec := overwrite (Buffer_beginWrite b1) data (buf_vec b1)\<rparr>;
       Buffer_hasWritten (length data) b2 }"

definition Buffer_append_piece :: "stringpiece \<Rightarrow> buffer \<Rightarrow> buffer option" where
  "Buffer_append_piece str b =
     do {
       assert_that (StringPiece_wf str);
       Buffer_append (take (nat (sp_length str)) (sp_ptr str)) b }"

definition Buffer_appendInt64 :: "64 word \<Rightarrow> buffer \<Rightarrow> buffer option" where
  "Buffer_appendInt64 x b = (let be64 = hostToNetwork64 x in Buffer_append (mem_bytes be64) b)"

definition Buffer_appendInt32 :: "32 word \<Rightarrow> buffer \<Rightarrow> buffer option" where
  "Buffer_appendInt32 x b = (let be32 = hostToNetwork32 x in Buffer_append (mem_bytes be32) b)"

definition Buffer_appendInt16 :: "16 word \<Rightarrow> buffer \<Rightarrow> buffer option" where
  "Buffer_appendInt16 x b = (let be16 = hostToNetwork16 x in Buffer_append (mem_bytes be16) b)"

definition Buffer_appendInt8 :: "8 word \<Rightarrow> buffer \<Rightarrow> buffer option" where
  "Buffer_appendInt8 x b = Buffer_append (mem_bytes x) b"

definition Buffer_peekInt64 :: "buffer \<Rightarrow> 64 word option" where
  "Buffer_peekInt64 b =
     do {
       assert_that (Buffer_readableBytes b \<ge> 8);
       let be64 = mem_word (segment (Buffer_peek b) (Buffer_peek b + 8) (buf_vec b));
       Some (networkToHost64 be64) }"

definition Buffer_peekInt32 :: "buffer \<Rightarrow> 32 word option" where
  "Buffer_peekInt32 b =
     do {
       assert_that (Buffer_readableBytes b \<ge> 4);
       let be32 = mem_word (segment (Buffer_peek b) (Buffer_peek b + 4) (buf_vec b));
       Some (networkToHost32 be32) }"

definition Buffer_peekInt16 :: "buffer \<Rightarrow> 16 word option" where
  "Buffer_peekInt16 b =
     do {
       assert_that (Buffer_readableBytes b \<ge> 2);
       let be16 = mem_word (segment (Buffer_peek b) (Buffer_peek b + 2) (buf_vec b));
       Some (networkToHost16 be16) }"

definition Buffer_peekInt8 :: "buffer \<Rightarrow> 8 word option" where
  "Buffer_peekInt8 b =
     do {
       assert_that (Buffer_readableBytes b \<ge> 1);
       Some (mem_word (segment (Buffer_peek b) (Buffer_peek b + 1) (buf_vec b))) }"

definition Buffer_readInt64 :: "buffer \<Rightarrow> (64 word \<times> buffer) option" where
  "Buffer_readInt64 b =
     do { result \<leftarrow> Buffer_peekInt64 b; b' \<leftarrow> Buffer_retrieveInt64 b; Some (result, b') }"

definition Buffer_readInt32 :: "buffer \<Rightarrow> (32 word \<times> buffer) option" where
  "Buffer_readInt32 b =
     do { result \<leftarrow> Buffer_peekInt32 b; b' \<leftarrow> Buffer_retrieveInt32 b; Some (result, b') }"

definition Buffer_readInt16 :: "buffer \<Rightarrow> (16 word \<times> buffer) option" where
  "Buffer_readInt16 b =
     do { result \<leftarrow> Buffer_peekInt16 b; b' \<leftarrow> Buffer_retrieveInt16 b; Some (result, b') }"

definition Buffer_readInt8 :: "buffer \<Rightarrow> (8 word \<times> buffer) option" where
  "Buffer_readInt8 b =
     do { result \<leftarrow> Buffer_peekInt8 b; b' \<leftarrow> Buffer_retrieveInt8 b; Some (result, b') }"

definition Buffer_prepend :: "char list \<Rightarrow> buffer \<Rightarrow> buffer option" where
  "Buffer_prepend data b =
     do {
       assert_that (length data \<le> Buffer_prependableBytes b);
       let r = readerIndex b - length data;
       Some (b\<lparr>readerIndex := r, buf_vec := overwrite r data (buf_vec b)\<rparr>) }"

definition Buffer_prependInt64 :: "64 word \<Rightarrow> buffer \<Rightarrow> buffer option" where
  "Buffer_prependInt64 x b = (let be64 = hostToNetwork64 x in Buffer_prepend (mem_bytes be64) b)"

definition Buffer_prependInt32 :: "32 word \<Rightarrow> buffer \<Rightarrow> buffer option" where
  "Buffer_prependInt32 x b = (let be32 = hostToNetwork32 x in Buffer_prepend (mem_bytes be32) b)"

definition Buffer_prependInt16 :: "16 word \<Rightarrow> buffer \<Rightarrow> buffer option" where
  "Buffer_prependInt16 x b = (let be16 = hostToNetwork16 x in Buffer_prepend (mem_bytes be16) b)"

definition Buffer_prependInt8 :: "8 word \<Rightarrow> buffer \<Rightarrow> buffer option" where
  "Buffer_prependInt8 x b = Buffer_prepend (mem_bytes x) b"

definition Buffer_shrink :: "nat \<Rightarrow> buffer \<Rightarrow> buffer option" where
  "Buffer_shrink reserve b =
     do {
       other \<leftarrow> Buffer_new kInitialSize;
       other \<leftarrow> Buffer_ensureWritableBytes (Buffer_readableBytes b + reserve) other;
       other \<leftarrow> Buffer_append_piece (Buffer_toStringPiece b) other;
       Some (fst (Buffer_swap b other)) }"

text \<open>
  \<^verbatim>\<open>readFd\<close>: the outcome of \<^verbatim>\<open>readv(2)\<close> is an argument, either an errno or the bytes the
  kernel scattered over the two vectors, first the writable area, then \<^verbatim>\<open>extrabuf\<close> (which is
  only offered when the writable area is smaller than it). The result is the return value,
  the saved errno if it was stored, and the buffer.
\<close>

definition extrabuf_size :: nat where "extrabuf_size = 65536"

definition Buffer_readFd_capacity :: "buffer \<Rightarrow> nat" where
  "Buffer_readFd_capacity b =
     (let writable = Buffer_writableBytes b
      in if writable < extrabuf_size then writable + extrabuf_size else writable)"

definition Buffer_readFd :: "int + char list \<Rightarrow> buffer \<Rightarrow> (int \<times> int option \<times> buffer) option" where
  "Buffer_readFd readv b =
     (case readv of
        Inl errno \<Rightarrow> Some (-1, Some errno, b)
      | Inr data \<Rightarrow>
          (let n = length data;
               writable = Buffer_writableBytes b;
               b1 = b\<lparr>buf_vec := overwrite (writerIndex b) (take writable data) (buf_vec b)\<rparr>;
               extrabuf = drop writable data
           in if n \<le> writable
              then Some (int n, None, b1\<lparr>writerIndex := writerIndex b1 + n\<rparr>)
              else do {
                b2 \<leftarrow> Buffer_append extrabuf (b1\<lparr>writerIndex := length (buf_vec b1)\<rparr>);
                Some (int n, None, b2) }))"

lemmas Buffer_defs =
  Buffer_readableBytes_def Buffer_writableBytes_def Buffer_prependableBytes_def
  Buffer_peek_def Buffer_beginWrite_def kCheapPrepend_def Let_def

section \<open>Content and invariant\<close>

definition Buffer_inv :: "buffer \<Rightarrow> bool" where
  "Buffer_inv b \<longleftrightarrow>
     readerIndex b \<le> writerIndex b \<and> writerIndex b \<le> length (buf_vec b) \<and>
     kCheapPrepend \<le> length (buf_vec b)"

definition Buffer_content :: "buffer \<Rightarrow> char list" where
  "Buffer_content b = segment (readerIndex b) (writerIndex b) (buf_vec b)"

lemma length_Buffer_content [simp]:
  "Buffer_inv b \<Longrightarrow> length (Buffer_content b) = Buffer_readableBytes b"
  by (simp add: Buffer_content_def Buffer_inv_def Buffer_readableBytes_def)

lemma Buffer_segment_content:
  "Buffer_inv b \<Longrightarrow> n \<le> Buffer_readableBytes b \<Longrightarrow>
   segment (Buffer_peek b) (Buffer_peek b + n) (buf_vec b) = take n (Buffer_content b)"
  unfolding Buffer_content_def Buffer_defs Buffer_inv_def by (subst take_segment) auto

lemma Buffer_new_spec [content_simps]:
  "\<exists>b. Buffer_new n = Some b \<and> Buffer_inv b \<and> Buffer_content b = [] \<and> Buffer_writableBytes b = n \<and>
       Buffer_prependableBytes b = kCheapPrepend"
  by (simp add: Buffer_new_def Buffer_inv_def Buffer_content_def Buffer_defs)

lemma Buffer_retrieveAll_spec [content_simps, inv_intros]:
  "Buffer_content (Buffer_retrieveAll b) = []"
  "Buffer_inv b \<Longrightarrow> Buffer_inv (Buffer_retrieveAll b)"
  by (simp_all add: Buffer_retrieveAll_def Buffer_inv_def Buffer_content_def)

lemma Buffer_retrieve_cases:
  assumes "Buffer_inv b"
  shows "Buffer_retrieve n b =
    (if n \<le> length (Buffer_content b)
     then Some (if n < length (Buffer_content b) then b\<lparr>readerIndex := readerIndex b + n\<rparr>
                else Buffer_retrieveAll b)
     else None)"
  using assms by (simp add: Buffer_retrieve_def)

lemma Buffer_retrieve_content:
  "Buffer_inv b \<Longrightarrow> Buffer_retrieve n b = Some b' \<Longrightarrow> Buffer_content b' = drop n (Buffer_content b)"
  by (auto simp: Buffer_retrieve_cases content_simps split: if_splits)
    (simp add: Buffer_content_def drop_segment)

lemma Buffer_retrieve_inv:
  "Buffer_inv b \<Longrightarrow> Buffer_retrieve n b = Some b' \<Longrightarrow> Buffer_inv b'"
  by (auto simp: Buffer_retrieve_cases inv_intros split: if_splits)
    (simp add: Buffer_inv_def Buffer_readableBytes_def)

text \<open>Making room: no assertion fails, the content stays, and there is room afterwards.\<close>

lemma Buffer_makeSpace_spec:
  assumes "Buffer_inv b" "Buffer_writableBytes b < len"
  shows "\<exists>b'. Buffer_makeSpace len b = Some b' \<and> Buffer_inv b' \<and>
    Buffer_content b' = Buffer_content b \<and> len \<le> Buffer_writableBytes b'"
proof (cases "Buffer_writableBytes b + Buffer_prependableBytes b < len + kCheapPrepend")
  case True
  with assms show ?thesis
    by (auto simp: Buffer_makeSpace_def Buffer_inv_def Buffer_content_def Buffer_defs segment_resize)
next
  case False
  then have room: "kCheapPrepend < readerIndex b"
    using assms(2) by (simp add: Buffer_defs)
  let ?c = "Buffer_content b"
  let ?b = "b\<lparr>buf_vec := overwrite kCheapPrepend ?c (buf_vec b), readerIndex := kCheapPrepend,
               writerIndex := kCheapPrepend + Buffer_readableBytes b\<rparr>"
  have fits: "kCheapPrepend + length ?c \<le> length (buf_vec b)"
    using assms room by (auto simp: Buffer_inv_def Buffer_content_def)
  have "Buffer_makeSpace len b = Some ?b"
    using False room by (simp add: Buffer_makeSpace_def Buffer_content_def [symmetric] Let_def)
      (simp add: Buffer_readableBytes_def)
  moreover have "Buffer_inv ?b"
    using assms(1) fits by (simp add: Buffer_inv_def [of ?b])
  moreover have "Buffer_content ?b = ?c"
    using assms(1) fits by (simp add: Buffer_content_def [of ?b])
  moreover have "len \<le> Buffer_writableBytes ?b"
    using False assms fits room by (simp add: Buffer_defs Buffer_inv_def Buffer_content_def)
  ultimately show ?thesis by blast
qed

lemma Buffer_ensureWritableBytes_spec:
  assumes "Buffer_inv b"
  shows "\<exists>b'. Buffer_ensureWritableBytes len b = Some b' \<and> Buffer_inv b' \<and>
    Buffer_content b' = Buffer_content b \<and> len \<le> Buffer_writableBytes b'"
proof (cases "Buffer_writableBytes b < len")
  case True
  from Buffer_makeSpace_spec [OF assms True] obtain b' where
    "Buffer_makeSpace len b = Some b'" "Buffer_inv b'" "Buffer_content b' = Buffer_content b"
    "len \<le> Buffer_writableBytes b'" by blast
  with True show ?thesis by (simp add: Buffer_ensureWritableBytes_def)
next
  case False
  with assms show ?thesis by (simp add: Buffer_ensureWritableBytes_def)
qed

lemma Buffer_write_spec:
  assumes "Buffer_inv b" "length data \<le> Buffer_writableBytes b"
  defines "b' \<equiv> b\<lparr>buf_vec := overwrite (writerIndex b) data (buf_vec b),
                  writerIndex := writerIndex b + length data\<rparr>"
  shows "Buffer_inv b' \<and> Buffer_content b' = Buffer_content b @ data"
proof -
  have fits: "writerIndex b + length data \<le> length (buf_vec b)"
    using assms(1,2) by (auto simp: Buffer_inv_def Buffer_writableBytes_def)
  then have "Buffer_inv b'"
    using assms(1) by (simp add: Buffer_inv_def b'_def)
  moreover have "Buffer_content b' = segment (readerIndex b) (writerIndex b) (buf_vec b')
      @ segment (writerIndex b) (writerIndex b + length data) (buf_vec b')"
    using assms(1) segment_append [of "readerIndex b" "writerIndex b" "writerIndex b + length data" "buf_vec b'"]
    by (simp add: Buffer_content_def b'_def Buffer_inv_def)
  ultimately show ?thesis
    using assms(1) fits by (simp add: b'_def segment_overwrite_before Buffer_content_def Buffer_inv_def)
qed

lemma Buffer_append_spec:
  assumes "Buffer_inv b"
  shows "\<exists>b'. Buffer_append data b = Some b' \<and> Buffer_inv b' \<and>
    Buffer_content b' = Buffer_content b @ data"
proof -
  obtain b1 where b1: "Buffer_ensureWritableBytes (length data) b = Some b1" "Buffer_inv b1"
    "Buffer_content b1 = Buffer_content b" "length data \<le> Buffer_writableBytes b1"
    using Buffer_ensureWritableBytes_spec [OF assms] by blast
  let ?b2 = "b1\<lparr>buf_vec := overwrite (writerIndex b1) data (buf_vec b1)\<rparr>"
  have "writerIndex b1 + length data \<le> length (buf_vec b1)"
    using b1(2,4) by (auto simp: Buffer_inv_def Buffer_writableBytes_def)
  then have "length (buf_vec ?b2) = length (buf_vec b1)"
    by simp
  then have "Buffer_append data b = Some (?b2\<lparr>writerIndex := writerIndex b1 + length data\<rparr>)"
    using b1(1,4)
    by (simp add: Buffer_append_def Buffer_hasWritten_def Buffer_beginWrite_def Buffer_writableBytes_def)
  then show ?thesis
    using Buffer_write_spec [OF b1(2,4)] b1(3) by simp
qed

section \<open>The byte-queue contract\<close>

text \<open>
  What the clients of a buffer (\<^verbatim>\<open>TcpConnection\<close>, the HTTP parser, the codecs) rely on.
\<close>

locale byte_queue =
  fixes inv :: "'b \<Rightarrow> bool"
    and content :: "'b \<Rightarrow> char list"
    and enqueue :: "char list \<Rightarrow> 'b \<Rightarrow> 'b option"
    and discard :: "nat \<Rightarrow> 'b \<Rightarrow> 'b option"
  assumes enqueue_spec:
      "inv b \<Longrightarrow> \<exists>b'. enqueue data b = Some b' \<and> inv b' \<and> content b' = content b @ data"
    and discard_spec:
      "inv b \<Longrightarrow> n \<le> length (content b) \<Longrightarrow>
         \<exists>b'. discard n b = Some b' \<and> inv b' \<and> content b' = drop n (content b)"
    and discard_underflow: "inv b \<Longrightarrow> length (content b) < n \<Longrightarrow> discard n b = None"
begin

lemma enqueue_total: "inv b \<Longrightarrow> enqueue data b \<noteq> None"
  using enqueue_spec [of b data] by auto

lemma enqueue_content: "inv b \<Longrightarrow> enqueue data b = Some b' \<Longrightarrow> content b' = content b @ data"
  using enqueue_spec [of b data] by auto

lemma enqueue_inv: "inv b \<Longrightarrow> enqueue data b = Some b' \<Longrightarrow> inv b'"
  using enqueue_spec [of b data] by auto

lemma discard_total: "inv b \<Longrightarrow> discard n b \<noteq> None \<longleftrightarrow> n \<le> length (content b)"
  using discard_spec [of b n] discard_underflow [of b n] by (metis linorder_not_le option.distinct(1))

lemma discard_content: "inv b \<Longrightarrow> discard n b = Some b' \<Longrightarrow> content b' = drop n (content b)"
  by (metis discard_spec discard_total option.distinct(1) option.inject)

lemma discard_inv: "inv b \<Longrightarrow> discard n b = Some b' \<Longrightarrow> inv b'"
  by (metis discard_spec discard_total option.distinct(1) option.inject)

text \<open>Sending part of the content and discarding it moves bytes, in order.\<close>

lemma discard_partition:
  "inv b \<Longrightarrow> discard n b = Some b' \<Longrightarrow> take n (content b) @ content b' = content b"
  by (simp add: discard_content)

text \<open>First in, first out: what was enqueued last is left when the older bytes are gone.\<close>

lemma fifo:
  assumes "inv b" "enqueue data b = Some b1" "discard (length (content b)) b1 = Some b2"
  shows "content b2 = data"
  using discard_content [OF enqueue_inv [OF assms(1,2)] assms(3)] enqueue_content [OF assms(1,2)]
  by simp

end

interpretation buf: byte_queue Buffer_inv Buffer_content Buffer_append Buffer_retrieve
proof unfold_locales
  fix b data
  assume "Buffer_inv b"
  then show "\<exists>b'. Buffer_append data b = Some b' \<and> Buffer_inv b' \<and>
      Buffer_content b' = Buffer_content b @ data"
    by (rule Buffer_append_spec)
next
  fix b n
  assume b: "Buffer_inv b" and "n \<le> length (Buffer_content b)"
  then obtain b' where "Buffer_retrieve n b = Some b'"
    by (auto simp: Buffer_retrieve_cases)
  with b show "\<exists>b'. Buffer_retrieve n b = Some b' \<and> Buffer_inv b' \<and>
      Buffer_content b' = drop n (Buffer_content b)"
    by (auto intro: Buffer_retrieve_inv Buffer_retrieve_content)
next
  fix b n
  assume "Buffer_inv b" and "length (Buffer_content b) < n"
  then show "Buffer_retrieve n b = None"
    by (simp add: Buffer_retrieve_cases)
qed

section \<open>The other operations on the content\<close>

lemma Buffer_retrieveUntil_spec:
  "Buffer_inv b \<Longrightarrow>
   Buffer_retrieveUntil (Buffer_peek b + n) b =
     (if n \<le> length (Buffer_content b) then Buffer_retrieve n b else None)"
  by (auto simp: Buffer_retrieveUntil_def Buffer_inv_def Buffer_defs assert_that_def Buffer_content_def)

lemma Buffer_retrieveAsString_spec:
  assumes "Buffer_inv b"
  shows "Buffer_retrieveAsString n b =
    (if n \<le> length (Buffer_content b)
     then map_option (\<lambda>b'. (take n (Buffer_content b), b')) (Buffer_retrieve n b) else None)"
  using assms
  by (auto simp: Buffer_retrieveAsString_def Buffer_segment_content Buffer_retrieve_cases)

lemma Buffer_unwrite_spec:
  assumes "Buffer_inv b"
  shows "case Buffer_unwrite n b of
      None \<Rightarrow> length (Buffer_content b) < n
    | Some b' \<Rightarrow> n \<le> length (Buffer_content b) \<and> Buffer_inv b' \<and>
        Buffer_content b' = take (length (Buffer_content b) - n) (Buffer_content b)"
proof (cases "n \<le> Buffer_readableBytes b")
  case True
  let ?b = "b\<lparr>writerIndex := writerIndex b - n\<rparr>"
  have "Buffer_inv ?b"
    using True assms by (auto simp: Buffer_inv_def Buffer_readableBytes_def)
  moreover have "Buffer_content ?b = take (Buffer_readableBytes b - n) (Buffer_content b)"
    using True assms by (auto simp: Buffer_content_def Buffer_inv_def Buffer_readableBytes_def segment_def min_def
      add.commute)
  ultimately show ?thesis using True assms by (simp add: Buffer_unwrite_def)
next
  case False
  with assms show ?thesis by (simp add: Buffer_unwrite_def assert_that_def)
qed

lemma Buffer_prepend_spec:
  assumes "Buffer_inv b" "length data \<le> Buffer_prependableBytes b"
  shows "\<exists>b'. Buffer_prepend data b = Some b' \<and> Buffer_inv b' \<and>
    Buffer_content b' = data @ Buffer_content b \<and>
    Buffer_prependableBytes b' = Buffer_prependableBytes b - length data"
proof -
  let ?r = "readerIndex b - length data"
  let ?b = "b\<lparr>readerIndex := ?r, buf_vec := overwrite ?r data (buf_vec b)\<rparr>"
  have r: "?r + length data = readerIndex b" "readerIndex b \<le> length (buf_vec b)"
    using assms by (auto simp: Buffer_prependableBytes_def Buffer_inv_def)
  have "Buffer_inv ?b"
    using assms(1) r by (auto simp: Buffer_inv_def)
  moreover have "Buffer_content ?b = data @ Buffer_content b"
  proof -
    have "Buffer_content ?b = segment ?r (readerIndex b) (buf_vec ?b)
        @ segment (readerIndex b) (writerIndex b) (buf_vec ?b)"
      using assms(1) segment_append [of ?r "readerIndex b" "writerIndex b" "buf_vec ?b"]
      by (simp add: Buffer_content_def Buffer_inv_def)
    moreover have "segment ?r (readerIndex b) (buf_vec ?b) = data"
      using r by simp
    moreover have "segment (readerIndex b) (writerIndex b) (buf_vec ?b) = Buffer_content b"
      using r by (simp add: segment_overwrite_after Buffer_content_def)
    ultimately show ?thesis by simp
  qed
  moreover have "Buffer_prepend data b = Some ?b"
    using assms(2) by (simp add: Buffer_prepend_def Let_def)
  ultimately show ?thesis
    using r by (auto simp: Buffer_prependableBytes_def)
qed

lemma Buffer_readFd_spec:
  assumes "Buffer_inv b"
  shows "\<exists>b'. Buffer_readFd (Inr data) b = Some (int (length data), None, b') \<and> Buffer_inv b' \<and>
    Buffer_content b' = Buffer_content b @ data"
proof (cases "length data \<le> Buffer_writableBytes b")
  case True
  then show ?thesis
    using Buffer_write_spec [OF assms True] by (auto simp: Buffer_readFd_def Let_def)
next
  case False
  let ?w = "Buffer_writableBytes b"
  let ?b1 = "b\<lparr>buf_vec := overwrite (writerIndex b) (take ?w data) (buf_vec b),
               writerIndex := writerIndex b + length (take ?w data)\<rparr>"
  have b1: "Buffer_inv ?b1" "Buffer_content ?b1 = Buffer_content b @ take ?w data"
    using Buffer_write_spec [of b "take ?w data"] assms by simp_all
  have full: "writerIndex b + length (take ?w data) = length (buf_vec b)"
    using False assms by (auto simp: Buffer_inv_def Buffer_writableBytes_def)
  obtain b2 where b2: "Buffer_append (drop ?w data) ?b1 = Some b2" "Buffer_inv b2"
      "Buffer_content b2 = Buffer_content ?b1 @ drop ?w data"
    using Buffer_append_spec [OF b1(1)] by blast
  have "Buffer_readFd (Inr data) b = Some (int (length data), None, b2)"
    using False b2(1) full by (simp add: Buffer_readFd_def Let_def)
  with b1 b2 show ?thesis by auto
qed

section \<open>Searching the content\<close>

lemma Buffer_findCRLF_spec:
  assumes "Buffer_inv b"
  shows "Buffer_findCRLF b =
    (let i = std_search kCRLF (Buffer_content b)
     in if i < length (Buffer_content b) then Some (Buffer_peek b + i) else None)"
proof -
  have "std_search kCRLF (Buffer_content b) \<le> length (Buffer_content b)"
    by (rule std_search_le)
  moreover have "Buffer_peek b + length (Buffer_content b) = Buffer_beginWrite b"
    using assms by (simp add: Buffer_defs Buffer_inv_def)
  ultimately show ?thesis
    by (auto simp: Buffer_findCRLF_def Buffer_content_def Buffer_peek_def Buffer_beginWrite_def Let_def)
qed

lemma Buffer_findEOL_spec:
  assumes "Buffer_inv b"
  shows "Buffer_findEOL b = map_option (\<lambda>i. Buffer_peek b + i) (memchr (CHR 0x0A) (Buffer_content b))"
  using assms by (simp add: Buffer_findEOL_def Buffer_segment_content)

section \<open>Integers in network byte order\<close>

text \<open>
  The four widths share one contract: the integer operations of the buffer are the byte
  operations on the encoded value.
\<close>

locale int_io = net_int width enc dec
  for width :: nat and enc :: "'a \<Rightarrow> char list" and dec :: "char list \<Rightarrow> 'a" +
  fixes appendI :: "'a \<Rightarrow> buffer \<Rightarrow> buffer option"
    and prependI :: "'a \<Rightarrow> buffer \<Rightarrow> buffer option"
    and peekI :: "buffer \<Rightarrow> 'a option"
    and readI :: "buffer \<Rightarrow> ('a \<times> buffer) option"
  assumes appendI: "appendI x b = Buffer_append (enc x) b"
    and prependI: "prependI x b = Buffer_prepend (enc x) b"
    and peekI: "Buffer_inv b \<Longrightarrow> peekI b =
      (if width \<le> length (Buffer_content b) then Some (dec (take width (Buffer_content b))) else None)"
    and readI: "readI b = do { x \<leftarrow> peekI b; b' \<leftarrow> Buffer_retrieve width b; Some (x, b') }"
begin

lemma read_front:
  assumes "Buffer_inv b" "Buffer_content b = enc x @ rest"
  shows "\<exists>b'. readI b = Some (x, b') \<and> Buffer_inv b' \<and> Buffer_content b' = rest"
proof -
  obtain b' where "Buffer_retrieve width b = Some b'" "Buffer_inv b'" "Buffer_content b' = rest"
    using buf.discard_spec [OF assms(1), of width] assms(2) by (auto simp: length_enc)
  moreover have "peekI b = Some x"
    by (simp only: peekI [OF assms(1)] assms(2)) (simp add: length_enc dec_enc)
  ultimately show ?thesis by (simp add: readI)
qed

text \<open>An integer appended after other bytes is read back once those are retrieved.\<close>

lemma append_read:
  assumes "Buffer_inv b"
  shows "\<exists>b1 b2 b3. appendI x b = Some b1 \<and> Buffer_retrieve (length (Buffer_content b)) b1 = Some b2 \<and>
    readI b2 = Some (x, b3) \<and> Buffer_inv b3 \<and> Buffer_content b3 = []"
proof -
  obtain b1 where b1: "appendI x b = Some b1" "Buffer_inv b1" "Buffer_content b1 = Buffer_content b @ enc x"
    using buf.enqueue_spec [OF assms] appendI by metis
  obtain b2 where b2: "Buffer_retrieve (length (Buffer_content b)) b1 = Some b2" "Buffer_inv b2"
      "Buffer_content b2 = enc x @ []"
    using buf.discard_spec [OF b1(2), of "length (Buffer_content b)"] b1(3) by auto
  show ?thesis using read_front [OF b2(2,3)] b1(1) b2(1) by blast
qed

lemma prepend_read:
  assumes "Buffer_inv b" "width \<le> Buffer_prependableBytes b"
  shows "\<exists>b1 b2. prependI x b = Some b1 \<and> readI b1 = Some (x, b2) \<and> Buffer_inv b2 \<and>
    Buffer_content b2 = Buffer_content b"
proof -
  obtain b1 where b1: "prependI x b = Some b1" "Buffer_inv b1" "Buffer_content b1 = enc x @ Buffer_content b"
    using Buffer_prepend_spec [OF assms(1), of "enc x"] assms(2) prependI length_enc by metis
  show ?thesis using read_front [OF b1(2,3)] b1(1) by blast
qed

lemma read_underflow: "Buffer_inv b \<Longrightarrow> length (Buffer_content b) < width \<Longrightarrow> readI b = None"
  by (simp add: readI peekI)

end

interpretation i64: int_io 8 enc64 dec64 Buffer_appendInt64 Buffer_prependInt64 Buffer_peekInt64 Buffer_readInt64
  by unfold_locales
    (simp_all add: Buffer_appendInt64_def Buffer_prependInt64_def Buffer_peekInt64_def Buffer_readInt64_def
      Buffer_retrieveInt64_def enc64_def dec64_def assert_that_def Let_def Buffer_segment_content)

interpretation i32: int_io 4 enc32 dec32 Buffer_appendInt32 Buffer_prependInt32 Buffer_peekInt32 Buffer_readInt32
  by unfold_locales
    (simp_all add: Buffer_appendInt32_def Buffer_prependInt32_def Buffer_peekInt32_def Buffer_readInt32_def
      Buffer_retrieveInt32_def enc32_def dec32_def assert_that_def Let_def Buffer_segment_content)

interpretation i16: int_io 2 enc16 dec16 Buffer_appendInt16 Buffer_prependInt16 Buffer_peekInt16 Buffer_readInt16
proof unfold_locales
  fix b
  assume "Buffer_inv b"
  then show "Buffer_peekInt16 b =
    (if 2 \<le> length (Buffer_content b) then Some (dec16 (take 2 (Buffer_content b))) else None)"
    using Buffer_segment_content [of b 2] by (simp add: Buffer_peekInt16_def dec16_def assert_that_def)
qed (simp_all add: Buffer_appendInt16_def Buffer_prependInt16_def Buffer_readInt16_def
      Buffer_retrieveInt16_def enc16_def Let_def)

interpretation i8: int_io 1 enc8 dec8 Buffer_appendInt8 Buffer_prependInt8 Buffer_peekInt8 Buffer_readInt8
proof unfold_locales
  fix b
  assume "Buffer_inv b"
  then show "Buffer_peekInt8 b =
    (if 1 \<le> length (Buffer_content b) then Some (dec8 (take 1 (Buffer_content b))) else None)"
    using Buffer_segment_content [of b 1] by (simp add: Buffer_peekInt8_def dec8_def assert_that_def)
qed (simp_all add: Buffer_appendInt8_def Buffer_prependInt8_def Buffer_readInt8_def
      Buffer_retrieveInt8_def enc8_def)

section \<open>Runs of operations\<close>

text \<open>
  The abstract specification: a buffer is a list of bytes, and an operation whose assertion
  fails has no result.
\<close>

datatype buf_op =
    Append "char list"
  | Retrieve nat
  | RetrieveAll
  | Unwrite nat
  | EnsureWritable nat
  | ReadFd "char list"

fun Buffer_exec :: "buf_op \<Rightarrow> buffer \<Rightarrow> buffer option" where
  "Buffer_exec (Append d) b = Buffer_append d b"
| "Buffer_exec (Retrieve n) b = Buffer_retrieve n b"
| "Buffer_exec RetrieveAll b = Some (Buffer_retrieveAll b)"
| "Buffer_exec (Unwrite n) b = Buffer_unwrite n b"
| "Buffer_exec (EnsureWritable n) b = Buffer_ensureWritableBytes n b"
| "Buffer_exec (ReadFd d) b = map_option (\<lambda>(_, _, b'). b') (Buffer_readFd (Inr d) b)"

fun queue_exec :: "buf_op \<Rightarrow> char list \<Rightarrow> char list option" where
  "queue_exec (Append d) q = Some (q @ d)"
| "queue_exec (Retrieve n) q = (if n \<le> length q then Some (drop n q) else None)"
| "queue_exec RetrieveAll q = Some []"
| "queue_exec (Unwrite n) q = (if n \<le> length q then Some (take (length q - n) q) else None)"
| "queue_exec (EnsureWritable n) q = Some q"
| "queue_exec (ReadFd d) q = Some (q @ d)"

fun Buffer_run :: "buf_op list \<Rightarrow> buffer \<Rightarrow> buffer option" where
  "Buffer_run [] b = Some b"
| "Buffer_run (x # xs) b = do { b' \<leftarrow> Buffer_exec x b; Buffer_run xs b' }"

fun queue_run :: "buf_op list \<Rightarrow> char list \<Rightarrow> char list option" where
  "queue_run [] q = Some q"
| "queue_run (x # xs) q = do { q' \<leftarrow> queue_exec x q; queue_run xs q' }"

lemma Buffer_exec_refines:
  assumes "Buffer_inv b"
  shows "case Buffer_exec x b of
      None \<Rightarrow> queue_exec x (Buffer_content b) = None
    | Some b' \<Rightarrow> Buffer_inv b' \<and> queue_exec x (Buffer_content b) = Some (Buffer_content b')"
proof (cases x)
  case (Append d)
  then show ?thesis using Buffer_append_spec [OF assms, of d] by auto
next
  case (Retrieve n)
  show ?thesis
  proof (cases "n \<le> length (Buffer_content b)")
    case True
    then show ?thesis using Retrieve buf.discard_spec [OF assms True] by auto
  next
    case False
    then show ?thesis using Retrieve buf.discard_underflow [OF assms] by simp
  qed
next
  case RetrieveAll
  then show ?thesis using assms by (simp add: content_simps inv_intros)
next
  case (Unwrite n)
  then show ?thesis using Buffer_unwrite_spec [OF assms, of n] by (auto split: option.splits)
next
  case (EnsureWritable n)
  then show ?thesis using Buffer_ensureWritableBytes_spec [OF assms, of n] by auto
next
  case (ReadFd d)
  then show ?thesis using Buffer_readFd_spec [OF assms, of d] by auto
qed

text \<open>
  C15. A buffer is a byte queue: any sequence of appends, retrievals, unwrites, space
  reservations and reads from a descriptor behaves on the readable bytes exactly as the same
  sequence on a list. It aborts on an assertion exactly when the list version asks for more
  bytes than there are, and no internal assertion or compaction ever fails or loses a byte.
\<close>

theorem Buffer_run_refines:
  assumes "Buffer_inv b"
  shows "case Buffer_run ops b of
      None \<Rightarrow> queue_run ops (Buffer_content b) = None
    | Some b' \<Rightarrow> Buffer_inv b' \<and> queue_run ops (Buffer_content b) = Some (Buffer_content b')"
  using assms
proof (induction ops arbitrary: b)
  case Nil
  then show ?case by simp
next
  case (Cons x xs)
  show ?case
  proof (cases "Buffer_exec x b")
    case None
    then show ?thesis using Buffer_exec_refines [OF Cons.prems, of x] by simp
  next
    case (Some b')
    then have b': "Buffer_inv b'" "queue_exec x (Buffer_content b) = Some (Buffer_content b')"
      using Buffer_exec_refines [OF Cons.prems, of x] by simp_all
    then show ?thesis using Cons.IH [OF b'(1)] Some by (auto split: option.splits)
  qed
qed

theorem Buffer_run_refines_witness:
  "Buffer_inv \<lparr>buf_vec = replicate 12 NUL, readerIndex = 8, writerIndex = 8\<rparr> \<and>
   queue_run [Append ''abc'', Retrieve 1, Append ''defg'', Retrieve 2] [] = Some ''defg'' \<and>
   (\<exists>b'. Buffer_run [Append ''abc'', Retrieve 1, Append ''defg'', Retrieve 2]
          \<lparr>buf_vec = replicate 12 NUL, readerIndex = 8, writerIndex = 8\<rparr> = Some b' \<and>
        Buffer_content b' = ''defg'')"
proof -
  let ?b = "\<lparr>buf_vec = replicate 12 NUL, readerIndex = 8, writerIndex = 8\<rparr> :: buffer"
  let ?ops = "[Append ''abc'', Retrieve 1, Append ''defg'', Retrieve 2]"
  have inv: "Buffer_inv ?b"
    by (simp add: Buffer_inv_def kCheapPrepend_def)
  have "Buffer_content ?b = []"
    by (simp add: Buffer_content_def)
  moreover have "queue_run ?ops [] = Some ''defg''"
    by simp
  ultimately show ?thesis
    using inv Buffer_run_refines [OF inv, of ?ops] by (auto split: option.splits)
qed

section \<open>Integer round trips\<close>

text \<open>
  An integer of any of the four widths appended behind existing content is read back
  unchanged once that content has been retrieved, and the buffer is then empty.
\<close>

theorem Buffer_appendInt_readInt:
  assumes "Buffer_inv b"
  shows "(\<exists>b1 b2 b3. Buffer_appendInt64 x64 b = Some b1 \<and>
            Buffer_retrieve (length (Buffer_content b)) b1 = Some b2 \<and>
            Buffer_readInt64 b2 = Some (x64, b3) \<and> Buffer_inv b3 \<and> Buffer_content b3 = []) \<and>
         (\<exists>b1 b2 b3. Buffer_appendInt32 x32 b = Some b1 \<and>
            Buffer_retrieve (length (Buffer_content b)) b1 = Some b2 \<and>
            Buffer_readInt32 b2 = Some (x32, b3) \<and> Buffer_inv b3 \<and> Buffer_content b3 = []) \<and>
         (\<exists>b1 b2 b3. Buffer_appendInt16 x16 b = Some b1 \<and>
            Buffer_retrieve (length (Buffer_content b)) b1 = Some b2 \<and>
            Buffer_readInt16 b2 = Some (x16, b3) \<and> Buffer_inv b3 \<and> Buffer_content b3 = []) \<and>
         (\<exists>b1 b2 b3. Buffer_appendInt8 x8 b = Some b1 \<and>
            Buffer_retrieve (length (Buffer_content b)) b1 = Some b2 \<and>
            Buffer_readInt8 b2 = Some (x8, b3) \<and> Buffer_inv b3 \<and> Buffer_content b3 = [])"
  using i64.append_read [OF assms] i32.append_read [OF assms] i16.append_read [OF assms]
    i8.append_read [OF assms] by blast

text \<open>A buffer with some content, for the witnesses.\<close>

definition example_buffer :: buffer where
  "example_buffer = \<lparr>buf_vec = replicate 8 NUL @ ''GET'' @ replicate 2 NUL, readerIndex = 8, writerIndex = 11\<rparr>"

lemma example_buffer_facts:
  "Buffer_inv example_buffer" "Buffer_content example_buffer = ''GET''"
  "Buffer_prependableBytes example_buffer = 8" "Buffer_writableBytes example_buffer = 2"
  by (simp_all add: example_buffer_def Buffer_inv_def Buffer_content_def segment_def
      Buffer_prependableBytes_def Buffer_writableBytes_def kCheapPrepend_def)

theorem Buffer_appendInt_readInt_witness:
  "Buffer_inv example_buffer \<and>
   (\<exists>b1 b2 b3. Buffer_appendInt32 305419896 example_buffer = Some b1 \<and> Buffer_retrieve 3 b1 = Some b2 \<and>
      Buffer_readInt32 b2 = Some (305419896, b3) \<and> Buffer_content b3 = [])"
proof -
  have len: "length (Buffer_content example_buffer) = 3"
    by (simp only: example_buffer_facts) simp
  show ?thesis
    using Buffer_appendInt_readInt [OF example_buffer_facts(1), of 0 305419896 0 0] example_buffer_facts(1)
    unfolding len by blast
qed

text \<open>
  Prepending within the cheap prepend area puts the integer in front of the content
  without moving it; reading it back restores the content.
\<close>

lemma Buffer_prependInt_readInt:
  assumes "Buffer_inv b"
  shows "(8 \<le> Buffer_prependableBytes b \<longrightarrow>
            (\<exists>b1 b2. Buffer_prependInt64 x64 b = Some b1 \<and> Buffer_readInt64 b1 = Some (x64, b2) \<and>
               Buffer_inv b2 \<and> Buffer_content b2 = Buffer_content b)) \<and>
         (4 \<le> Buffer_prependableBytes b \<longrightarrow>
            (\<exists>b1 b2. Buffer_prependInt32 x32 b = Some b1 \<and> Buffer_readInt32 b1 = Some (x32, b2) \<and>
               Buffer_inv b2 \<and> Buffer_content b2 = Buffer_content b)) \<and>
         (2 \<le> Buffer_prependableBytes b \<longrightarrow>
            (\<exists>b1 b2. Buffer_prependInt16 x16 b = Some b1 \<and> Buffer_readInt16 b1 = Some (x16, b2) \<and>
               Buffer_inv b2 \<and> Buffer_content b2 = Buffer_content b)) \<and>
         (1 \<le> Buffer_prependableBytes b \<longrightarrow>
            (\<exists>b1 b2. Buffer_prependInt8 x8 b = Some b1 \<and> Buffer_readInt8 b1 = Some (x8, b2) \<and>
               Buffer_inv b2 \<and> Buffer_content b2 = Buffer_content b))"
  using i64.prepend_read [OF assms] i32.prepend_read [OF assms] i16.prepend_read [OF assms]
    i8.prepend_read [OF assms] by blast

lemma Buffer_prependInt_readInt_witness:
  "Buffer_inv example_buffer \<and> (4 :: nat) \<le> Buffer_prependableBytes example_buffer \<and>
   (\<exists>b1 b2. Buffer_prependInt32 7 example_buffer = Some b1 \<and> Buffer_readInt32 b1 = Some (7, b2) \<and>
      Buffer_content b2 = ''GET'')"
proof -
  have "(4 :: nat) \<le> Buffer_prependableBytes example_buffer"
    by (simp add: example_buffer_facts)
  then show ?thesis
    using Buffer_prependInt_readInt [OF example_buffer_facts(1), of 0 7 0 0] example_buffer_facts(1,2)
    by metis
qed

section \<open>Shrinking\<close>

lemma to_int32_large:
  assumes "2 ^ 31 \<le> n" "n < 2 ^ 32"
  shows "to_int32 n < 0"
proof -
  have "int n div 2147483648 = 1"
    using assms by simp
  then have "bit (int n) 31"
    by (simp add: bit_iff_odd)
  then show ?thesis
    by (simp add: to_int32_def signed_of_nat)
qed

lemma Buffer_append_room:
  assumes "Buffer_inv b" "length data \<le> Buffer_writableBytes b"
  shows "\<exists>b'. Buffer_append data b = Some b' \<and>
    Buffer_writableBytes b' = Buffer_writableBytes b - length data"
proof -
  have "writerIndex b + length data \<le> length (buf_vec b)"
    using assms by (auto simp: Buffer_inv_def Buffer_writableBytes_def)
  with assms(2) show ?thesis
    by (simp add: Buffer_append_def Buffer_ensureWritableBytes_def Buffer_hasWritten_def Buffer_beginWrite_def)
      (simp add: Buffer_writableBytes_def)
qed

lemma Buffer_toStringPiece_small:
  assumes "Buffer_inv b" "Buffer_readableBytes b < 2 ^ 31"
  shows "StringPiece_wf (Buffer_toStringPiece b)" "piece_string (Buffer_toStringPiece b) = Buffer_content b"
  using assms
  by (auto simp: Buffer_toStringPiece_def StringPiece_range_def StringPiece_wf_def piece_string_def to_int32_small
      Buffer_inv_def Buffer_defs Buffer_content_def segment_def simp del: of_nat_diff)

text \<open>
  \<^verbatim>\<open>shrink\<close> keeps the content and leaves at least \<^verbatim>\<open>reserve\<close> writable bytes, as long as
  the content is shorter than 2 GiB; between 2 GiB and 4 GiB the \<^verbatim>\<open>int\<close> length of the
  \<^verbatim>\<open>StringPiece\<close> it copies through is negative and the copy is undefined.
\<close>

lemma Buffer_shrink_content:
  assumes "Buffer_inv b"
  shows "(Buffer_readableBytes b < 2 ^ 31 \<longrightarrow>
            (\<exists>b'. Buffer_shrink reserve b = Some b' \<and> Buffer_inv b' \<and>
               Buffer_content b' = Buffer_content b \<and> reserve \<le> Buffer_writableBytes b')) \<and>
         (2 ^ 31 \<le> Buffer_readableBytes b \<and> Buffer_readableBytes b < 2 ^ 32 \<longrightarrow>
            Buffer_shrink reserve b = None)"
proof -
  obtain b0 where b0: "Buffer_new kInitialSize = Some b0" "Buffer_inv b0" "Buffer_content b0 = []"
    using Buffer_new_spec by blast
  obtain b1 where b1: "Buffer_ensureWritableBytes (Buffer_readableBytes b + reserve) b0 = Some b1"
      "Buffer_inv b1" "Buffer_content b1 = []" "Buffer_readableBytes b + reserve \<le> Buffer_writableBytes b1"
    using Buffer_ensureWritableBytes_spec [OF b0(2), of "Buffer_readableBytes b + reserve"] b0(3) by auto
  have small: "\<exists>b'. Buffer_shrink reserve b = Some b' \<and> Buffer_inv b' \<and>
      Buffer_content b' = Buffer_content b \<and> reserve \<le> Buffer_writableBytes b'"
    if "Buffer_readableBytes b < 2 ^ 31"
  proof -
    note piece = Buffer_toStringPiece_small [OF assms that]
    have "length (Buffer_content b) \<le> Buffer_writableBytes b1"
      using b1(4) assms by simp
    then obtain b2 where b2: "Buffer_append (Buffer_content b) b1 = Some b2"
        "Buffer_writableBytes b2 = Buffer_writableBytes b1 - length (Buffer_content b)"
      using Buffer_append_room [OF b1(2)] by blast
    have "Buffer_append_piece (Buffer_toStringPiece b) b1 = Some b2"
      using piece b2(1) by (simp add: Buffer_append_piece_def piece_string_def)
    then have "Buffer_shrink reserve b = Some b2"
      using b0(1) b1(1) by (simp add: Buffer_shrink_def Buffer_swap_def)
    then show ?thesis
      using b2 b1 assms buf.enqueue_content [OF b1(2) b2(1)] buf.enqueue_inv [OF b1(2) b2(1)] by auto
  qed
  have large: "Buffer_shrink reserve b = None"
    if "2 ^ 31 \<le> Buffer_readableBytes b" "Buffer_readableBytes b < 2 ^ 32"
    using to_int32_large [OF that] b0(1) b1(1)
    by (simp add: Buffer_shrink_def Buffer_append_piece_def StringPiece_wf_def Buffer_toStringPiece_def
        StringPiece_range_def assert_that_def)
  show ?thesis using small large by blast
qed

lemma Buffer_shrink_content_witness:
  "Buffer_inv example_buffer \<and> Buffer_readableBytes example_buffer < 2 ^ 31 \<and>
   (\<exists>b'. Buffer_shrink 100 example_buffer = Some b' \<and> Buffer_content b' = ''GET'' \<and>
      100 \<le> Buffer_writableBytes b')"
proof -
  have "Buffer_readableBytes example_buffer < 2 ^ 31"
    by (simp add: example_buffer_def Buffer_readableBytes_def)
  then show ?thesis
    using Buffer_shrink_content [OF example_buffer_facts(1), of 100] example_buffer_facts(1,2) by metis
qed

section \<open>Line search\<close>

text \<open>
  C16. \<^verbatim>\<open>findCRLF\<close> returns the position of the first carriage return and line feed pair of
  the readable bytes, and null exactly when there is none.
\<close>

theorem Buffer_findCRLF_correct:
  assumes "Buffer_inv b"
  shows "case Buffer_findCRLF b of
      None \<Rightarrow> (\<forall>i. \<not> prefix kCRLF (drop i (Buffer_content b)))
    | Some p \<Rightarrow> (\<exists>i. p = Buffer_peek b + i \<and> prefix kCRLF (drop i (Buffer_content b)) \<and>
        (\<forall>j < i. \<not> prefix kCRLF (drop j (Buffer_content b))))"
proof (cases "std_search kCRLF (Buffer_content b) < length (Buffer_content b)")
  case True
  then show ?thesis
    using std_search_found [OF True] std_search_first [of _ kCRLF "Buffer_content b"]
    by (auto simp: Buffer_findCRLF_spec [OF assms] Let_def)
next
  case False
  then have "std_search kCRLF (Buffer_content b) = length (Buffer_content b)"
    using std_search_le [of kCRLF "Buffer_content b"] by simp
  then have "\<not> prefix kCRLF (drop i (Buffer_content b))" for i
    using std_search_not_found [of kCRLF "Buffer_content b" i]
    by (cases "i < length (Buffer_content b)") (auto simp: kCRLF_def)
  with False show ?thesis by (simp add: Buffer_findCRLF_spec [OF assms] Let_def)
qed

theorem Buffer_findCRLF_correct_witness:
  "Buffer_inv \<lparr>buf_vec = ''GET'' @ kCRLF @ ''abc'', readerIndex = 0, writerIndex = 8\<rparr> \<and>
   Buffer_findCRLF \<lparr>buf_vec = ''GET'' @ kCRLF @ ''abc'', readerIndex = 0, writerIndex = 8\<rparr> = Some 3 \<and>
   prefix kCRLF (drop 3 (''GET'' @ kCRLF @ ''abc''))"
proof -
  let ?b = "\<lparr>buf_vec = ''GET'' @ kCRLF @ ''abc'', readerIndex = 0, writerIndex = 8\<rparr> :: buffer"
  have inv: "Buffer_inv ?b" by (simp add: Buffer_inv_def kCRLF_def kCheapPrepend_def)
  have found: "Buffer_findCRLF ?b = Some 3"
    by (simp add: Buffer_findCRLF_def kCRLF_def Buffer_defs segment_def)
  have "Buffer_content ?b = ''GET'' @ kCRLF @ ''abc''" "Buffer_peek ?b = 0"
    by (simp_all add: Buffer_content_def segment_def kCRLF_def Buffer_peek_def)
  then show ?thesis
    using inv found Buffer_findCRLF_correct [OF inv] by auto
qed

end
