(* ===== verification/TcpConnection.thy ===== *)
theory TcpConnection
  imports EventLoop Buffer
begin

text \<open>
  \<^verbatim>\<open>muduo/net/TcpConnection.h\<close>, \<^verbatim>\<open>TcpConnection.cc\<close>. The world of a connection is the connection,
  its event loop with the channel, and the kernel's side of the socket: the bytes it accepted,
  and the bytes it had accepted when the writing side was shut down. The results of \<^verbatim>\<open>write(2)\<close>
  and \<^verbatim>\<open>readv(2)\<close> are arguments. What the code defers with \<^verbatim>\<open>queueInLoop\<close> is a value of
  \<open>conn_functor\<close>; \<open>TcpConnection_call\<close> is what each of them does when the loop runs it.

  The user's callbacks are arguments. \<open>tw_sent\<close> is a history of the bytes that
  \<^verbatim>\<open>sendInLoop\<close> took charge of.
\<close>

datatype conn_state = kDisconnected | kConnecting | kConnected | kDisconnecting

datatype conn_functor =
    SendInLoop string
  | ShutdownInLoop
  | ForceCloseInLoop
  | StartReadInLoop
  | StopReadInLoop
  | WriteComplete
  | HighWaterMark nat
  | ConnectDestroyed

record tcpconn =
  tc_state :: conn_state
  tc_reading :: bool
  tc_channel :: addr
  tc_highWaterMark :: nat
  tc_inputBuffer :: buffer
  tc_outputBuffer :: buffer
  tc_writeCompleteCallback :: bool
  tc_highWaterMarkCallback :: bool

record tcpworld =
  tw_conn :: tcpconn
  tw_loop :: "conn_functor eventloop"
  tw_wire :: string
  tw_fin :: "string option"
  tw_sent :: string

record tcp_callbacks =
  connectionCallback :: "tcpworld \<Rightarrow> tcpworld option"
  messageCallback :: "int \<Rightarrow> tcpworld \<Rightarrow> tcpworld option"
  tcpCloseCallback :: "tcpworld \<Rightarrow> tcpworld option"
  writeCompleteCallback :: "tcpworld \<Rightarrow> tcpworld option"
  highWaterMarkCallback :: "nat \<Rightarrow> tcpworld \<Rightarrow> tcpworld option"

definition defaultConnectionCallback :: "tcpworld \<Rightarrow> tcpworld option" where
  "defaultConnectionCallback s = Some s"

definition defaultMessageCallback :: "int \<Rightarrow> tcpworld \<Rightarrow> tcpworld option" where
  "defaultMessageCallback receiveTime s =
     Some (s\<lparr>tw_conn := (tw_conn s)\<lparr>tc_inputBuffer := Buffer_retrieveAll (tc_inputBuffer (tw_conn s))\<rparr>\<rparr>)"

definition EWOULDBLOCK :: int where "EWOULDBLOCK = 11"
definition EPIPE :: int where "EPIPE = 32"
definition ECONNRESET :: int where "ECONNRESET = 104"

definition tc_chan :: "tcpworld \<Rightarrow> channel option" where
  "tc_chan s = el_heap (tw_loop s) (tc_channel (tw_conn s))"

definition TcpConnection_setState :: "conn_state \<Rightarrow> tcpworld \<Rightarrow> tcpworld" where
  "TcpConnection_setState st s = s\<lparr>tw_conn := (tw_conn s)\<lparr>tc_state := st\<rparr>\<rparr>"

text \<open>The constructor; the channel is allocated at \<open>a\<close> on the loop's heap.\<close>

definition TcpConnection_new :: "conn_functor eventloop \<Rightarrow> addr \<Rightarrow> fd \<Rightarrow> tcpworld option" where
  "TcpConnection_new l a sockfd =
     do {
       inb \<leftarrow> Buffer_new kInitialSize;
       outb \<leftarrow> Buffer_new kInitialSize;
       Some \<lparr>tw_conn = \<lparr>tc_state = kConnecting, tc_reading = True, tc_channel = a,
               tc_highWaterMark = 64 * 1024 * 1024, tc_inputBuffer = inb, tc_outputBuffer = outb,
               tc_writeCompleteCallback = False, tc_highWaterMarkCallback = False\<rparr>,
             tw_loop = l\<lparr>el_heap := (el_heap l)(a \<mapsto> Channel_new (el_self l) sockfd)\<rparr>,
             tw_wire = [], tw_fin = None, tw_sent = []\<rparr> }"

definition TcpConnection_destroy :: "tcpworld \<Rightarrow> unit option" where
  "TcpConnection_destroy s = assert_that (tc_state (tw_conn s) = kDisconnected)"

fun stateToString :: "conn_state \<Rightarrow> string" where
  "stateToString kDisconnected = ''kDisconnected''"
| "stateToString kConnecting = ''kConnecting''"
| "stateToString kConnected = ''kConnected''"
| "stateToString kDisconnecting = ''kDisconnecting''"

definition tc_on_loop ::
  "(conn_functor eventloop \<Rightarrow> conn_functor eventloop option) \<Rightarrow> tcpworld \<Rightarrow> tcpworld option" where
  "tc_on_loop g s = do { l \<leftarrow> g (tw_loop s); Some (s\<lparr>tw_loop := l\<rparr>) }"

definition tc_queue :: "int \<Rightarrow> conn_functor \<Rightarrow> tcpworld \<Rightarrow> tcpworld" where
  "tc_queue tid f s = s\<lparr>tw_loop := EventLoop_queueInLoop tid f (tw_loop s)\<rparr>"

section \<open>Sending\<close>

text \<open>
  \<open>w\<close> is what \<^verbatim>\<open>write\<close> returns: \<open>Inl errno\<close> or the number of bytes taken. \<open>try_write\<close> is the
  attempt to write directly when nothing is queued; it returns \<^verbatim>\<open>nwrote\<close> and \<^verbatim>\<open>faultError\<close>.
\<close>

definition try_write :: "int \<Rightarrow> int + nat \<Rightarrow> string \<Rightarrow> channel \<Rightarrow> tcpworld \<Rightarrow> nat \<times> bool \<times> tcpworld" where
  "try_write tid w data ch s =
     (if \<not> Channel_isWriting ch \<and> Buffer_readableBytes (tc_outputBuffer (tw_conn s)) = 0 then
        (case w of
           Inr nwrote \<Rightarrow>
             (let s = s\<lparr>tw_wire := tw_wire s @ take nwrote data\<rparr>;
                  remaining = length data - nwrote
              in (nwrote, False,
                  if remaining = 0 \<and> tc_writeCompleteCallback (tw_conn s) then tc_queue tid WriteComplete s else s))
         | Inl errno \<Rightarrow> (0, errno \<noteq> EWOULDBLOCK \<and> (errno = EPIPE \<or> errno = ECONNRESET), s))
      else (0, False, s))"

definition queue_rest :: "epoll_ctl \<Rightarrow> int \<Rightarrow> string \<Rightarrow> channel \<Rightarrow> tcpworld \<Rightarrow> tcpworld option" where
  "queue_rest ctl tid rest ch s =
     do {
       let oldLen = Buffer_readableBytes (tc_outputBuffer (tw_conn s));
       let s = (if tc_highWaterMark (tw_conn s) \<le> oldLen + length rest \<and> oldLen < tc_highWaterMark (tw_conn s) \<and>
                   tc_highWaterMarkCallback (tw_conn s)
                then tc_queue tid (HighWaterMark (oldLen + length rest)) s else s);
       b \<leftarrow> Buffer_append rest (tc_outputBuffer (tw_conn s));
       let s = s\<lparr>tw_conn := (tw_conn s)\<lparr>tc_outputBuffer := b\<rparr>\<rparr>;
       if \<not> Channel_isWriting ch
       then tc_on_loop (Channel_enableWriting ctl tid (tc_channel (tw_conn s))) s
       else Some s }"

definition TcpConnection_sendInLoop ::
  "epoll_ctl \<Rightarrow> int \<Rightarrow> int + nat \<Rightarrow> string \<Rightarrow> tcpworld \<Rightarrow> tcpworld option" where
  "TcpConnection_sendInLoop ctl tid w data s =
     do {
       EventLoop_assertInLoopThread tid (tw_loop s);
       if tc_state (tw_conn s) = kDisconnected then Some s
       else do {
         ch \<leftarrow> tc_chan s;
         let (nwrote, faultError, s) = try_write tid w data ch s;
         assert_that (nwrote \<le> length data);
         let s = (if faultError then s else s\<lparr>tw_sent := tw_sent s @ data\<rparr>);
         if \<not> faultError \<and> 0 < length data - nwrote then queue_rest ctl tid (drop nwrote data) ch s
         else Some s } }"

definition TcpConnection_send ::
  "epoll_ctl \<Rightarrow> int \<Rightarrow> int + nat \<Rightarrow> string \<Rightarrow> tcpworld \<Rightarrow> tcpworld option" where
  "TcpConnection_send ctl tid w message s =
     (if tc_state (tw_conn s) = kConnected then
        (if EventLoop_isInLoopThread tid (tw_loop s) then TcpConnection_sendInLoop ctl tid w message s
         else Some (tc_queue tid (SendInLoop message) s))
      else Some s)"

definition TcpConnection_send_buffer ::
  "epoll_ctl \<Rightarrow> int \<Rightarrow> int + nat \<Rightarrow> buffer \<Rightarrow> tcpworld \<Rightarrow> (buffer \<times> tcpworld) option" where
  "TcpConnection_send_buffer ctl tid w buf s =
     (if tc_state (tw_conn s) = kConnected then
        (if EventLoop_isInLoopThread tid (tw_loop s) then
           do {
             s \<leftarrow> TcpConnection_sendInLoop ctl tid w (segment (Buffer_peek buf) (Buffer_peek buf + Buffer_readableBytes buf) (buf_vec buf)) s;
             Some (Buffer_retrieveAll buf, s) }
         else
           do {
             (str, buf) \<leftarrow> Buffer_retrieveAllAsString buf;
             Some (buf, tc_queue tid (SendInLoop str) s) })
      else Some (buf, s))"

section \<open>Shutting down and reading\<close>

definition TcpConnection_shutdownInLoop :: "int \<Rightarrow> tcpworld \<Rightarrow> tcpworld option" where
  "TcpConnection_shutdownInLoop tid s =
     do {
       EventLoop_assertInLoopThread tid (tw_loop s);
       ch \<leftarrow> tc_chan s;
       Some (if \<not> Channel_isWriting ch then s\<lparr>tw_fin := Some (tw_wire s)\<rparr> else s) }"

definition TcpConnection_shutdown :: "int \<Rightarrow> tcpworld \<Rightarrow> tcpworld option" where
  "TcpConnection_shutdown tid s =
     (if tc_state (tw_conn s) = kConnected then
        (let s = TcpConnection_setState kDisconnecting s
         in if EventLoop_isInLoopThread tid (tw_loop s) then TcpConnection_shutdownInLoop tid s
            else Some (tc_queue tid ShutdownInLoop s))
      else Some s)"

definition TcpConnection_forceClose :: "int \<Rightarrow> tcpworld \<Rightarrow> tcpworld option" where
  "TcpConnection_forceClose tid s =
     (if tc_state (tw_conn s) = kConnected \<or> tc_state (tw_conn s) = kDisconnecting
      then Some (tc_queue tid ForceCloseInLoop (TcpConnection_setState kDisconnecting s))
      else Some s)"

text \<open>
  \<^verbatim>\<open>forceCloseWithDelay\<close> arms a timer that calls \<^verbatim>\<open>forceClose\<close> if the connection still exists; the
  second component says whether it does.
\<close>

definition TcpConnection_forceCloseWithDelay :: "tcpworld \<Rightarrow> tcpworld \<times> bool" where
  "TcpConnection_forceCloseWithDelay s =
     (if tc_state (tw_conn s) = kConnected \<or> tc_state (tw_conn s) = kDisconnecting
      then (TcpConnection_setState kDisconnecting s, True) else (s, False))"

definition TcpConnection_startReadInLoop :: "epoll_ctl \<Rightarrow> int \<Rightarrow> tcpworld \<Rightarrow> tcpworld option" where
  "TcpConnection_startReadInLoop ctl tid s =
     do {
       EventLoop_assertInLoopThread tid (tw_loop s);
       ch \<leftarrow> tc_chan s;
       if \<not> tc_reading (tw_conn s) \<or> \<not> Channel_isReading ch then
         do {
           s \<leftarrow> tc_on_loop (Channel_enableReading ctl tid (tc_channel (tw_conn s))) s;
           Some (s\<lparr>tw_conn := (tw_conn s)\<lparr>tc_reading := True\<rparr>\<rparr>) }
       else Some s }"

definition TcpConnection_stopReadInLoop :: "epoll_ctl \<Rightarrow> int \<Rightarrow> tcpworld \<Rightarrow> tcpworld option" where
  "TcpConnection_stopReadInLoop ctl tid s =
     do {
       EventLoop_assertInLoopThread tid (tw_loop s);
       ch \<leftarrow> tc_chan s;
       if tc_reading (tw_conn s) \<or> Channel_isReading ch then
         do {
           s \<leftarrow> tc_on_loop (Channel_disableReading ctl tid (tc_channel (tw_conn s))) s;
           Some (s\<lparr>tw_conn := (tw_conn s)\<lparr>tc_reading := False\<rparr>\<rparr>) }
       else Some s }"

definition TcpConnection_startRead :: "epoll_ctl \<Rightarrow> int \<Rightarrow> tcpworld \<Rightarrow> tcpworld option" where
  "TcpConnection_startRead ctl tid s =
     (if EventLoop_isInLoopThread tid (tw_loop s) then TcpConnection_startReadInLoop ctl tid s
      else Some (tc_queue tid StartReadInLoop s))"

definition TcpConnection_stopRead :: "epoll_ctl \<Rightarrow> int \<Rightarrow> tcpworld \<Rightarrow> tcpworld option" where
  "TcpConnection_stopRead ctl tid s =
     (if EventLoop_isInLoopThread tid (tw_loop s) then TcpConnection_stopReadInLoop ctl tid s
      else Some (tc_queue tid StopReadInLoop s))"

section \<open>Life cycle and events\<close>

definition tc_tie :: "tcpworld \<Rightarrow> tcpworld option" where
  "tc_tie s =
     do {
       ch \<leftarrow> tc_chan s;
       Some (s\<lparr>tw_loop := (tw_loop s)\<lparr>el_heap := (el_heap (tw_loop s))(tc_channel (tw_conn s) \<mapsto> Channel_tie ch)\<rparr>\<rparr>) }"

definition TcpConnection_connectEstablished ::
  "epoll_ctl \<Rightarrow> int \<Rightarrow> tcp_callbacks \<Rightarrow> tcpworld \<Rightarrow> tcpworld option" where
  "TcpConnection_connectEstablished ctl tid cb s =
     do {
       EventLoop_assertInLoopThread tid (tw_loop s);
       assert_that (tc_state (tw_conn s) = kConnecting);
       let s = TcpConnection_setState kConnected s;
       s \<leftarrow> tc_tie s;
       s \<leftarrow> tc_on_loop (Channel_enableReading ctl tid (tc_channel (tw_conn s))) s;
       connectionCallback cb s }"

definition TcpConnection_connectDestroyed ::
  "epoll_ctl \<Rightarrow> int \<Rightarrow> tcp_callbacks \<Rightarrow> tcpworld \<Rightarrow> tcpworld option" where
  "TcpConnection_connectDestroyed ctl tid cb s =
     do {
       EventLoop_assertInLoopThread tid (tw_loop s);
       s \<leftarrow> (if tc_state (tw_conn s) = kConnected then
               do {
                 let s = TcpConnection_setState kDisconnected s;
                 s \<leftarrow> tc_on_loop (Channel_disableAll ctl tid (tc_channel (tw_conn s))) s;
                 connectionCallback cb s }
             else Some s);
       tc_on_loop (Channel_remove ctl tid (tc_channel (tw_conn s))) s }"

definition TcpConnection_handleClose ::
  "epoll_ctl \<Rightarrow> int \<Rightarrow> tcp_callbacks \<Rightarrow> tcpworld \<Rightarrow> tcpworld option" where
  "TcpConnection_handleClose ctl tid cb s =
     do {
       EventLoop_assertInLoopThread tid (tw_loop s);
       assert_that (tc_state (tw_conn s) = kConnected \<or> tc_state (tw_conn s) = kDisconnecting);
       let s = TcpConnection_setState kDisconnected s;
       s \<leftarrow> tc_on_loop (Channel_disableAll ctl tid (tc_channel (tw_conn s))) s;
       s \<leftarrow> connectionCallback cb s;
       tcpCloseCallback cb s }"

text \<open>\<^verbatim>\<open>handleError\<close> reads the socket's error and logs it.\<close>

definition TcpConnection_handleError :: "tcpworld \<Rightarrow> tcpworld option" where
  "TcpConnection_handleError s = Some s"

definition TcpConnection_handleRead ::
  "epoll_ctl \<Rightarrow> int \<Rightarrow> tcp_callbacks \<Rightarrow> int + string \<Rightarrow> int \<Rightarrow> tcpworld \<Rightarrow> tcpworld option" where
  "TcpConnection_handleRead ctl tid cb readv receiveTime s =
     do {
       EventLoop_assertInLoopThread tid (tw_loop s);
       (n, savedErrno, b) \<leftarrow> Buffer_readFd readv (tc_inputBuffer (tw_conn s));
       let s = s\<lparr>tw_conn := (tw_conn s)\<lparr>tc_inputBuffer := b\<rparr>\<rparr>;
       if 0 < n then messageCallback cb receiveTime s
       else if n = 0 then TcpConnection_handleClose ctl tid cb s
       else TcpConnection_handleError s }"

definition TcpConnection_handleWrite ::
  "epoll_ctl \<Rightarrow> int \<Rightarrow> int + nat \<Rightarrow> tcpworld \<Rightarrow> tcpworld option" where
  "TcpConnection_handleWrite ctl tid w s =
     do {
       EventLoop_assertInLoopThread tid (tw_loop s);
       ch \<leftarrow> tc_chan s;
       if Channel_isWriting ch then
         (case w of
            Inl _ \<Rightarrow> Some s
          | Inr n \<Rightarrow>
              if 0 < n then
                do {
                  let s = s\<lparr>tw_wire := tw_wire s @ take n (Buffer_content (tc_outputBuffer (tw_conn s)))\<rparr>;
                  b \<leftarrow> Buffer_retrieve n (tc_outputBuffer (tw_conn s));
                  let s = s\<lparr>tw_conn := (tw_conn s)\<lparr>tc_outputBuffer := b\<rparr>\<rparr>;
                  if Buffer_readableBytes b = 0 then
                    do {
                      s \<leftarrow> tc_on_loop (Channel_disableWriting ctl tid (tc_channel (tw_conn s))) s;
                      let s = (if tc_writeCompleteCallback (tw_conn s) then tc_queue tid WriteComplete s else s);
                      if tc_state (tw_conn s) = kDisconnecting then TcpConnection_shutdownInLoop tid s else Some s }
                  else Some s }
              else Some s)
       else Some s }"

definition TcpConnection_forceCloseInLoop ::
  "epoll_ctl \<Rightarrow> int \<Rightarrow> tcp_callbacks \<Rightarrow> tcpworld \<Rightarrow> tcpworld option" where
  "TcpConnection_forceCloseInLoop ctl tid cb s =
     do {
       EventLoop_assertInLoopThread tid (tw_loop s);
       if tc_state (tw_conn s) = kConnected \<or> tc_state (tw_conn s) = kDisconnecting
       then TcpConnection_handleClose ctl tid cb s
       else Some s }"

text \<open>What the loop does when it runs a deferred call; \<open>w\<close> is the result of a write it makes.\<close>

fun TcpConnection_call ::
  "epoll_ctl \<Rightarrow> int \<Rightarrow> tcp_callbacks \<Rightarrow> int + nat \<Rightarrow> conn_functor \<Rightarrow> tcpworld \<Rightarrow> tcpworld option" where
  "TcpConnection_call ctl tid cb w (SendInLoop message) s = TcpConnection_sendInLoop ctl tid w message s"
| "TcpConnection_call ctl tid cb w ShutdownInLoop s = TcpConnection_shutdownInLoop tid s"
| "TcpConnection_call ctl tid cb w ForceCloseInLoop s = TcpConnection_forceCloseInLoop ctl tid cb s"
| "TcpConnection_call ctl tid cb w StartReadInLoop s = TcpConnection_startReadInLoop ctl tid s"
| "TcpConnection_call ctl tid cb w StopReadInLoop s = TcpConnection_stopReadInLoop ctl tid s"
| "TcpConnection_call ctl tid cb w WriteComplete s = writeCompleteCallback cb s"
| "TcpConnection_call ctl tid cb w (HighWaterMark n) s = highWaterMarkCallback cb n s"
| "TcpConnection_call ctl tid cb w ConnectDestroyed s = TcpConnection_connectDestroyed ctl tid cb s"

section \<open>The invariant of an established connection\<close>

definition small_events :: "events \<Rightarrow> bool" where
  "small_events ev \<longleftrightarrow> ev AND NOT (kReadEvent OR kWriteEvent) = 0"

lemma small_events_ops [simp]:
  "small_events ev \<Longrightarrow> small_events (ev OR kReadEvent)"
  "small_events ev \<Longrightarrow> small_events (ev OR kWriteEvent)"
  "small_events ev \<Longrightarrow> small_events (ev AND m)"
  "small_events 0"
  by (auto simp: small_events_def bit_eq_iff bit_simps)

lemma small_events_bound: "small_events ev \<Longrightarrow> unat ev < 2 ^ 15"
proof -
  assume "small_events ev"
  then have "ev = ev AND 7"
    by (auto simp: small_events_def kReadEvent_def kWriteEvent_def poll_defs bit_eq_iff bit_simps)
  then have "ev \<le> 7" by (metis word_and_le1)
  then show ?thesis by (simp add: word_le_nat_alt)
qed

text \<open>The part that every channel operation keeps.\<close>

definition tc_base :: "int \<Rightarrow> tcpworld \<Rightarrow> channel \<Rightarrow> bool" where
  "tc_base tid s ch \<longleftrightarrow>
     EventLoop_inv (tw_loop s) \<and> el_threadId (tw_loop s) = tid \<and>
     tc_chan s = Some ch \<and> ch_loop ch = el_self (tw_loop s) \<and> 0 \<le> ch_fd ch \<and> small_events (ch_events ch) \<and>
     any_channels (el_poller (tw_loop s)) (ch_fd ch) = Some (tc_channel (tw_conn s)) \<and>
     Buffer_inv (tc_inputBuffer (tw_conn s)) \<and> Buffer_inv (tc_outputBuffer (tw_conn s)) \<and>
     tw_wire s @ Buffer_content (tc_outputBuffer (tw_conn s)) = tw_sent s"

text \<open>
  While the connection is up its channel asks for writability exactly when output is pending;
  once it is down the channel asks for nothing and may be removed.
\<close>

definition tc_mode :: "tcpworld \<Rightarrow> channel \<Rightarrow> bool" where
  "tc_mode s ch \<longleftrightarrow>
     (case tc_state (tw_conn s) of
        kConnecting \<Rightarrow> False
      | kDisconnected \<Rightarrow> ch_events ch = 0 \<and> any_quiet (el_heap (tw_loop s)) (el_poller (tw_loop s)) (ch_fd ch)
      | _ \<Rightarrow> Channel_isWriting ch \<longleftrightarrow> Buffer_content (tc_outputBuffer (tw_conn s)) \<noteq> [])"

definition TcpConnection_inv :: "int \<Rightarrow> tcpworld \<Rightarrow> bool" where
  "TcpConnection_inv tid s \<longleftrightarrow> (\<exists>ch. tc_base tid s ch \<and> tc_mode s ch)"

lemma readable_zero: "Buffer_inv b \<Longrightarrow> Buffer_readableBytes b = 0 \<longleftrightarrow> Buffer_content b = []"
  by (metis length_0_conv length_Buffer_content)

lemma Channel_ops_fields [simp]:
  "ch_fd (or_events m c) = ch_fd c" "ch_index (or_events m c) = ch_index c" "ch_loop (or_events m c) = ch_loop c"
  "ch_fd (mask_events m c) = ch_fd c" "ch_index (mask_events m c) = ch_index c" "ch_loop (mask_events m c) = ch_loop c"
  "ch_fd (none_events c) = ch_fd c" "ch_index (none_events c) = ch_index c" "ch_loop (none_events c) = ch_loop c"
  "ch_events (or_events m c) = ch_events c OR m" "ch_events (mask_events m c) = ch_events c AND NOT m"
  "ch_events (none_events c) = 0"
  by (simp_all add: mask_defs kNoneEvent_def)

text \<open>A change of the mask of the connection's channel succeeds and changes the channel only.\<close>

lemma tc_change_spec:
  assumes k: "kernel_ok ctl" and b: "tc_base tid s ch"
    and f: "ch_fd (f ch) = ch_fd ch" "ch_index (f ch) = ch_index ch" "ch_loop (f ch) = ch_loop ch"
      "small_events (ch_events (f ch))"
  shows "\<exists>l' ch'. tc_on_loop (Channel_change ctl tid f (tc_channel (tw_conn s))) s = Some (s\<lparr>tw_loop := l'\<rparr>) \<and>
    tc_base tid (s\<lparr>tw_loop := l'\<rparr>) ch' \<and> ch_events ch' = ch_events (f ch) \<and> only_poller (tw_loop s) l' \<and>
    ch_fd ch' = ch_fd ch \<and>
    (ch_events (f ch) = 0 \<longrightarrow> any_quiet (el_heap l') (el_poller l') (ch_fd ch'))"
proof -
  let ?l = "tw_loop s" and ?a = "tc_channel (tw_conn s)"
  have base: "EventLoop_inv ?l" "el_threadId ?l = tid" "el_heap ?l ?a = Some ch" "ch_loop ch = el_self ?l"
      "0 \<le> ch_fd ch" "any_channels (el_poller ?l) (ch_fd ch) = Some ?a"
    using b by (simp_all add: tc_base_def tc_chan_def)
  have "chan_ok (f ch)" using base(5) f small_events_bound by (simp add: chan_ok_def)
  from Channel_change_spec [OF k base(1-4), of f, OF this f(1-3)] base(6)
  obtain l' i where r: "Channel_change ctl tid f ?a ?l = Some l'" "EventLoop_inv l'" "only_poller ?l l'"
      "el_heap l' ?a = Some (Channel_set_index i ((f ch)\<lparr>ch_addedToLoop := True\<rparr>))"
      "any_channels (el_poller l') = (any_channels (el_poller ?l))(ch_fd ch \<mapsto> ?a)"
      "ch_events (f ch) = 0 \<longrightarrow> any_quiet (el_heap l') (el_poller l') (ch_fd ch)"
    by blast
  let ?ch = "Channel_set_index i ((f ch)\<lparr>ch_addedToLoop := True\<rparr>)"
  have "tc_base tid (s\<lparr>tw_loop := l'\<rparr>) ?ch"
    using b r f only_poller_simps [OF r(3)] by (simp add: tc_base_def tc_chan_def)
  with r f show ?thesis
    by (intro exI [of _ l'] exI [of _ ?ch]) (simp add: tc_on_loop_def)
qed

lemma queueInLoop_simps [simp]:
  "el_heap (EventLoop_queueInLoop tid f l) = el_heap l" "el_poller (EventLoop_queueInLoop tid f l) = el_poller l"
  "el_threadId (EventLoop_queueInLoop tid f l) = el_threadId l" "el_self (EventLoop_queueInLoop tid f l) = el_self l"
  "EventLoop_inv (EventLoop_queueInLoop tid f l) = EventLoop_inv l"
  by (simp_all add: EventLoop_queueInLoop_def queue_push_def EventLoop_wakeup_def EventLoop_inv_def Let_def)

lemma tc_queue_simps [simp]:
  "tc_base tid (tc_queue t f s) ch = tc_base tid s ch" "tc_mode (tc_queue t f s) ch = tc_mode s ch"
  "tw_conn (tc_queue t f s) = tw_conn s" "tw_wire (tc_queue t f s) = tw_wire s" "tw_sent (tc_queue t f s) = tw_sent s"
  "tw_fin (tc_queue t f s) = tw_fin s" "tc_chan (tc_queue t f s) = tc_chan s"
  by (simp_all add: tc_queue_def tc_base_def tc_mode_def tc_chan_def split: conn_state.split)

lemma tc_inv_queue [simp]: "TcpConnection_inv tid (tc_queue t f s) = TcpConnection_inv tid s"
  by (simp add: TcpConnection_inv_def)

lemma tc_base_state [simp]: "tc_base tid (TcpConnection_setState st s) ch = tc_base tid s ch"
  by (simp add: TcpConnection_setState_def tc_base_def tc_chan_def)

lemma tc_inThread: "tc_base tid s ch \<Longrightarrow> EventLoop_assertInLoopThread tid (tw_loop s) = Some ()"
  by (simp add: tc_base_def EventLoop_assertInLoopThread_def EventLoop_isInLoopThread_def)

lemma tc_base_chan: "tc_base tid s ch \<Longrightarrow> tc_chan s = Some ch"
  by (simp add: tc_base_def)

text \<open>Taking charge of data: the pending output grows by what the kernel did not take.\<close>

lemma tc_base_output:
  assumes "tc_base tid s ch" "Buffer_inv b" "wire @ Buffer_content b = sent"
  shows "tc_base tid (s\<lparr>tw_wire := wire, tw_sent := sent, tw_conn := (tw_conn s)\<lparr>tc_outputBuffer := b\<rparr>\<rparr>) ch"
  using assms by (simp add: tc_base_def tc_chan_def)

definition write_ok :: "nat \<Rightarrow> int + nat \<Rightarrow> bool" where
  "write_ok len w \<longleftrightarrow> (case w of Inl _ \<Rightarrow> True | Inr n \<Rightarrow> n \<le> len)"

lemma tc_mode_up:
  "tc_state (tw_conn s) \<in> {kConnected, kDisconnecting} \<Longrightarrow>
   tc_mode s ch \<longleftrightarrow> (Channel_isWriting ch \<longleftrightarrow> Buffer_content (tc_outputBuffer (tw_conn s)) \<noteq> [])"
  by (auto simp: tc_mode_def)

lemma TcpConnection_inv_cases:
  assumes "TcpConnection_inv tid s"
  obtains (down) ch where "tc_base tid s ch" "tc_mode s ch" "tc_state (tw_conn s) = kDisconnected"
  | (up) ch where "tc_base tid s ch" "tc_mode s ch" "tc_state (tw_conn s) \<in> {kConnected, kDisconnecting}"
proof -
  obtain ch where "tc_base tid s ch" "tc_mode s ch" using assms by (auto simp: TcpConnection_inv_def)
  then show thesis using down up by (cases "tc_state (tw_conn s)") (auto simp: tc_mode_def)
qed

text \<open>Output that has to wait is appended, and the channel asks for writability.\<close>

lemma queue_rest_spec:
  assumes k: "kernel_ok ctl" and b: "tc_base tid s0 ch"
    and up: "tc_state (tw_conn s) \<in> {kConnected, kDisconnecting}"
    and e: "Channel_isWriting ch \<longleftrightarrow> Buffer_content (tc_outputBuffer (tw_conn s)) \<noteq> []"
    and s: "tw_wire s @ Buffer_content (tc_outputBuffer (tw_conn s)) @ rest = tw_sent s"
      "tw_conn s = tw_conn s0" "tw_loop s = tw_loop s0"
    and rest: "rest \<noteq> []"
  shows "\<exists>s'. queue_rest ctl tid rest ch s = Some s' \<and> TcpConnection_inv tid s' \<and> tw_sent s' = tw_sent s \<and>
    tc_state (tw_conn s') = tc_state (tw_conn s) \<and> tw_fin s' = tw_fin s"
proof -
  define s1 where "s1 = (let oldLen = Buffer_readableBytes (tc_outputBuffer (tw_conn s))
    in if tc_highWaterMark (tw_conn s) \<le> oldLen + length rest \<and> oldLen < tc_highWaterMark (tw_conn s) \<and>
          tc_highWaterMarkCallback (tw_conn s)
       then tc_queue tid (HighWaterMark (oldLen + length rest)) s else s)"
  have s1: "tw_conn s1 = tw_conn s" "tw_wire s1 = tw_wire s" "tw_sent s1 = tw_sent s" "tw_fin s1 = tw_fin s"
    by (simp_all add: s1_def Let_def)
  have ob: "Buffer_inv (tc_outputBuffer (tw_conn s))" using b s by (simp add: tc_base_def)
  obtain b' where b': "Buffer_append rest (tc_outputBuffer (tw_conn s)) = Some b'" "Buffer_inv b'"
      "Buffer_content b' = Buffer_content (tc_outputBuffer (tw_conn s)) @ rest"
    using Buffer_append_spec [OF ob] by blast
  let ?s = "s1\<lparr>tw_conn := (tw_conn s)\<lparr>tc_outputBuffer := b'\<rparr>\<rparr>"
  have r: "queue_rest ctl tid rest ch s =
      (if \<not> Channel_isWriting ch then tc_on_loop (Channel_enableWriting ctl tid (tc_channel (tw_conn ?s))) ?s else Some ?s)"
    using b'(1) by (simp add: queue_rest_def Let_def s1_def)
  have base: "tc_base tid ?s ch"
    using b b'(2,3) s by (simp add: tc_base_def tc_chan_def tc_queue_def s1_def Let_def)
  show ?thesis
  proof (cases "Channel_isWriting ch")
    case True
    then have "tc_mode ?s ch" using up b'(3) rest by (auto simp: tc_mode_def)
    with base True s1 show ?thesis by (auto simp: TcpConnection_inv_def r)
  next
    case False
    have "small_events (ch_events (or_events kWriteEvent ch))" using b by (simp add: tc_base_def)
    from tc_change_spec [OF k base, of "or_events kWriteEvent", OF _ _ _ this]
    obtain l' ch' where u: "tc_on_loop (Channel_enableWriting ctl tid (tc_channel (tw_conn ?s))) ?s = Some (?s\<lparr>tw_loop := l'\<rparr>)"
        "tc_base tid (?s\<lparr>tw_loop := l'\<rparr>) ch'" "ch_events ch' = ch_events (or_events kWriteEvent ch)"
      unfolding Channel_enableWriting_def by auto
    have "Channel_isWriting ch'"
      using u(3) isWriting_ops(1) [of ch] by (simp add: Channel_isWriting_def)
    then have "tc_mode (?s\<lparr>tw_loop := l'\<rparr>) ch'" using up b'(3) rest by (auto simp: tc_mode_def)
    with u False s1 show ?thesis by (auto simp: TcpConnection_inv_def r)
  qed
qed

text \<open>
  Sending never fails on a connection in order. Unless it is down, or the write finds the
  connection broken, the whole message is taken charge of.
\<close>

lemma TcpConnection_sendInLoop_spec:
  assumes k: "kernel_ok ctl" and inv: "TcpConnection_inv tid s" and w: "write_ok (length data) w"
  shows "\<exists>s'. TcpConnection_sendInLoop ctl tid w data s = Some s' \<and> TcpConnection_inv tid s' \<and>
    tc_state (tw_conn s') = tc_state (tw_conn s) \<and> tw_fin s' = tw_fin s \<and>
    tw_sent s' \<in> {tw_sent s, tw_sent s @ data} \<and>
    (tc_state (tw_conn s) \<noteq> kDisconnected \<and> w \<notin> {Inl EPIPE, Inl ECONNRESET} \<longrightarrow> tw_sent s' = tw_sent s @ data)"
  using inv
proof (cases rule: TcpConnection_inv_cases)
  case (down ch)
  then show ?thesis using inv by (simp add: TcpConnection_sendInLoop_def tc_inThread)
next
  case (up ch)
  define out where "out = Buffer_content (tc_outputBuffer (tw_conn s))"
  have e: "Channel_isWriting ch \<longleftrightarrow> out \<noteq> []" using up by (simp add: tc_mode_up out_def)
  have ws: "tw_wire s @ out = tw_sent s" "Buffer_inv (tc_outputBuffer (tw_conn s))"
    using up(1) by (simp_all add: tc_base_def out_def)
  obtain n fault s1 where t: "try_write tid w data ch s = (n, fault, s1)" by (metis prod_cases3)
  have s1: "tw_conn s1 = tw_conn s" "tw_fin s1 = tw_fin s" "tw_sent s1 = tw_sent s" "n \<le> length data"
      "fault \<longrightarrow> s1 = s \<and> w \<in> {Inl EPIPE, Inl ECONNRESET}"
      "n = 0 \<or> out = []" "tw_wire s1 = tw_wire s @ take n data"
      "tw_loop s1 = tw_loop s \<or> (tw_loop s1 = tw_loop (tc_queue tid WriteComplete s) \<and> n = length data)"
    using t w ws(2) e by (auto simp: try_write_def write_ok_def readable_zero out_def tc_queue_def Let_def
        split: if_splits sum.splits)
  let ?s = "s1\<lparr>tw_sent := tw_sent s1 @ data\<rparr>"
  have r: "TcpConnection_sendInLoop ctl tid w data s =
      (if fault then Some s else if n < length data then queue_rest ctl tid (drop n data) ch ?s else Some ?s)"
    using up(3) s1 t by (auto simp: TcpConnection_sendInLoop_def tc_inThread [OF up(1)] tc_base_chan [OF up(1)])
  have wire: "tw_wire ?s @ out @ drop n data = tw_sent ?s"
    using s1 ws(1) by auto
  consider "fault" | "\<not> fault" "n < length data" | "\<not> fault" "n = length data" using s1(4) by linarith
  then show ?thesis
  proof cases
    case 1
    with inv s1(5) show ?thesis by (auto simp: r)
  next
    case 2
    then have "\<exists>s'. queue_rest ctl tid (drop n data) ch ?s = Some s' \<and> TcpConnection_inv tid s' \<and>
        tw_sent s' = tw_sent ?s \<and> tc_state (tw_conn s') = tc_state (tw_conn ?s) \<and> tw_fin s' = tw_fin ?s"
      using s1 up e wire by (intro queue_rest_spec [OF k up(1)]) (auto simp: out_def)
    with 2 s1 show ?thesis by (auto simp: r)
  next
    case 3
    have "tc_base tid ?s ch"
      using s1 up(1) wire 3 by (auto simp: tc_base_def tc_chan_def out_def tc_queue_def)
    moreover have "tc_mode ?s ch" using up(3) e s1(1) by (subst tc_mode_up) (simp_all add: out_def)
    ultimately have "TcpConnection_inv tid ?s" by (auto simp: TcpConnection_inv_def)
    with 3 s1 show ?thesis by (auto simp: r)
  qed
qed

text \<open>Disabling the channel of a connection that goes down.\<close>

lemma tc_down_spec:
  assumes k: "kernel_ok ctl" and b: "tc_base tid s ch"
  shows "\<exists>s'. tc_on_loop (Channel_disableAll ctl tid (tc_channel (tw_conn s))) (TcpConnection_setState kDisconnected s) = Some s' \<and>
    TcpConnection_inv tid s' \<and> tc_state (tw_conn s') = kDisconnected \<and> tw_sent s' = tw_sent s \<and> tw_fin s' = tw_fin s \<and>
    el_eventHandling (tw_loop s') = el_eventHandling (tw_loop s)"
proof -
  let ?s = "TcpConnection_setState kDisconnected s"
  have "tc_base tid ?s ch" using b by simp
  from tc_change_spec [OF k this, of none_events]
  obtain l' ch' where u: "tc_on_loop (Channel_disableAll ctl tid (tc_channel (tw_conn ?s))) ?s = Some (?s\<lparr>tw_loop := l'\<rparr>)"
      "tc_base tid (?s\<lparr>tw_loop := l'\<rparr>) ch'" "ch_events ch' = 0" "any_quiet (el_heap l') (el_poller l') (ch_fd ch')"
      "only_poller (tw_loop ?s) l'"
    unfolding Channel_disableAll_def by auto
  then have "tc_mode (?s\<lparr>tw_loop := l'\<rparr>) ch'"
    by (simp add: tc_mode_def TcpConnection_setState_def)
  with u(2) have "TcpConnection_inv tid (?s\<lparr>tw_loop := l'\<rparr>)" by (auto simp: TcpConnection_inv_def)
  with u(1) only_poller_simps(3) [OF u(5)] show ?thesis by (simp add: TcpConnection_setState_def)
qed

text \<open>
  What is asked of the user's callbacks: on a connection in order they return, and leave it in
  order and, if it is down, down.
\<close>

definition cb_keeps :: "int \<Rightarrow> (tcpworld \<Rightarrow> tcpworld option) \<Rightarrow> bool" where
  "cb_keeps tid g \<longleftrightarrow>
     (\<forall>s. TcpConnection_inv tid s \<longrightarrow>
        (\<exists>s'. g s = Some s' \<and> TcpConnection_inv tid s' \<and>
           (tc_state (tw_conn s) = kDisconnected \<longrightarrow> tc_state (tw_conn s') = kDisconnected)))"

definition cb_ok :: "int \<Rightarrow> tcp_callbacks \<Rightarrow> bool" where
  "cb_ok tid cb \<longleftrightarrow>
     cb_keeps tid (connectionCallback cb) \<and> (\<forall>t. cb_keeps tid (messageCallback cb t)) \<and>
     cb_keeps tid (tcpCloseCallback cb) \<and> cb_keeps tid (writeCompleteCallback cb) \<and>
     (\<forall>n. cb_keeps tid (highWaterMarkCallback cb n))"

lemma cb_keepsD:
  "cb_keeps tid g \<Longrightarrow> TcpConnection_inv tid s \<Longrightarrow>
   \<exists>s'. g s = Some s' \<and> TcpConnection_inv tid s' \<and>
     (tc_state (tw_conn s) = kDisconnected \<longrightarrow> tc_state (tw_conn s') = kDisconnected)"
  by (simp add: cb_keeps_def)

lemma cb_okD:
  assumes "cb_ok tid cb"
  shows "cb_keeps tid (connectionCallback cb)" "cb_keeps tid (messageCallback cb t)" "cb_keeps tid (tcpCloseCallback cb)"
    "cb_keeps tid (writeCompleteCallback cb)" "cb_keeps tid (highWaterMarkCallback cb n)"
  using assms by (simp_all add: cb_ok_def)

lemma TcpConnection_handleClose_spec:
  assumes k: "kernel_ok ctl" and cb: "cb_ok tid cb" and b: "tc_base tid s ch"
    and up: "tc_state (tw_conn s) \<in> {kConnected, kDisconnecting}"
  shows "\<exists>s'. TcpConnection_handleClose ctl tid cb s = Some s' \<and> TcpConnection_inv tid s' \<and>
    tc_state (tw_conn s') = kDisconnected"
proof -
  obtain s1 where s1: "tc_on_loop (Channel_disableAll ctl tid (tc_channel (tw_conn s))) (TcpConnection_setState kDisconnected s) = Some s1"
      "TcpConnection_inv tid s1" "tc_state (tw_conn s1) = kDisconnected"
    using tc_down_spec [OF k b] by blast
  obtain s2 where s2: "connectionCallback cb s1 = Some s2" "TcpConnection_inv tid s2" "tc_state (tw_conn s2) = kDisconnected"
    using cb_keepsD [OF cb_okD(1) [OF cb] s1(2)] s1(3) by auto
  obtain s3 where s3: "tcpCloseCallback cb s2 = Some s3" "TcpConnection_inv tid s3" "tc_state (tw_conn s3) = kDisconnected"
    using cb_keepsD [OF cb_okD(3) [OF cb] s2(2)] s2(3) by auto
  have c: "tc_channel (tw_conn (TcpConnection_setState kDisconnected s)) = tc_channel (tw_conn s)"
    by (simp add: TcpConnection_setState_def)
  have "TcpConnection_handleClose ctl tid cb s = Some s3"
    using up s1(1) s2(1) s3(1) by (auto simp: TcpConnection_handleClose_def tc_inThread [OF b] c)
  with s3 show ?thesis by blast
qed

lemma TcpConnection_inv_input:
  assumes "TcpConnection_inv tid s" "Buffer_inv b"
  shows "TcpConnection_inv tid (s\<lparr>tw_conn := (tw_conn s)\<lparr>tc_inputBuffer := b\<rparr>\<rparr>)"
proof -
  obtain ch where "tc_base tid s ch" "tc_mode s ch" using assms(1) by (auto simp: TcpConnection_inv_def)
  with assms(2) show ?thesis
    by (auto simp: TcpConnection_inv_def tc_base_def tc_mode_def tc_chan_def split: conn_state.splits intro!: exI [of _ ch])
qed

lemma TcpConnection_inv_inThread: "TcpConnection_inv tid s \<Longrightarrow> EventLoop_assertInLoopThread tid (tw_loop s) = Some ()"
  by (auto simp: TcpConnection_inv_def intro: tc_inThread)

lemma TcpConnection_handleRead_spec:
  assumes k: "kernel_ok ctl" and cb: "cb_ok tid cb" and inv: "TcpConnection_inv tid s"
    and up: "tc_state (tw_conn s) \<noteq> kDisconnected"
  shows "\<exists>s'. TcpConnection_handleRead ctl tid cb readv t s = Some s' \<and> TcpConnection_inv tid s'"
proof -
  have bi: "Buffer_inv (tc_inputBuffer (tw_conn s))"
    using inv by (auto simp: TcpConnection_inv_def tc_base_def)
  show ?thesis
  proof (cases readv)
    case (Inl e)
    with inv show ?thesis
      by (simp add: TcpConnection_handleRead_def TcpConnection_inv_inThread Buffer_readFd_def TcpConnection_handleError_def)
  next
    case (Inr data)
    obtain b where b: "Buffer_readFd readv (tc_inputBuffer (tw_conn s)) = Some (int (length data), None, b)" "Buffer_inv b"
      using Buffer_readFd_spec [OF bi, of data] Inr by auto
    let ?s = "s\<lparr>tw_conn := (tw_conn s)\<lparr>tc_inputBuffer := b\<rparr>\<rparr>"
    have inv': "TcpConnection_inv tid ?s" by (rule TcpConnection_inv_input [OF inv b(2)])
    have "tc_state (tw_conn ?s) \<noteq> kDisconnected" using up by simp
    with inv' obtain ch where ch: "tc_base tid ?s ch" "tc_state (tw_conn ?s) \<in> {kConnected, kDisconnecting}"
      by (cases rule: TcpConnection_inv_cases) auto
    obtain s1 where "messageCallback cb t ?s = Some s1" "TcpConnection_inv tid s1"
      using cb_keepsD [OF cb_okD(2) [OF cb] inv'] by blast
    with TcpConnection_handleClose_spec [OF k cb ch] b(1) show ?thesis
      by (cases data) (auto simp: TcpConnection_handleRead_def TcpConnection_inv_inThread [OF inv] Let_def)
  qed
qed

lemma TcpConnection_inv_fin [simp]: "TcpConnection_inv tid (s\<lparr>tw_fin := x\<rparr>) = TcpConnection_inv tid s"
  by (simp add: TcpConnection_inv_def tc_base_def tc_mode_def tc_chan_def split: conn_state.split)

text \<open>The writing side is shut down exactly when no output is pending.\<close>

lemma TcpConnection_shutdownInLoop_spec:
  assumes inv: "TcpConnection_inv tid s"
  shows "\<exists>s'. TcpConnection_shutdownInLoop tid s = Some s' \<and> TcpConnection_inv tid s' \<and>
    tc_state (tw_conn s') = tc_state (tw_conn s) \<and> tw_sent s' = tw_sent s \<and>
    (tc_state (tw_conn s) \<noteq> kDisconnected \<longrightarrow>
      tw_fin s' = (if Buffer_content (tc_outputBuffer (tw_conn s)) = [] then Some (tw_sent s) else tw_fin s))"
  using inv
proof (cases rule: TcpConnection_inv_cases)
  case (down ch)
  then show ?thesis using inv
    by (simp add: TcpConnection_shutdownInLoop_def tc_inThread tc_base_chan)
next
  case (up ch)
  then have "tw_wire s @ Buffer_content (tc_outputBuffer (tw_conn s)) = tw_sent s" by (simp add: tc_base_def)
  with up inv show ?thesis
    by (auto simp: TcpConnection_shutdownInLoop_def tc_inThread tc_base_chan tc_mode_up)
qed

lemma TcpConnection_handleWrite_spec:
  assumes k: "kernel_ok ctl" and inv: "TcpConnection_inv tid s"
    and w: "write_ok (length (Buffer_content (tc_outputBuffer (tw_conn s)))) w"
  shows "\<exists>s'. TcpConnection_handleWrite ctl tid w s = Some s' \<and> TcpConnection_inv tid s' \<and>
    tc_state (tw_conn s') = tc_state (tw_conn s) \<and> tw_sent s' = tw_sent s \<and>
    (tw_fin s' = tw_fin s \<or> tw_fin s' = Some (tw_sent s))"
  using inv
proof (cases rule: TcpConnection_inv_cases)
  case (down ch)
  then have "\<not> Channel_isWriting ch" by (simp add: tc_mode_def Channel_isWriting_def)
  with down inv show ?thesis by (simp add: TcpConnection_handleWrite_def tc_inThread tc_base_chan)
next
  case (up ch)
  show ?thesis
  proof (cases "Channel_isWriting ch \<and> (\<exists>n. w = Inr n \<and> 0 < n)")
    case False
    with up(1) inv show ?thesis
      by (auto simp: TcpConnection_handleWrite_def tc_inThread tc_base_chan split: sum.splits)
  next
    case True
    then obtain n where n: "w = Inr n" "0 < n" by auto
    let ?out = "tc_outputBuffer (tw_conn s)"
    have bi: "Buffer_inv ?out" and ws: "tw_wire s @ Buffer_content ?out = tw_sent s" using up(1) by (simp_all add: tc_base_def)
    have le: "n \<le> length (Buffer_content ?out)" using w n by (simp add: write_ok_def)
    then obtain b where b: "Buffer_retrieve n ?out = Some b" using Buffer_retrieve_cases [OF bi, of n] by auto
    have b': "Buffer_inv b" "Buffer_content b = drop n (Buffer_content ?out)"
      using Buffer_retrieve_inv [OF bi b] Buffer_retrieve_content [OF bi b] by auto
    define s1 where "s1 = s\<lparr>tw_wire := tw_wire s @ take n (Buffer_content ?out), tw_conn := (tw_conn s)\<lparr>tc_outputBuffer := b\<rparr>\<rparr>"
    have base: "tc_base tid s1 ch"
      using up(1) b' ws by (auto simp: tc_base_def tc_chan_def s1_def)
    have s1: "tw_sent s1 = tw_sent s" "tw_fin s1 = tw_fin s" "tc_state (tw_conn s1) = tc_state (tw_conn s)"
        "Buffer_content (tc_outputBuffer (tw_conn s1)) = Buffer_content b" "tc_channel (tw_conn s1) = tc_channel (tw_conn s)"
      by (simp_all add: s1_def)
    show ?thesis
    proof (cases "Buffer_content b = []")
      case False
      then have "tc_mode s1 ch" using up(3) True s1 by (subst tc_mode_up) auto
      with base have "TcpConnection_inv tid s1" by (auto simp: TcpConnection_inv_def)
      moreover have "TcpConnection_handleWrite ctl tid w s = Some s1"
        using False True n b readable_zero [OF b'(1)] up(1)
        by (simp add: TcpConnection_handleWrite_def tc_inThread tc_base_chan s1_def)
      ultimately show ?thesis using s1 by auto
    next
      case empty: True
      have "small_events (ch_events (mask_events kWriteEvent ch))" using base by (simp add: tc_base_def)
      from tc_change_spec [OF k base, of "mask_events kWriteEvent", OF _ _ _ this]
      obtain l' ch' where u: "tc_on_loop (Channel_disableWriting ctl tid (tc_channel (tw_conn s1))) s1 = Some (s1\<lparr>tw_loop := l'\<rparr>)"
          "tc_base tid (s1\<lparr>tw_loop := l'\<rparr>) ch'" "ch_events ch' = ch_events (mask_events kWriteEvent ch)"
        unfolding Channel_disableWriting_def by auto
      have nw: "\<not> Channel_isWriting ch'" using u(3) isWriting_ops(2) [of ch] by (simp add: Channel_isWriting_def)
      let ?s2 = "if tc_writeCompleteCallback (tw_conn s1) then tc_queue tid WriteComplete (s1\<lparr>tw_loop := l'\<rparr>) else s1\<lparr>tw_loop := l'\<rparr>"
      have "tc_mode (s1\<lparr>tw_loop := l'\<rparr>) ch'" using up(3) nw empty s1 by (subst tc_mode_up) auto
      with u(2) have inv2: "TcpConnection_inv tid ?s2" by (auto simp: TcpConnection_inv_def)
      have "TcpConnection_handleWrite ctl tid w s =
          (if tc_state (tw_conn s) = kDisconnecting then TcpConnection_shutdownInLoop tid ?s2 else Some ?s2)"
        using empty True n b readable_zero [OF b'(1)] up(1) u(1) s1
        by (simp add: TcpConnection_handleWrite_def tc_inThread tc_base_chan s1_def)
      moreover have "tc_state (tw_conn ?s2) = tc_state (tw_conn s)" "tw_sent ?s2 = tw_sent s" "tw_fin ?s2 = tw_fin s"
          "Buffer_content (tc_outputBuffer (tw_conn ?s2)) = []"
        using s1 empty by simp_all
      ultimately show ?thesis
        using TcpConnection_shutdownInLoop_spec [OF inv2] inv2 by (auto split: if_splits)
    qed
  qed
qed

lemma TcpConnection_read_toggle:
  assumes k: "kernel_ok ctl" and inv: "TcpConnection_inv tid s" and up: "tc_state (tw_conn s) \<noteq> kDisconnected"
    and f: "f \<in> {or_events kReadEvent, mask_events kReadEvent}"
  shows "\<exists>l'. tc_on_loop (Channel_change ctl tid f (tc_channel (tw_conn s))) s = Some (s\<lparr>tw_loop := l'\<rparr>) \<and>
    TcpConnection_inv tid (s\<lparr>tw_loop := l', tw_conn := (tw_conn s)\<lparr>tc_reading := r\<rparr>\<rparr>)"
  using inv
proof (cases rule: TcpConnection_inv_cases)
  case (down ch)
  with up show ?thesis by simp
next
  case (up ch)
  have "small_events (ch_events (f ch))" using up(1) f by (auto simp: tc_base_def)
  moreover have "ch_fd (f ch) = ch_fd ch" "ch_index (f ch) = ch_index ch" "ch_loop (f ch) = ch_loop ch"
    using f by auto
  ultimately obtain l' ch' where u: "tc_on_loop (Channel_change ctl tid f (tc_channel (tw_conn s))) s = Some (s\<lparr>tw_loop := l'\<rparr>)"
      "tc_base tid (s\<lparr>tw_loop := l'\<rparr>) ch'" "ch_events ch' = ch_events (f ch)"
    using tc_change_spec [OF k up(1), of f] by auto
  have "Channel_isWriting ch' = Channel_isWriting ch"
    using u(3) f isWriting_ops(3,4) [of ch] by (auto simp: Channel_isWriting_def)
  moreover have "tc_base tid (s\<lparr>tw_loop := l', tw_conn := (tw_conn s)\<lparr>tc_reading := r\<rparr>\<rparr>) ch'"
    using u(2) by (simp add: tc_base_def tc_chan_def)
  ultimately have "TcpConnection_inv tid (s\<lparr>tw_loop := l', tw_conn := (tw_conn s)\<lparr>tc_reading := r\<rparr>\<rparr>)"
    unfolding TcpConnection_inv_def using up(2,3) by (intro exI [of _ ch']) (auto simp: tc_mode_up)
  with u(1) show ?thesis by blast
qed

lemma TcpConnection_startReadInLoop_spec:
  assumes k: "kernel_ok ctl" and inv: "TcpConnection_inv tid s" and up: "tc_state (tw_conn s) \<noteq> kDisconnected"
  shows "\<exists>s'. TcpConnection_startReadInLoop ctl tid s = Some s' \<and> TcpConnection_inv tid s' \<and> tw_sent s' = tw_sent s"
proof -
  obtain ch where "tc_chan s = Some ch" using inv by (auto simp: TcpConnection_inv_def tc_base_def)
  with TcpConnection_read_toggle [OF k inv up, of "or_events kReadEvent" True] inv show ?thesis
    by (auto simp: TcpConnection_startReadInLoop_def TcpConnection_inv_inThread Channel_enableReading_def)
qed

lemma TcpConnection_stopReadInLoop_spec:
  assumes k: "kernel_ok ctl" and inv: "TcpConnection_inv tid s" and up: "tc_state (tw_conn s) \<noteq> kDisconnected"
  shows "\<exists>s'. TcpConnection_stopReadInLoop ctl tid s = Some s' \<and> TcpConnection_inv tid s' \<and> tw_sent s' = tw_sent s"
proof -
  obtain ch where "tc_chan s = Some ch" using inv by (auto simp: TcpConnection_inv_def tc_base_def)
  with TcpConnection_read_toggle [OF k inv up, of "mask_events kReadEvent" False] inv show ?thesis
    by (auto simp: TcpConnection_stopReadInLoop_def TcpConnection_inv_inThread Channel_disableReading_def)
qed

lemma TcpConnection_inv_disconnecting:
  assumes "TcpConnection_inv tid s" "tc_state (tw_conn s) \<in> {kConnected, kDisconnecting}"
  shows "TcpConnection_inv tid (TcpConnection_setState kDisconnecting s)"
proof -
  obtain ch where ch: "tc_base tid s ch" "tc_mode s ch" using assms(1) by (auto simp: TcpConnection_inv_def)
  then have "tc_mode (TcpConnection_setState kDisconnecting s) ch"
    using assms(2) by (auto simp: tc_mode_def TcpConnection_setState_def)
  with ch(1) show ?thesis by (auto simp: TcpConnection_inv_def)
qed

lemma TcpConnection_forceCloseInLoop_spec:
  assumes k: "kernel_ok ctl" and cb: "cb_ok tid cb" and inv: "TcpConnection_inv tid s"
  shows "\<exists>s'. TcpConnection_forceCloseInLoop ctl tid cb s = Some s' \<and> TcpConnection_inv tid s' \<and>
    tc_state (tw_conn s') = kDisconnected"
  using inv
proof (cases rule: TcpConnection_inv_cases)
  case (down ch)
  with inv show ?thesis by (simp add: TcpConnection_forceCloseInLoop_def tc_inThread)
next
  case (up ch)
  with TcpConnection_handleClose_spec [OF k cb up(1,3)] show ?thesis
    by (auto simp: TcpConnection_forceCloseInLoop_def tc_inThread)
qed

section \<open>Runs\<close>

text \<open>
  The operations of a connection between \<^verbatim>\<open>connectEstablished\<close> and \<^verbatim>\<open>connectDestroyed\<close>, as the
  loop's thread performs them: the user's calls, the events the loop dispatches, and the
  deferred calls it runs.
\<close>

datatype conn_op =
    Send string "int + nat"
  | Shutdown
  | ForceClose
  | StartRead
  | StopRead
  | ReadEvent "int + string" int
  | WriteEvent "int + nat"
  | Deferred conn_functor "int + nat"

fun conn_exec :: "epoll_ctl \<Rightarrow> int \<Rightarrow> tcp_callbacks \<Rightarrow> conn_op \<Rightarrow> tcpworld \<Rightarrow> tcpworld option" where
  "conn_exec ctl tid cb (Send message w) s = TcpConnection_send ctl tid w message s"
| "conn_exec ctl tid cb Shutdown s = TcpConnection_shutdown tid s"
| "conn_exec ctl tid cb ForceClose s = TcpConnection_forceClose tid s"
| "conn_exec ctl tid cb StartRead s = TcpConnection_startRead ctl tid s"
| "conn_exec ctl tid cb StopRead s = TcpConnection_stopRead ctl tid s"
| "conn_exec ctl tid cb (ReadEvent readv t) s = TcpConnection_handleRead ctl tid cb readv t s"
| "conn_exec ctl tid cb (WriteEvent w) s = TcpConnection_handleWrite ctl tid w s"
| "conn_exec ctl tid cb (Deferred f w) s = TcpConnection_call ctl tid cb w f s"

text \<open>
  What the environment respects: a write takes no more than it was given; no read event is
  dispatched, and reading is not switched, on a connection that is down.
\<close>

fun conn_legal :: "conn_op \<Rightarrow> tcpworld \<Rightarrow> bool" where
  "conn_legal (Send message w) s = write_ok (length message) w"
| "conn_legal (WriteEvent w) s = write_ok (length (Buffer_content (tc_outputBuffer (tw_conn s)))) w"
| "conn_legal (ReadEvent readv t) s = (tc_state (tw_conn s) \<noteq> kDisconnected)"
| "conn_legal StartRead s = (tc_state (tw_conn s) \<noteq> kDisconnected)"
| "conn_legal StopRead s = (tc_state (tw_conn s) \<noteq> kDisconnected)"
| "conn_legal (Deferred (SendInLoop message) w) s = write_ok (length message) w"
| "conn_legal (Deferred StartReadInLoop w) s = (tc_state (tw_conn s) \<noteq> kDisconnected)"
| "conn_legal (Deferred StopReadInLoop w) s = (tc_state (tw_conn s) \<noteq> kDisconnected)"
| "conn_legal (Deferred ConnectDestroyed w) s = False"
| "conn_legal _ s = True"

fun conn_run :: "epoll_ctl \<Rightarrow> int \<Rightarrow> tcp_callbacks \<Rightarrow> conn_op list \<Rightarrow> tcpworld \<Rightarrow> tcpworld option" where
  "conn_run ctl tid cb [] s = Some s"
| "conn_run ctl tid cb (x # xs) s = do { s \<leftarrow> conn_exec ctl tid cb x s; conn_run ctl tid cb xs s }"

fun conn_legal_run :: "epoll_ctl \<Rightarrow> int \<Rightarrow> tcp_callbacks \<Rightarrow> conn_op list \<Rightarrow> tcpworld \<Rightarrow> bool" where
  "conn_legal_run ctl tid cb [] s = True"
| "conn_legal_run ctl tid cb (x # xs) s \<longleftrightarrow>
     conn_legal x s \<and> (case conn_exec ctl tid cb x s of None \<Rightarrow> True | Some s' \<Rightarrow> conn_legal_run ctl tid cb xs s')"

lemma TcpConnection_inLoop: "TcpConnection_inv tid s \<Longrightarrow> EventLoop_isInLoopThread tid (tw_loop s)"
  by (auto simp: TcpConnection_inv_def tc_base_def EventLoop_isInLoopThread_def)

lemma TcpConnection_shutdown_spec:
  assumes inv: "TcpConnection_inv tid s"
  shows "\<exists>s'. TcpConnection_shutdown tid s = Some s' \<and> TcpConnection_inv tid s' \<and> tw_sent s' = tw_sent s \<and>
    (tc_state (tw_conn s) = kConnected \<longrightarrow> tc_state (tw_conn s') = kDisconnecting \<and>
      tw_fin s' = (if Buffer_content (tc_outputBuffer (tw_conn s)) = [] then Some (tw_sent s) else tw_fin s))"
proof (cases "tc_state (tw_conn s) = kConnected")
  case True
  let ?s = "TcpConnection_setState kDisconnecting s"
  have inv': "TcpConnection_inv tid ?s" by (rule TcpConnection_inv_disconnecting [OF inv]) (simp add: True)
  with TcpConnection_shutdownInLoop_spec [OF inv'] TcpConnection_inLoop [OF inv'] True
  show ?thesis by (simp add: TcpConnection_shutdown_def) (auto simp: TcpConnection_setState_def)
qed (use inv in \<open>simp add: TcpConnection_shutdown_def\<close>)

lemma conn_call_spec:
  assumes k: "kernel_ok ctl" and cb: "cb_ok tid cb" and inv: "TcpConnection_inv tid s" and lg: "conn_legal (Deferred f w) s"
  shows "\<exists>s'. TcpConnection_call ctl tid cb w f s = Some s' \<and> TcpConnection_inv tid s'"
proof (cases f)
  case (SendInLoop m)
  with lg TcpConnection_sendInLoop_spec [OF k inv, of m w] show ?thesis by auto
next
  case ShutdownInLoop
  with TcpConnection_shutdownInLoop_spec [OF inv] show ?thesis by auto
next
  case ForceCloseInLoop
  with TcpConnection_forceCloseInLoop_spec [OF k cb inv] show ?thesis by auto
next
  case StartReadInLoop
  with lg TcpConnection_startReadInLoop_spec [OF k inv] show ?thesis by auto
next
  case StopReadInLoop
  with lg TcpConnection_stopReadInLoop_spec [OF k inv] show ?thesis by auto
next
  case WriteComplete
  with cb_keepsD [OF cb_okD(4) [OF cb] inv] show ?thesis by auto
next
  case (HighWaterMark n)
  with cb_keepsD [OF cb_okD(5) [OF cb] inv] show ?thesis by auto
qed (use lg in simp)

lemma conn_exec_spec:
  assumes k: "kernel_ok ctl" and cb: "cb_ok tid cb" and inv: "TcpConnection_inv tid s" and lg: "conn_legal x s"
  shows "\<exists>s'. conn_exec ctl tid cb x s = Some s' \<and> TcpConnection_inv tid s'"
proof (cases x)
  case (Send m w)
  with lg TcpConnection_sendInLoop_spec [OF k inv, of m w] inv TcpConnection_inLoop [OF inv] show ?thesis
    by (auto simp: TcpConnection_send_def)
next
  case Shutdown
  with TcpConnection_shutdown_spec [OF inv] show ?thesis by auto
next
  case ForceClose
  with inv TcpConnection_inv_disconnecting [OF inv] show ?thesis by (auto simp: TcpConnection_forceClose_def)
next
  case StartRead
  with lg TcpConnection_startReadInLoop_spec [OF k inv] TcpConnection_inLoop [OF inv] show ?thesis
    by (auto simp: TcpConnection_startRead_def)
next
  case StopRead
  with lg TcpConnection_stopReadInLoop_spec [OF k inv] TcpConnection_inLoop [OF inv] show ?thesis
    by (auto simp: TcpConnection_stopRead_def)
next
  case (ReadEvent readv t)
  with lg TcpConnection_handleRead_spec [OF k cb inv] show ?thesis by auto
next
  case (WriteEvent w)
  with lg TcpConnection_handleWrite_spec [OF k inv] show ?thesis by auto
next
  case (Deferred f w)
  with lg conn_call_spec [OF k cb inv] show ?thesis by auto
qed

lemma conn_run_spec:
  assumes k: "kernel_ok ctl" and cb: "cb_ok tid cb"
  shows "TcpConnection_inv tid s \<Longrightarrow> conn_legal_run ctl tid cb xs s \<Longrightarrow>
    \<exists>s'. conn_run ctl tid cb xs s = Some s' \<and> TcpConnection_inv tid s'"
proof (induction xs arbitrary: s)
  case (Cons x xs)
  then obtain s' where "conn_exec ctl tid cb x s = Some s'" "TcpConnection_inv tid s'"
    using conn_exec_spec [OF k cb] by fastforce
  with Cons show ?case by auto
qed simp

section \<open>Establishing and destroying\<close>

lemma any_inv_alloc:
  assumes inv: "any_inv h p" and "h a = None"
  shows "any_inv (h(a \<mapsto> c)) p"
proof (cases p)
  case (AnyEPoll q)
  have "EPoller_inv (h(a \<mapsto> c)) q"
    unfolding EPoller_inv_def
  proof
    fix fd
    show "case pl_channels q fd of None \<Rightarrow> interest (ep_history q) fd = None
        | Some b \<Rightarrow> \<exists>d. (h(a \<mapsto> c)) b = Some d \<and> ch_fd d = fd \<and> entry_ok d b (interest (ep_history q) fd)"
      using EPoller_inv_known [of h q fd] EPoller_inv_unknown [of h q fd] inv AnyEPoll assms(2)
      by (auto split: option.splits)
  qed
  with AnyEPoll show ?thesis by simp
next
  case (AnyPoll q)
  then have i: "PollPoller_inv h q" using inv by simp
  have "PollPoller_inv (h(a \<mapsto> c)) q"
    unfolding PollPoller_inv_def
  proof (intro conjI allI impI ballI)
    fix fd b assume "pl_channels q fd = Some b"
    with PollPoller_inv_known [OF i] assms(2)
    show "\<exists>d. (h(a \<mapsto> c)) b = Some d \<and> ch_fd d = fd \<and> slot_of (pp_pollfds q) d" by fastforce
  next
    fix j assume "j < length (pp_pollfds q)"
    with PollPoller_inv_slot [OF i] assms(2)
    show "\<exists>b d. pl_channels q (owner (pp_pollfds q ! j)) = Some b \<and> (h(a \<mapsto> c)) b = Some d \<and> ch_index d = int j"
      by fastforce
  qed (rule PollPoller_inv_ignored [OF i])
  with AnyPoll show ?thesis by simp
qed

lemma Channel_tie_fields [simp]:
  "ch_fd (Channel_tie c) = ch_fd c" "ch_index (Channel_tie c) = ch_index c" "ch_loop (Channel_tie c) = ch_loop c"
  "ch_events (Channel_tie c) = ch_events c"
  by (simp_all add: Channel_tie_def)

lemma Channel_new_fields [simp]:
  "ch_fd (Channel_new l fd) = fd" "ch_index (Channel_new l fd) = - 1" "ch_loop (Channel_new l fd) = l"
  "ch_events (Channel_new l fd) = 0"
  by (simp_all add: Channel_new_def)

text \<open>A new connection on a free descriptor comes up in order.\<close>

lemma TcpConnection_establish_up:
  assumes k: "kernel_ok ctl" and l: "EventLoop_inv l" "el_threadId l = tid"
    and a: "el_heap l a = None" and fd: "0 \<le> sockfd" "any_channels (el_poller l) sockfd = None"
    and new: "TcpConnection_new l a sockfd = Some s0"
  shows "\<exists>s ch. TcpConnection_connectEstablished ctl tid cb s0 = connectionCallback cb s \<and> TcpConnection_inv tid s \<and>
    tc_state (tw_conn s) = kConnected \<and> Buffer_content (tc_outputBuffer (tw_conn s)) = [] \<and>
    el_eventHandling (tw_loop s) = el_eventHandling l \<and> tc_chan s = Some ch \<and> Channel_isReading ch"
proof -
  define c where "c = Channel_tie (Channel_new (el_self l) sockfd)"
  define l1 where "l1 = l\<lparr>el_heap := (el_heap l)(a \<mapsto> c)\<rparr>"
  define s1 where "s1 = (TcpConnection_setState kConnected s0)\<lparr>tw_loop := l1\<rparr>"
  have s0: "tc_channel (tw_conn s0) = a" "tw_wire s0 = []" "tw_sent s0 = []" "tc_state (tw_conn s0) = kConnecting"
      "Buffer_inv (tc_inputBuffer (tw_conn s0))" "Buffer_inv (tc_outputBuffer (tw_conn s0))"
      "Buffer_content (tc_outputBuffer (tw_conn s0)) = []"
      "tw_loop s0 = l\<lparr>el_heap := (el_heap l)(a \<mapsto> Channel_new (el_self l) sockfd)\<rparr>"
    using new Buffer_new_spec [of kInitialSize] by (auto simp: TcpConnection_new_def Option.bind_eq_Some_conv)
  have tie: "tc_tie (TcpConnection_setState kConnected s0) = Some s1"
    using s0 by (simp add: tc_tie_def tc_chan_def TcpConnection_setState_def s1_def l1_def c_def)
  have inv1: "EventLoop_inv l1" "el_threadId l1 = tid"
    using l a any_inv_alloc [of "el_heap l" "el_poller l" a c] by (simp_all add: EventLoop_inv_def l1_def)
  have c1: "el_heap l1 a = Some c" "ch_loop c = el_self l1" "ch_fd c = sockfd" "ch_events c = 0" "ch_index c = - 1"
    by (simp_all add: l1_def c_def)
  have ev: "small_events (ch_events (or_events kReadEvent c))"
    using small_events_ops(1) [OF small_events_ops(4)] c1 by simp
  have "chan_ok (or_events kReadEvent c)"
    using fd(1) c1 small_events_bound [OF ev] by (simp add: chan_ok_def)
  then have "\<exists>l' i. Channel_change ctl tid (or_events kReadEvent) a l1 = Some l' \<and> EventLoop_inv l' \<and> only_poller l1 l' \<and>
      el_heap l' a = Some (Channel_set_index i ((or_events kReadEvent c)\<lparr>ch_addedToLoop := True\<rparr>)) \<and>
      any_channels (el_poller l') = (any_channels (el_poller l1))(ch_fd c \<mapsto> a)"
    using Channel_change_spec [OF k inv1 c1(1,2), of "or_events kReadEvent"] c1 fd(2) by (auto simp: l1_def)
  then obtain l' i where u: "Channel_change ctl tid (or_events kReadEvent) a l1 = Some l'" "EventLoop_inv l'" "only_poller l1 l'"
      "el_heap l' a = Some (Channel_set_index i ((or_events kReadEvent c)\<lparr>ch_addedToLoop := True\<rparr>))"
      "any_channels (el_poller l') = (any_channels (el_poller l1))(ch_fd c \<mapsto> a)"
    by blast
  let ?ch = "Channel_set_index i ((or_events kReadEvent c)\<lparr>ch_addedToLoop := True\<rparr>)" and ?s = "s1\<lparr>tw_loop := l'\<rparr>"
  have s1: "tw_conn s1 = (tw_conn s0)\<lparr>tc_state := kConnected\<rparr>" "tw_wire s1 = []" "tw_sent s1 = []" "tw_loop s1 = l1"
    using s0 by (simp_all add: s1_def TcpConnection_setState_def)
  have "tc_base tid ?s ?ch"
    using u s0 s1 c1 fd(1) ev only_poller_simps [OF u(3)] inv1 by (simp add: tc_base_def tc_chan_def)
  moreover have "\<not> Channel_isWriting ?ch"
    using c1(4) isWriting_ops(3) [of c] by (simp add: Channel_isWriting_def)
  then have "tc_mode ?s ?ch" using s0 s1 by (simp add: tc_mode_def)
  ultimately have inv: "TcpConnection_inv tid ?s" by (auto simp: TcpConnection_inv_def)
  have thread: "EventLoop_assertInLoopThread tid (tw_loop s0) = Some ()"
    using s0(8) l(2) by (simp add: EventLoop_assertInLoopThread_def EventLoop_isInLoopThread_def)
  have en: "tc_on_loop (Channel_enableReading ctl tid (tc_channel (tw_conn s1))) s1 = Some ?s"
    using u(1) s0 s1 by (simp add: tc_on_loop_def Channel_enableReading_def)
  have "TcpConnection_connectEstablished ctl tid cb s0 = connectionCallback cb ?s"
    using thread s0(4) tie en by (simp add: TcpConnection_connectEstablished_def)
  moreover have "Channel_isReading ?ch"
    using isReading_ops(1) [of c] by (simp add: Channel_isReading_def)
  moreover have "el_eventHandling l' = el_eventHandling l" using only_poller_simps [OF u(3)] by (simp add: l1_def)
  moreover have "tc_chan ?s = Some ?ch" using u(4) s0 s1 by (simp add: tc_chan_def)
  ultimately show ?thesis using inv s0 s1 by (intro exI [of _ ?s] exI [of _ ?ch]) simp
qed

lemma TcpConnection_establish_spec:
  assumes k: "kernel_ok ctl" and cb: "cb_ok tid cb" and l: "EventLoop_inv l" "el_threadId l = tid"
    and a: "el_heap l a = None" and fd: "0 \<le> sockfd" "any_channels (el_poller l) sockfd = None"
    and new: "TcpConnection_new l a sockfd = Some s0"
  shows "\<exists>s. TcpConnection_connectEstablished ctl tid cb s0 = Some s \<and> TcpConnection_inv tid s"
proof -
  obtain s where s: "TcpConnection_connectEstablished ctl tid cb s0 = connectionCallback cb s" "TcpConnection_inv tid s"
    using TcpConnection_establish_up [OF k l a fd new] by blast
  with cb_keepsD [OF cb_okD(1) [OF cb] s(2)] show ?thesis by auto
qed

text \<open>The deferred \<^verbatim>\<open>connectDestroyed\<close> that \<^verbatim>\<open>removeConnection\<close> queues after the close.\<close>

lemma TcpConnection_connectDestroyed_spec:
  assumes k: "kernel_ok ctl" and inv: "TcpConnection_inv tid s" and down: "tc_state (tw_conn s) = kDisconnected"
    and idle: "\<not> el_eventHandling (tw_loop s)"
  shows "\<exists>s' ch. TcpConnection_connectDestroyed ctl tid cb s = Some s' \<and> tc_chan s = Some ch \<and>
    any_channels (el_poller (tw_loop s')) (ch_fd ch) = None \<and> any_watched (el_poller (tw_loop s')) (ch_fd ch) = None"
proof -
  obtain ch where ch: "tc_base tid s ch" "tc_mode s ch" using inv by (auto simp: TcpConnection_inv_def)
  then have b: "EventLoop_inv (tw_loop s)" "el_threadId (tw_loop s) = tid" "el_heap (tw_loop s) (tc_channel (tw_conn s)) = Some ch"
      "ch_loop ch = el_self (tw_loop s)" "0 \<le> ch_fd ch" "ch_events ch = 0"
      "any_channels (el_poller (tw_loop s)) (ch_fd ch) = Some (tc_channel (tw_conn s))"
      "any_quiet (el_heap (tw_loop s)) (el_poller (tw_loop s)) (ch_fd ch)"
    using down by (simp_all add: tc_base_def tc_mode_def tc_chan_def)
  from Channel_remove_spec [OF k b] idle obtain l' where
    "Channel_remove ctl tid (tc_channel (tw_conn s)) (tw_loop s) = Some l'"
    "any_channels (el_poller l') = (any_channels (el_poller (tw_loop s)))(ch_fd ch := None)"
    "any_watched (el_poller l') = (any_watched (el_poller (tw_loop s)))(ch_fd ch := None)"
    by blast
  with down show ?thesis
    by (simp add: TcpConnection_connectDestroyed_def tc_inThread [OF ch(1)] tc_base_chan [OF ch(1)] tc_on_loop_def)
qed

text \<open>
  The channel is out of the poller, and the destructor of the connection passes. A connection that is up is
  brought down first.
\<close>

definition conn_gone :: "tcpworld \<Rightarrow> bool" where
  "conn_gone s \<longleftrightarrow>
     TcpConnection_destroy s = Some () \<and>
     (\<forall>ch. tc_chan s = Some ch \<longrightarrow>
        any_channels (el_poller (tw_loop s)) (ch_fd ch) = None \<and> any_watched (el_poller (tw_loop s)) (ch_fd ch) = None)"

lemma TcpConnection_connectDestroyed_down:
  assumes k: "kernel_ok ctl" and inv: "TcpConnection_inv tid s" and down: "tc_state (tw_conn s) = kDisconnected"
    and idle: "\<not> el_eventHandling (tw_loop s)"
  shows "\<exists>s'. TcpConnection_connectDestroyed ctl tid cb s = Some s' \<and> conn_gone s'"
proof -
  obtain ch where ch: "tc_base tid s ch" "tc_mode s ch" using inv by (auto simp: TcpConnection_inv_def)
  then have b: "EventLoop_inv (tw_loop s)" "el_threadId (tw_loop s) = tid" "el_heap (tw_loop s) (tc_channel (tw_conn s)) = Some ch"
      "ch_loop ch = el_self (tw_loop s)" "0 \<le> ch_fd ch" "ch_events ch = 0"
      "any_channels (el_poller (tw_loop s)) (ch_fd ch) = Some (tc_channel (tw_conn s))"
      "any_quiet (el_heap (tw_loop s)) (el_poller (tw_loop s)) (ch_fd ch)"
    using down by (simp_all add: tc_base_def tc_mode_def tc_chan_def)
  from Channel_remove_spec [OF k b] idle obtain l' i where
    "Channel_remove ctl tid (tc_channel (tw_conn s)) (tw_loop s) = Some l'"
    "el_heap l' (tc_channel (tw_conn s)) = Some (Channel_set_index i (ch\<lparr>ch_addedToLoop := False\<rparr>))"
    "any_channels (el_poller l') = (any_channels (el_poller (tw_loop s)))(ch_fd ch := None)"
    "any_watched (el_poller l') = (any_watched (el_poller (tw_loop s)))(ch_fd ch := None)"
    by blast
  with down show ?thesis
    by (simp add: TcpConnection_connectDestroyed_def tc_inThread [OF ch(1)] tc_on_loop_def conn_gone_def
        TcpConnection_destroy_def tc_chan_def)
qed

lemma TcpConnection_connectDestroyed_up:
  assumes k: "kernel_ok ctl" and cb: "cb_ok tid cb" and inv: "TcpConnection_inv tid s"
    and up: "tc_state (tw_conn s) = kConnected" and idle: "\<not> el_eventHandling (tw_loop s)"
    and keeps: "\<And>s s'. connectionCallback cb s = Some s' \<Longrightarrow> el_eventHandling (tw_loop s') = el_eventHandling (tw_loop s)"
  shows "\<exists>s'. TcpConnection_connectDestroyed ctl tid cb s = Some s' \<and> conn_gone s'"
proof -
  obtain ch where ch: "tc_base tid s ch" using inv by (auto simp: TcpConnection_inv_def)
  obtain s1 where s1: "tc_on_loop (Channel_disableAll ctl tid (tc_channel (tw_conn s))) (TcpConnection_setState kDisconnected s) = Some s1"
      "TcpConnection_inv tid s1" "tc_state (tw_conn s1) = kDisconnected" "el_eventHandling (tw_loop s1) = el_eventHandling (tw_loop s)"
    using tc_down_spec [OF k ch] by blast
  obtain s2 where s2: "connectionCallback cb s1 = Some s2" "TcpConnection_inv tid s2" "tc_state (tw_conn s2) = kDisconnected"
    using cb_keepsD [OF cb_okD(1) [OF cb] s1(2)] s1(3) by auto
  have "\<not> el_eventHandling (tw_loop s2)" using keeps [OF s2(1)] s1(4) idle by simp
  from TcpConnection_connectDestroyed_down [OF k s2(2,3) this, of cb] obtain s' where
    s': "TcpConnection_connectDestroyed ctl tid cb s2 = Some s'" "conn_gone s'" by blast
  have c: "tc_channel (tw_conn (TcpConnection_setState kDisconnected s)) = tc_channel (tw_conn s)"
    by (simp add: TcpConnection_setState_def)
  have "TcpConnection_connectDestroyed ctl tid cb s = TcpConnection_connectDestroyed ctl tid cb s2"
    using up s1(1) s2(1,3) TcpConnection_inv_inThread [OF s2(2)]
    by (simp add: TcpConnection_connectDestroyed_def tc_inThread [OF ch] c)
  with s' show ?thesis by auto
qed

lemma TcpConnection_inv_facts:
  assumes "TcpConnection_inv tid s"
  shows "tw_wire s @ Buffer_content (tc_outputBuffer (tw_conn s)) = tw_sent s"
    and "\<exists>ch. tc_chan s = Some ch \<and> (tc_state (tw_conn s) \<noteq> kDisconnected \<longrightarrow>
      (Channel_isWriting ch \<longleftrightarrow> Buffer_content (tc_outputBuffer (tw_conn s)) \<noteq> []))"
  using assms by (cases rule: TcpConnection_inv_cases; auto simp: tc_base_def tc_mode_up)+

text \<open>
  C1. A connection established on a free descriptor of a well-formed loop, driven by any sequence
  of sends, shutdowns, forced closes, read switches, read and write events and deferred calls in
  the loop's thread, with arbitrary results of the system calls: no assertion fails and no
  operation aborts. No read event comes to a connection that is down, and reading is not switched on it;
  the callbacks keep the connection in order. At the end the connection is in order again, the bytes
  the kernel took followed by the pending output are exactly the bytes taken charge of, and while the
  connection is up, its channel asks for writability exactly when output is pending. If the connection is then
  closed or still fully connected, \<^verbatim>\<open>connectDestroyed\<close> run by the loop outside the handling of events
  succeeds, takes the channel out of the poller, and the destructor passes its assertion.
\<close>

theorem TcpConnection_run_safe:
  assumes "kernel_ok ctl" "cb_ok tid cb" "EventLoop_inv l" "el_threadId l = tid"
    and "el_heap l a = None" "0 \<le> sockfd" "any_channels (el_poller l) sockfd = None"
    and "TcpConnection_new l a sockfd = Some s0"
    and "\<forall>s1. TcpConnection_connectEstablished ctl tid cb s0 = Some s1 \<longrightarrow> conn_legal_run ctl tid cb xs s1"
    and "\<forall>s s'. connectionCallback cb s = Some s' \<longrightarrow> el_eventHandling (tw_loop s') = el_eventHandling (tw_loop s)"
  shows "\<exists>s1 s ch. TcpConnection_connectEstablished ctl tid cb s0 = Some s1 \<and> conn_run ctl tid cb xs s1 = Some s \<and>
    TcpConnection_inv tid s \<and>
    tw_wire s @ Buffer_content (tc_outputBuffer (tw_conn s)) = tw_sent s \<and> tc_chan s = Some ch \<and>
    (tc_state (tw_conn s) \<noteq> kDisconnected \<longrightarrow>
      (Channel_isWriting ch \<longleftrightarrow> Buffer_content (tc_outputBuffer (tw_conn s)) \<noteq> [])) \<and>
    (tc_state (tw_conn s) \<in> {kDisconnected, kConnected} \<and> \<not> el_eventHandling (tw_loop s) \<longrightarrow>
      (\<exists>s2. TcpConnection_connectDestroyed ctl tid cb s = Some s2 \<and> conn_gone s2))"
proof -
  obtain s1 where s1: "TcpConnection_connectEstablished ctl tid cb s0 = Some s1" "TcpConnection_inv tid s1"
    using TcpConnection_establish_spec [OF assms(1-8)] by blast
  with conn_run_spec [OF assms(1,2)] assms(9) obtain s where "conn_run ctl tid cb xs s1 = Some s" "TcpConnection_inv tid s"
    by blast
  moreover from this have "tc_state (tw_conn s) \<in> {kDisconnected, kConnected} \<and> \<not> el_eventHandling (tw_loop s) \<longrightarrow>
      (\<exists>s2. TcpConnection_connectDestroyed ctl tid cb s = Some s2 \<and> conn_gone s2)"
    using TcpConnection_connectDestroyed_down [OF assms(1), of tid s cb] assms(10)
      TcpConnection_connectDestroyed_up [OF assms(1,2), of s] by blast
  ultimately show ?thesis using s1(1) TcpConnection_inv_facts [of tid s] by blast
qed

definition default_callbacks :: tcp_callbacks where
  "default_callbacks = \<lparr>connectionCallback = defaultConnectionCallback, messageCallback = defaultMessageCallback,
     tcpCloseCallback = Some, writeCompleteCallback = Some, highWaterMarkCallback = (\<lambda>n. Some)\<rparr>"

lemma default_callbacks_ok: "cb_ok tid default_callbacks"
  by (auto simp: cb_ok_def cb_keeps_def default_callbacks_def defaultConnectionCallback_def defaultMessageCallback_def
      TcpConnection_inv_def [symmetric] intro!: TcpConnection_inv_input inv_intros)
    (auto simp: TcpConnection_inv_def tc_base_def)

definition example_conn_loop :: "conn_functor eventloop" where
  "example_conn_loop = \<lparr>el_self = 1, el_looping = False, el_quit = False, el_eventHandling = False,
     el_callingPendingFunctors = False, el_iteration = 0, el_threadId = 7, el_poller = AnyPoll (PollPoller_new 7),
     el_heap = (\<lambda>_. None), el_wakeupChannel = 2, el_wakeupCount = 0, el_activeChannels = [],
     el_currentActiveChannel = None, el_pendingFunctors = []\<rparr>"

lemma example_conn_loop_facts:
  "EventLoop_inv example_conn_loop" "el_threadId example_conn_loop = 7" "el_heap example_conn_loop a = None"
  "any_channels (el_poller example_conn_loop) fd = None"
  using PollPoller_inv_new by (simp_all add: example_conn_loop_def EventLoop_inv_def PollPoller_new_def)

lemma conn_legal_always: "(\<forall>x \<in> set xs. \<forall>s. conn_legal x s) \<Longrightarrow> conn_legal_run ctl tid cb xs s"
  by (induction xs arbitrary: s) (auto split: option.splits)

lemma TcpConnection_new_Some: "\<exists>s0. TcpConnection_new l a fd = Some s0"
  using Buffer_new_spec [of kInitialSize] by (auto simp: TcpConnection_new_def)

lemma example_up:
  "\<exists>s ch. TcpConnection_inv 7 s \<and> tc_state (tw_conn s) = kConnected \<and>
     Buffer_content (tc_outputBuffer (tw_conn s)) = [] \<and> \<not> el_eventHandling (tw_loop s) \<and>
     tc_chan s = Some ch \<and> Channel_isReading ch"
proof -
  obtain s0 where s0: "TcpConnection_new example_conn_loop 10 5 = Some s0" using TcpConnection_new_Some by blast
  from TcpConnection_establish_up [OF kernel_ok_table_ctl example_conn_loop_facts(1,2,3) _
      example_conn_loop_facts(4) s0]
  show ?thesis by (fastforce simp: example_conn_loop_def)
qed

definition example_conn_ops :: "conn_op list" where
  "example_conn_ops = [Send ''hello'' (Inr 2), WriteEvent (Inl EWOULDBLOCK), Send '' world'' (Inr 6), Shutdown]"

lemma example_conn_legal: "conn_legal_run ctl tid cb example_conn_ops s"
  by (rule conn_legal_always) (auto simp: example_conn_ops_def write_ok_def)

theorem TcpConnection_run_safe_witness:
  "\<exists>s0 s1 s. TcpConnection_new example_conn_loop 10 5 = Some s0 \<and>
     TcpConnection_connectEstablished table_ctl 7 default_callbacks s0 = Some s1 \<and>
     conn_run table_ctl 7 default_callbacks example_conn_ops s1 = Some s \<and>
     tw_wire s @ Buffer_content (tc_outputBuffer (tw_conn s)) = tw_sent s"
proof -
  obtain s0 where s0: "TcpConnection_new example_conn_loop 10 5 = Some s0" using TcpConnection_new_Some by blast
  from TcpConnection_run_safe [OF kernel_ok_table_ctl default_callbacks_ok example_conn_loop_facts(1,2,3) _
      example_conn_loop_facts(4) s0] example_conn_legal s0
  show ?thesis by (fastforce simp: default_callbacks_def defaultConnectionCallback_def)
qed

text \<open>
  C7. Half-close only after everything was written: on a connection that is up, \<^verbatim>\<open>shutdown()\<close> and a
  write event leave either the record of the half-close as it was, or one that shows that all
  bytes taken charge of had reached the kernel when the writing side was shut down. A
  \<^verbatim>\<open>shutdown()\<close> with nothing pending half-closes at once.
\<close>

theorem TcpConnection_fin_after_flush:
  assumes "kernel_ok ctl" "TcpConnection_inv tid s" "tc_state (tw_conn s) = kConnected"
    and "write_ok (length (Buffer_content (tc_outputBuffer (tw_conn s')))) w"
    and "TcpConnection_shutdown tid s = Some s'"
  shows "(if Buffer_content (tc_outputBuffer (tw_conn s)) = [] then tw_fin s' = Some (tw_sent s) else tw_fin s' = tw_fin s) \<and>
    (\<exists>s''. TcpConnection_handleWrite ctl tid w s' = Some s'' \<and> tw_sent s'' = tw_sent s \<and>
      (tw_fin s'' = tw_fin s' \<or> tw_fin s'' = Some (tw_sent s'')))"
proof -
  have s': "TcpConnection_inv tid s'" "tw_sent s' = tw_sent s"
      "tw_fin s' = (if Buffer_content (tc_outputBuffer (tw_conn s)) = [] then Some (tw_sent s) else tw_fin s)"
    using TcpConnection_shutdown_spec [OF assms(2)] assms(3,5) by auto
  with TcpConnection_handleWrite_spec [OF assms(1) s'(1) assms(4)] show ?thesis by auto
qed

theorem TcpConnection_fin_after_flush_witness:
  "\<exists>s s' s''. tc_state (tw_conn s) = kConnected \<and> TcpConnection_shutdown 7 s = Some s' \<and> tw_fin s' = Some (tw_sent s) \<and>
     TcpConnection_handleWrite table_ctl 7 (Inl EWOULDBLOCK) s' = Some s''"
proof -
  obtain s where s: "TcpConnection_inv 7 s" "tc_state (tw_conn s) = kConnected"
      "Buffer_content (tc_outputBuffer (tw_conn s)) = []"
    using example_up by blast
  then obtain s' where s': "TcpConnection_shutdown 7 s = Some s'" using TcpConnection_shutdown_spec by blast
  from TcpConnection_fin_after_flush [OF kernel_ok_table_ctl s(1,2) _ s', of "Inl EWOULDBLOCK"] s s'
  show ?thesis by (fastforce simp: write_ok_def)
qed

text \<open>
  After the close, \<^verbatim>\<open>connectDestroyed\<close> removes the channel without failing an assertion, and the
  poller neither knows nor watches the descriptor any more.
\<close>

theorem TcpConnection_connectDestroyed_ok:
  assumes "kernel_ok ctl" "cb_ok tid cb" "TcpConnection_inv tid s" "tc_state (tw_conn s) \<noteq> kDisconnected"
    and "TcpConnection_forceCloseInLoop ctl tid cb s = Some s'" "\<not> el_eventHandling (tw_loop s')"
  shows "\<exists>s'' ch. TcpConnection_connectDestroyed ctl tid cb s' = Some s'' \<and> tc_chan s' = Some ch \<and>
    any_channels (el_poller (tw_loop s'')) (ch_fd ch) = None \<and> any_watched (el_poller (tw_loop s'')) (ch_fd ch) = None \<and>
    TcpConnection_destroy s' = Some ()"
proof -
  have "TcpConnection_inv tid s'" "tc_state (tw_conn s') = kDisconnected"
    using TcpConnection_forceCloseInLoop_spec [OF assms(1-3)] assms(5) by auto
  with TcpConnection_connectDestroyed_spec [OF assms(1) _ _ assms(6)] show ?thesis
    by (simp add: TcpConnection_destroy_def)
qed

lemma handleClose_default_idle:
  assumes "kernel_ok ctl" "TcpConnection_inv tid s" "tc_state (tw_conn s) = kConnected" "\<not> el_eventHandling (tw_loop s)"
  shows "\<exists>s'. TcpConnection_forceCloseInLoop ctl tid default_callbacks s = Some s' \<and> TcpConnection_inv tid s' \<and>
    tc_state (tw_conn s') = kDisconnected \<and> \<not> el_eventHandling (tw_loop s')"
proof -
  obtain ch where ch: "tc_base tid s ch" using assms(2) by (auto simp: TcpConnection_inv_def)
  let ?s = "TcpConnection_setState kDisconnected s"
  have "tc_base tid ?s ch" using ch by simp
  from tc_change_spec [OF assms(1) this, of none_events]
  obtain l' where u: "tc_on_loop (Channel_disableAll ctl tid (tc_channel (tw_conn ?s))) ?s = Some (?s\<lparr>tw_loop := l'\<rparr>)"
      "only_poller (tw_loop ?s) l'"
    unfolding Channel_disableAll_def by auto
  then have "TcpConnection_forceCloseInLoop ctl tid default_callbacks s = Some (?s\<lparr>tw_loop := l'\<rparr>)"
    using assms(3) by (simp add: TcpConnection_forceCloseInLoop_def TcpConnection_handleClose_def tc_inThread [OF ch]
        default_callbacks_def defaultConnectionCallback_def)
  moreover have "\<not> el_eventHandling l'"
    using only_poller_simps [OF u(2)] assms(4) by (simp add: TcpConnection_setState_def)
  ultimately show ?thesis
    using TcpConnection_forceCloseInLoop_spec [OF assms(1) default_callbacks_ok assms(2)] by simp
qed

theorem TcpConnection_connectDestroyed_ok_witness:
  "\<exists>s s' s'' ch. TcpConnection_forceCloseInLoop table_ctl 7 default_callbacks s = Some s' \<and>
     TcpConnection_connectDestroyed table_ctl 7 default_callbacks s' = Some s'' \<and> tc_chan s' = Some ch \<and>
     any_channels (el_poller (tw_loop s'')) (ch_fd ch) = None"
proof -
  obtain s where s: "TcpConnection_inv 7 s" "tc_state (tw_conn s) = kConnected" "\<not> el_eventHandling (tw_loop s)"
    using example_up by blast
  then obtain s' where s': "TcpConnection_forceCloseInLoop table_ctl 7 default_callbacks s = Some s'"
      "\<not> el_eventHandling (tw_loop s')"
    using handleClose_default_idle [OF kernel_ok_table_ctl] by blast
  from TcpConnection_connectDestroyed_ok [OF kernel_ok_table_ctl default_callbacks_ok s(1) _ s'] s(2) s'(1)
  show ?thesis by fastforce
qed

text \<open>
  C18. \<^verbatim>\<open>connectDestroyed\<close> on a connection that is closing but not closed aborts: in state
  \<^verbatim>\<open>kDisconnecting\<close> it does not disable the channel, and \<^verbatim>\<open>Channel::remove\<close> asserts that no event is
  enabled.
\<close>

theorem TcpConnection_connectDestroyed_closing_aborts:
  assumes "tc_state (tw_conn s) = kDisconnecting" "tc_chan s = Some ch" "Channel_isReading ch \<or> Channel_isWriting ch"
  shows "TcpConnection_connectDestroyed ctl tid cb s = None"
proof -
  have "\<not> Channel_isNoneEvent ch" using assms(3) not_none_if_reading not_none_if_writing by blast
  with assms(1,2) show ?thesis
    by (simp add: TcpConnection_connectDestroyed_def tc_on_loop_def Channel_remove_def tc_chan_def
        EventLoop_assertInLoopThread_def Option.bind_eq_None_conv)
qed

theorem TcpConnection_connectDestroyed_closing_aborts_witness:
  "\<exists>s s'. tc_state (tw_conn s) = kConnected \<and> TcpConnection_shutdown 7 s = Some s' \<and>
     TcpConnection_connectDestroyed table_ctl 7 default_callbacks s' = None"
proof -
  obtain s ch where s: "TcpConnection_inv 7 s" "tc_state (tw_conn s) = kConnected" "tc_chan s = Some ch" "Channel_isReading ch"
    using example_up by blast
  then obtain s' where s': "TcpConnection_shutdown 7 s = Some s'" "tc_state (tw_conn s') = kDisconnecting"
    using TcpConnection_shutdown_spec [OF s(1)] by blast
  have "tc_chan s' = Some ch"
    using s s' TcpConnection_inLoop [OF s(1)]
    by (auto simp: TcpConnection_shutdown_def TcpConnection_shutdownInLoop_def TcpConnection_setState_def tc_chan_def
        Option.bind_eq_Some_conv Let_def split: if_splits)
  with TcpConnection_connectDestroyed_closing_aborts [OF s'(2)] s s' show ?thesis by blast
qed

text \<open>
  C19. A read switch that arrives late makes the destruction abort: when the deferred
  \<^verbatim>\<open>startReadInLoop\<close> of another thread runs after the connection was closed, it enables reading on
  the closed connection, and \<^verbatim>\<open>connectDestroyed\<close> then fails the assertion of \<^verbatim>\<open>Channel::remove\<close>.
\<close>

theorem TcpConnection_late_startRead_aborts:
  assumes "kernel_ok ctl" "TcpConnection_inv tid s" "tc_state (tw_conn s) = kDisconnected"
  shows "\<exists>s'. TcpConnection_call ctl tid cb w StartReadInLoop s = Some s' \<and>
    TcpConnection_call ctl tid cb w ConnectDestroyed s' = None"
proof -
  obtain ch where ch: "tc_base tid s ch" "tc_mode s ch" using assms(2) by (auto simp: TcpConnection_inv_def)
  have "\<not> Channel_isReading ch" using ch(2) assms(3) by (simp add: tc_mode_def Channel_isReading_def)
  have "small_events (ch_events (or_events kReadEvent ch))" using ch(1) by (simp add: tc_base_def)
  from tc_change_spec [OF assms(1) ch(1), of "or_events kReadEvent", OF _ _ _ this]
  obtain l' ch' where u: "tc_on_loop (Channel_enableReading ctl tid (tc_channel (tw_conn s))) s = Some (s\<lparr>tw_loop := l'\<rparr>)"
      "tc_base tid (s\<lparr>tw_loop := l'\<rparr>) ch'" "ch_events ch' = ch_events (or_events kReadEvent ch)"
    unfolding Channel_enableReading_def by auto
  let ?s = "s\<lparr>tw_loop := l', tw_conn := (tw_conn s)\<lparr>tc_reading := True\<rparr>\<rparr>"
  have "TcpConnection_startReadInLoop ctl tid s = Some ?s"
    using \<open>\<not> Channel_isReading ch\<close> u(1)
    by (simp add: TcpConnection_startReadInLoop_def tc_inThread [OF ch(1)] tc_base_chan [OF ch(1)])
  moreover have "\<not> Channel_isNoneEvent ch'"
    using not_none_if_reading [of ch'] u(3) isReading_ops(1) [of ch] by (simp add: Channel_isReading_def)
  then have "TcpConnection_connectDestroyed ctl tid cb ?s = None"
    using tc_base_chan [OF u(2)] assms(3)
    by (simp add: TcpConnection_connectDestroyed_def tc_on_loop_def Channel_remove_def tc_chan_def
        EventLoop_assertInLoopThread_def Option.bind_eq_None_conv)
  ultimately show ?thesis by auto
qed

theorem TcpConnection_late_startRead_aborts_witness:
  "\<exists>s s'. tc_state (tw_conn s) = kDisconnected \<and>
     TcpConnection_call table_ctl 7 default_callbacks (Inr 0) StartReadInLoop s = Some s' \<and>
     TcpConnection_call table_ctl 7 default_callbacks (Inr 0) ConnectDestroyed s' = None"
proof -
  obtain s where s: "TcpConnection_inv 7 s" "tc_state (tw_conn s) = kConnected" "\<not> el_eventHandling (tw_loop s)"
    using example_up by blast
  then obtain s' where "TcpConnection_inv 7 s'" "tc_state (tw_conn s') = kDisconnected"
    using handleClose_default_idle [OF kernel_ok_table_ctl] by blast
  with TcpConnection_late_startRead_aborts [OF kernel_ok_table_ctl] show ?thesis by blast
qed

end
