(* ===== verification/LoopThreads.thy ===== *)
theory LoopThreads
  imports EventLoop
begin














lemma wakeup_positive [simp]: "0 < el_wakeupCount (EventLoop_wakeup l)"
  by (simp add: EventLoop_wakeup_def kMaxEventfd_def)

lemma wakeup_simps [simp]:
  "el_pendingFunctors (EventLoop_wakeup l) = el_pendingFunctors l"
  "el_quit (EventLoop_wakeup l) = el_quit l"
  "el_callingPendingFunctors (EventLoop_wakeup l) = el_callingPendingFunctors l"
  "el_threadId (EventLoop_wakeup l) = el_threadId l"
  by (simp_all add: EventLoop_wakeup_def)












section \<open>Calls that are not interrupted\<close>










end
