(* ===== verification/Double.thy ===== *)
theory Double
  imports Complex_Main Prelude
begin

text \<open>
  The \<^verbatim>\<open>double\<close> arithmetic the sources use. A double is the rational number it denotes. \<open>to_double\<close> rounds a
  rational in \<open>{0} \<union> [1/2, 2^64)\<close> to the nearest multiple of its unit in the last place (53 significant
  bits, ties to even); \<open>double_of\<close> extends it to the other side of the axis and, by scaling with powers of
  two, to the values below \<open>1/2\<close>. Overflow and the subnormal numbers below \<open>2^-1022\<close> are far from every
  value computed here. \<open>trunc\<close> is the conversion of a double to an integer type that can hold it.
\<close>

section \<open>Doubles\<close>

definition round_even :: "rat \<Rightarrow> int" where
  "round_even x =
     (let f = \<lfloor>x\<rfloor>; r = x - of_int f
      in if r < 1 / 2 then f else if 1 / 2 < r then f + 1 else if even f then f else f + 1)"

fun ulp_exponent :: "rat \<Rightarrow> nat \<Rightarrow> nat" where
  "ulp_exponent x n = (case n of 0 \<Rightarrow> 0 | Suc m \<Rightarrow> if x < 2 ^ m then ulp_exponent x m else n)"

text \<open>
  \<open>ulp_exponent x 64\<close> is the least \<open>e\<close> with \<open>x < 2 ^ e\<close>: the unit in the last place of \<open>x\<close> is
  \<open>2 ^ e / 2 ^ 53\<close>.
\<close>

definition to_double :: "rat \<Rightarrow> rat" where
  "to_double x =
     (let u = 2 ^ ulp_exponent x 64 / 2 ^ 53
      in of_int (round_even (x / u)) * u)"

section \<open>Rounding\<close>

lemma round_even_floor: "round_even x = \<lfloor>x\<rfloor> \<or> round_even x = \<lfloor>x\<rfloor> + 1"
  by (simp add: round_even_def Let_def)

lemma round_even_int [simp]: "round_even (of_int i) = i"
  by (simp add: round_even_def)

lemma round_even_mono:
  assumes "x \<le> y"
  shows "round_even x \<le> round_even y"
proof (cases "\<lfloor>x\<rfloor> = \<lfloor>y\<rfloor>")
  case True
  with assms show ?thesis by (auto simp: round_even_def Let_def)
next
  case False
  with assms have "\<lfloor>x\<rfloor> + 1 \<le> \<lfloor>y\<rfloor>" using floor_mono [OF assms] by linarith
  with round_even_floor [of x] round_even_floor [of y] show ?thesis by linarith
qed

lemma round_even_error: "of_int (round_even x) \<le> x + 1 / 2" "x - 1 / 2 \<le> of_int (round_even x)"
proof -
  have "of_int \<lfloor>x\<rfloor> \<le> x" "x < of_int \<lfloor>x\<rfloor> + 1" by linarith+
  then show "of_int (round_even x) \<le> x + 1 / 2" "x - 1 / 2 \<le> of_int (round_even x)"
    unfolding round_even_def Let_def by (simp_all split: if_split) linarith+
qed

lemma round_even_less: "x < of_int i - 1 / 2 \<Longrightarrow> round_even x < i"
proof -
  assume "x < of_int i - 1 / 2"
  with round_even_error(1) [of x] have "(of_int (round_even x) :: rat) < of_int i" by linarith
  then show ?thesis by simp
qed

lemma round_even_le: "x \<le> of_int i \<Longrightarrow> round_even x \<le> i"
  using round_even_mono [of x "of_int i"] by simp

lemma round_even_ge: "of_int i \<le> x \<Longrightarrow> i \<le> round_even x"
  using round_even_mono [of "of_int i" x] by simp

declare ulp_exponent.simps [simp del]

lemma ulp_exponent_bounds:
  "x < 2 ^ n \<Longrightarrow>
   x < 2 ^ ulp_exponent x n \<and> (ulp_exponent x n = 0 \<or> 2 ^ (ulp_exponent x n - 1) \<le> x) \<and> ulp_exponent x n \<le> n"
proof (induction n)
  case (Suc n)
  then show ?case by (subst (1 2 3 4) ulp_exponent.simps) (auto simp: not_less)
qed (simp add: ulp_exponent.simps)

lemma ulp_exponent_unique:
  assumes "x < 2 ^ e" "e = 0 \<or> 2 ^ (e - 1) \<le> x" "e \<le> n"
  shows "ulp_exponent x n = e"
proof -
  let ?f = "ulp_exponent x n"
  have "(2 :: rat) ^ e \<le> 2 ^ n" using assms(3) by simp
  then have f: "x < 2 ^ ?f" "?f = 0 \<or> 2 ^ (?f - 1) \<le> x"
    using ulp_exponent_bounds [of x n] assms(1) by linarith+
  have "\<not> ?f < e"
  proof
    assume "?f < e"
    then have "(2 :: rat) ^ ?f \<le> 2 ^ (e - 1)" by (intro power_increasing) auto
    moreover from assms(2) \<open>?f < e\<close> have "2 ^ (e - 1) \<le> x" by auto
    ultimately show False using f(1) by linarith
  qed
  moreover have "\<not> e < ?f"
  proof
    assume "e < ?f"
    then have "(2 :: rat) ^ e \<le> 2 ^ (?f - 1)" by (intro power_increasing) auto
    moreover from f(2) \<open>e < ?f\<close> have "2 ^ (?f - 1) \<le> x" by auto
    ultimately show False using assms(1) by linarith
  qed
  ultimately show ?thesis by simp
qed

section \<open>Conversion to double\<close>

definition ulp :: "rat \<Rightarrow> rat" where
  "ulp x = 2 ^ ulp_exponent x 64 / 2 ^ 53"

lemma to_double_ulp: "to_double x = of_int (round_even (x / ulp x)) * ulp x"
  by (simp add: to_double_def ulp_def Let_def)

lemma ulp_pos [simp]: "0 < ulp x"
  by (simp add: ulp_def)

lemma ulp_eq:
  assumes "x < 2 ^ e" "e = 0 \<or> 2 ^ (e - 1) \<le> x" "e \<le> 64"
  shows "ulp x = 2 ^ e / 2 ^ 53"
  using ulp_exponent_unique [OF assms] by (simp add: ulp_def)

lemma ulp_cases:
  assumes "x < 2 ^ 64"
  obtains e where "ulp x = 2 ^ e / 2 ^ 53" "x < 2 ^ e" "e = 0 \<or> 2 ^ (e - 1) \<le> x" "e \<le> 64"
  using ulp_exponent_bounds [OF assms] by (auto simp: ulp_def)

lemma to_double_exact: "x = of_int m * ulp x \<Longrightarrow> to_double x = x"
proof -
  assume x: "x = of_int m * ulp x"
  have "ulp x \<noteq> 0" using ulp_pos [of x] by linarith
  with x have "x / ulp x = of_int m" by (metis nonzero_mult_div_cancel_right)
  with x show ?thesis by (simp add: to_double_ulp)
qed

lemma to_double_le_power:
  assumes "x < 2 ^ e" "e = 0 \<or> 2 ^ (e - 1) \<le> x" "e \<le> 64"
  shows "to_double x \<le> 2 ^ e"
proof -
  have u: "ulp x = 2 ^ e / 2 ^ 53" by (rule ulp_eq [OF assms])
  have "x / ulp x \<le> of_int (2 ^ 53)" using assms(1) by (simp add: u field_simps)
  then have "(of_int (round_even (x / ulp x)) :: rat) \<le> 2 ^ 53"
    by (metis of_int_le_iff of_int_numeral of_int_power round_even_le)
  then have "of_int (round_even (x / ulp x)) * ulp x \<le> 2 ^ 53 * ulp x"
    by (intro mult_right_mono less_imp_le [OF ulp_pos])
  then show ?thesis by (simp add: to_double_ulp u)
qed

lemma to_double_ge_power:
  assumes "x < 2 ^ e" "2 ^ (e - 1) \<le> x" "0 < e" "e \<le> 64"
  shows "2 ^ (e - 1) \<le> to_double x"
proof -
  have u: "ulp x = 2 ^ e / 2 ^ 53" using ulp_eq [of x e] assms by simp
  have e: "(2 :: rat) ^ e = 2 * 2 ^ (e - 1)" using assms(3) by (metis power_Suc Suc_pred')
  have "of_int (2 ^ 52) \<le> x / ulp x" using assms(2) by (simp add: u e field_simps)
  then have "(2 ^ 52 :: rat) \<le> of_int (round_even (x / ulp x))"
    by (metis of_int_le_iff of_int_numeral of_int_power round_even_ge)
  then have "2 ^ 52 * ulp x \<le> of_int (round_even (x / ulp x)) * ulp x"
    by (intro mult_right_mono less_imp_le [OF ulp_pos])
  then show ?thesis by (simp add: to_double_ulp u e)
qed

lemma to_double_mono:
  assumes "x \<le> y" "y < 2 ^ 64"
  shows "to_double x \<le> to_double y"
proof -
  from assms have "x < 2 ^ 64" by linarith
  then obtain e where e: "ulp x = 2 ^ e / 2 ^ 53" "x < 2 ^ e" "e = 0 \<or> 2 ^ (e - 1) \<le> x" "e \<le> 64"
    by (rule ulp_cases)
  from assms(2) obtain f where f: "ulp y = 2 ^ f / 2 ^ 53" "y < 2 ^ f" "f = 0 \<or> 2 ^ (f - 1) \<le> y" "f \<le> 64"
    by (rule ulp_cases)
  have "e \<le> f"
  proof (rule ccontr)
    assume "\<not> e \<le> f"
    then have "(2 :: rat) ^ f \<le> 2 ^ (e - 1)" by (intro power_increasing) auto
    moreover from e(3) \<open>\<not> e \<le> f\<close> have "2 ^ (e - 1) \<le> x" by auto
    ultimately show False using f(2) assms(1) by linarith
  qed
  show ?thesis
  proof (cases "e = f")
    case True
    then have "ulp x = ulp y" using e(1) f(1) by simp
    then have "x / ulp x \<le> y / ulp y" using assms(1) by (simp add: divide_right_mono less_imp_le)
    then have "(of_int (round_even (x / ulp x)) :: rat) \<le> of_int (round_even (y / ulp y))"
      by (simp add: round_even_mono)
    with True e(1) f(1) show ?thesis
      unfolding to_double_ulp by (metis mult_right_mono less_imp_le ulp_pos)
  next
    case False
    with \<open>e \<le> f\<close> have "e \<le> f - 1" "0 < f" by auto
    then have "(2 :: rat) ^ e \<le> 2 ^ (f - 1)" by (intro power_increasing) auto
    moreover have "to_double x \<le> 2 ^ e" by (rule to_double_le_power [OF e(2,3,4)])
    moreover have "2 ^ (f - 1) \<le> to_double y"
      using to_double_ge_power [OF f(2) _ \<open>0 < f\<close> f(4)] f(3) \<open>0 < f\<close> by simp
    ultimately show ?thesis by linarith
  qed
qed

lemma to_double_error:
  assumes "1 / 2 \<le> x" "x < 2 ^ 64"
  shows "to_double x \<le> x * (1 + 1 / 2 ^ 53)"
proof -
  from assms(2) obtain e where e: "ulp x = 2 ^ e / 2 ^ 53" "x < 2 ^ e" "e = 0 \<or> 2 ^ (e - 1) \<le> x" "e \<le> 64"
    by (rule ulp_cases)
  have "2 ^ e \<le> 2 * x"
    using e(3) assms(1) by (cases e) auto
  then have u: "ulp x \<le> 2 * x / 2 ^ 53" unfolding e(1) by (intro divide_right_mono) auto
  have "of_int (round_even (x / ulp x)) * ulp x \<le> (x / ulp x + 1 / 2) * ulp x"
    by (intro mult_right_mono round_even_error less_imp_le [OF ulp_pos])
  also have "\<dots> = x + ulp x / 2" using ulp_pos [of x] by (simp add: field_simps del: ulp_pos)
  also have "\<dots> \<le> x + x / 2 ^ 53" using u by simp
  finally show ?thesis by (simp add: to_double_ulp field_simps)
qed

lemma to_double_of_int:
  assumes "0 \<le> s" "s < 2 ^ 53"
  shows "to_double (of_int s) = of_int s"
proof -
  have "(of_int s :: rat) < 2 ^ 53"
    using assms(2) by (metis of_int_less_iff of_int_numeral of_int_power)
  then have "(of_int s :: rat) < 2 ^ 64" by simp
  then obtain e where e: "ulp (of_int s) = 2 ^ e / 2 ^ 53" "(of_int s :: rat) < 2 ^ e"
    "e = 0 \<or> 2 ^ (e - 1) \<le> (of_int s :: rat)" "e \<le> 64"
    by (rule ulp_cases)
  have "e \<le> 53"
  proof (rule ccontr)
    assume "\<not> e \<le> 53"
    then have "(2 :: rat) ^ 53 \<le> 2 ^ (e - 1)" by (intro power_increasing) auto
    moreover from e(3) \<open>\<not> e \<le> 53\<close> have "2 ^ (e - 1) \<le> (of_int s :: rat)" by auto
    ultimately show False using \<open>(of_int s :: rat) < 2 ^ 53\<close> by linarith
  qed
  then have "(2 :: rat) ^ 53 = 2 ^ (53 - e) * 2 ^ e" by (simp add: power_add [symmetric] del: power_numeral)
  then have "of_int s = of_int (s * 2 ^ (53 - e)) * ulp (of_int s)"
    unfolding e(1) by (simp add: field_simps del: power_numeral)
  then show ?thesis by (rule to_double_exact)
qed

lemma ulp_scale:
  assumes "2 ^ k / 2 \<le> x" "x < 2 ^ 64"
  shows "ulp (x / 2 ^ k) = ulp x / 2 ^ k"
proof -
  from assms(2) obtain e where e: "ulp x = 2 ^ e / 2 ^ 53" "x < 2 ^ e" "e = 0 \<or> 2 ^ (e - 1) \<le> x" "e \<le> 64"
    by (rule ulp_cases)
  have "k \<le> e"
  proof (rule ccontr)
    assume "\<not> k \<le> e"
    then have "(2 :: rat) ^ e \<le> 2 ^ (k - 1)" "(2 :: rat) ^ k = 2 * 2 ^ (k - 1)"
      by (auto intro!: power_increasing simp: power_Suc [symmetric] simp del: power_Suc)
    with assms(1) e(2) show False by linarith
  qed
  then have p: "(2 :: rat) ^ e = 2 ^ (e - k) * 2 ^ k" by (simp add: power_add [symmetric])
  have "x / 2 ^ k < 2 ^ (e - k)" using e(2) by (simp add: p field_simps)
  moreover have "e - k = 0 \<or> 2 ^ (e - k - 1) \<le> x / 2 ^ k"
  proof (cases "e = k")
    case False
    with \<open>k \<le> e\<close> have "(2 :: rat) ^ (e - 1) = 2 ^ (e - k - 1) * 2 ^ k" by (simp add: power_add [symmetric])
    moreover have "2 ^ (e - 1) \<le> x" using e(3) False \<open>k \<le> e\<close> by auto
    ultimately show ?thesis by (simp add: field_simps)
  qed simp
  ultimately have "ulp (x / 2 ^ k) = 2 ^ (e - k) / 2 ^ 53" using e(4) by (intro ulp_eq) auto
  then show ?thesis by (simp add: e(1) p)
qed

lemma to_double_scale:
  assumes "2 ^ k / 2 \<le> x" "x < 2 ^ 64"
  shows "to_double (x / 2 ^ k) = to_double x / 2 ^ k"
  unfolding to_double_ulp ulp_scale [OF assms] by simp

lemma to_double_idem:
  assumes "1 / 2 \<le> x" "x \<le> 2 ^ 63"
  shows "to_double (to_double x) = to_double x"
proof -
  from assms(2) have "x < 2 ^ 64" by simp
  then obtain e where e: "ulp x = 2 ^ e / 2 ^ 53" "x < 2 ^ e" "e = 0 \<or> 2 ^ (e - 1) \<le> x" "e \<le> 64"
    by (rule ulp_cases)
  define m where "m = round_even (x / ulp x)"
  have t: "to_double x = of_int m * ulp x" by (simp add: to_double_ulp m_def)
  have le: "to_double x \<le> 2 ^ e" by (rule to_double_le_power [OF e(2,3,4)])
  have ge: "2 ^ e / 2 \<le> to_double x"
  proof (cases e)
    case 0
    then have "of_int (2 ^ 52) \<le> x / ulp x" using assms(1) e(1) by (simp add: field_simps)
    then have "(2 ^ 52 :: rat) \<le> of_int m"
      unfolding m_def by (metis of_int_le_iff of_int_numeral of_int_power round_even_ge)
    then have "(2 ^ 52 :: rat) / 2 ^ 53 \<le> of_int m / 2 ^ 53" by (rule divide_right_mono) simp
    moreover have "to_double x = of_int m / 2 ^ 53" using t e(1) 0 by (metis times_divide_eq_right mult.right_neutral power_0)
    ultimately show ?thesis using 0 by simp
  next
    case (Suc d)
    then show ?thesis using to_double_ge_power [OF e(2) _ _ e(4)] e(3) by simp
  qed
  show ?thesis
  proof (cases "to_double x = 2 ^ e")
    case False
    with le have "to_double x < 2 ^ e" by simp
    moreover have "e = 0 \<or> 2 ^ (e - 1) \<le> to_double x" using ge by (cases e) auto
    ultimately have "ulp (to_double x) = ulp x" using ulp_eq e(1,4) by metis
    with t show ?thesis by (metis to_double_exact)
  next
    case True
    have "e \<le> 63"
    proof (rule ccontr)
      assume "\<not> e \<le> 63"
      with e(4) have "e = 64" by simp
      with True have "to_double x = 2 ^ 64" by simp
      moreover have "to_double x \<le> to_double (2 ^ 63)" using assms(2) by (intro to_double_mono) simp_all
      moreover have "to_double (2 ^ 63) \<le> 2 ^ 63 * (1 + 1 / 2 ^ 53)" by (rule to_double_error) simp_all
      ultimately show False by simp
    qed
    have "ulp (to_double x) = 2 ^ Suc e / 2 ^ 53" using True \<open>e \<le> 63\<close> by (intro ulp_eq) auto
    with True have "to_double x = of_int (2 ^ 52) * ulp (to_double x)" by simp
    then show ?thesis by (rule to_double_exact)
  qed
qed

section \<open>Doubles of either sign and of any size\<close>

lemma ceiling_inverse_double:
  assumes "0 < x" "x * 2 < (1 :: rat)"
  shows "\<lceil>1 / (x * 2)\<rceil> < \<lceil>1 / x\<rceil>"
proof -
  define y where "y = 1 / x"
  have "2 < y" using assms by (simp add: y_def field_simps)
  then have "of_int \<lceil>y / 2\<rceil> < y"
    using ceiling_correct [of "y / 2"] by simp
  then have "\<lceil>y / 2\<rceil> < \<lceil>y\<rceil>" by (simp add: less_ceiling_iff)
  then show ?thesis by (simp add: y_def)
qed

function double_of :: "rat \<Rightarrow> rat" where
  "double_of x =
     (if x < 0 then - double_of (- x)
      else if 0 < x \<and> x < 1 / 2 then double_of (x * 2) / 2
      else to_double x)"
  by auto
termination
proof (relation "measure (\<lambda>x. 2 * nat \<lceil>1 / \<bar>x\<bar>\<rceil> + (if x < 0 then 1 else 0))")
  fix x :: rat
  assume "\<not> x < 0" "0 < x \<and> x < 1 / 2"
  then show "(x * 2, x) \<in> measure (\<lambda>x. 2 * nat \<lceil>1 / \<bar>x\<bar>\<rceil> + (if x < 0 then 1 else 0))"
    using ceiling_inverse_double [of x] by (simp add: abs_mult)
qed simp_all

declare double_of.simps [simp del]

lemma double_of_nonneg: "0 \<le> x \<Longrightarrow> 0 \<le> double_of x"
proof (induction x rule: double_of.induct)
  case (1 x)
  have "0 \<le> to_double x"
    using 1(3) by (auto simp: to_double_ulp less_imp_le intro!: mult_nonneg_nonneg round_even_ge [of 0, simplified])
  with 1(2,3) show ?case by (subst double_of.simps) auto
qed

lemma double_of_large: "1 / 2 \<le> x \<Longrightarrow> double_of x = to_double x"
  by (subst double_of.simps) auto

text \<open>The conversion of a floating value to an integer drops the fraction.\<close>

definition trunc :: "rat \<Rightarrow> int" where
  "trunc q = (if 0 \<le> q then \<lfloor>q\<rfloor> else \<lceil>q\<rceil>)"

lemma trunc_of_int [simp]: "trunc (of_int i) = i"
  by (simp add: trunc_def)

lemma trunc_nonneg: "0 \<le> q \<Longrightarrow> 0 \<le> trunc q"
  by (simp add: trunc_def)

end
