(* ===== verification/Timestamp.thy ===== *)
theory Timestamp
  imports Double "HOL-Library.Signed_Division"
begin

text \<open>
  \<^verbatim>\<open>muduo/base/Timestamp.h\<close>, \<^verbatim>\<open>Timestamp.cc\<close>. A timestamp is its number of microseconds; the
  arithmetic is that of \<open>int\<close> (a value out of the range of \<^verbatim>\<open>int64_t\<close> would be 290 thousand years
  away). A \<^verbatim>\<open>double\<close> is the rational number it denotes; the conversion, the quotient and the product
  are rounded to 53 bits as in theory \<open>Double\<close>, and the conversion to \<^verbatim>\<open>int64_t\<close> drops the fraction.
\<close>

type_synonym timestamp = int

definition kMicroSecondsPerSecond :: int where "kMicroSecondsPerSecond = 1000 * 1000"

definition Timestamp_invalid :: timestamp where "Timestamp_invalid = 0"

definition Timestamp_valid :: "timestamp \<Rightarrow> bool" where "Timestamp_valid t \<longleftrightarrow> 0 < t"

definition Timestamp_secondsSinceEpoch :: "timestamp \<Rightarrow> int" where
  "Timestamp_secondsSinceEpoch t = t sdiv kMicroSecondsPerSecond"

definition Timestamp_fromUnixTime :: "int \<Rightarrow> int \<Rightarrow> timestamp" where
  "Timestamp_fromUnixTime t microseconds = t * kMicroSecondsPerSecond + microseconds"

text \<open>\<open>tv\<close> is what \<^verbatim>\<open>gettimeofday\<close> stores.\<close>

definition Timestamp_now :: "int \<times> int \<Rightarrow> timestamp" where
  "Timestamp_now tv = fst tv * kMicroSecondsPerSecond + snd tv"

definition timeDifference :: "timestamp \<Rightarrow> timestamp \<Rightarrow> rat" where
  "timeDifference high low =
     (let diff = high - low
      in double_of (double_of (of_int diff) / double_of (of_int kMicroSecondsPerSecond)))"

definition addTime :: "timestamp \<Rightarrow> rat \<Rightarrow> timestamp" where
  "addTime t seconds =
     (let delta = trunc (double_of (seconds * double_of (of_int kMicroSecondsPerSecond)))
      in t + delta)"

section \<open>Decimal output\<close>

text \<open>\<^verbatim>\<open>Timestamp::toString\<close>: the conversions \<^verbatim>\<open>%d\<close> and \<^verbatim>\<open>%06d\<close> of \<^verbatim>\<open>snprintf\<close>.\<close>

definition Timestamp_toString :: "timestamp \<Rightarrow> string" where
  "Timestamp_toString t =
     (let seconds = t sdiv kMicroSecondsPerSecond;
          microseconds = t smod kMicroSecondsPerSecond
      in show_int seconds @ ''.'' @ show_int_pad 6 CHR ''0'' microseconds)"

lemma double_of_int: "0 \<le> i \<Longrightarrow> i < 2 ^ 53 \<Longrightarrow> double_of (of_int i) = of_int i"
  using to_double_of_int [of i] by (subst double_of.simps) auto

lemma addTime_le: "0 \<le> s \<Longrightarrow> t \<le> addTime t s"
  using double_of_nonneg [of "s * 1000000"] trunc_nonneg [of "double_of (s * 1000000)"] double_of_int [of 1000000]
  by (simp add: addTime_def kMicroSecondsPerSecond_def)

text \<open>A whole number of seconds, up to 285 years, is added exactly.\<close>

lemma addTime_seconds: "0 \<le> i \<Longrightarrow> i * kMicroSecondsPerSecond < 2 ^ 53 \<Longrightarrow> addTime t (of_int i) = t + i * kMicroSecondsPerSecond"
  using double_of_int [of "i * 1000000"] double_of_int [of 1000000] trunc_of_int [of "i * 1000000"]
  by (simp add: addTime_def kMicroSecondsPerSecond_def del: trunc_of_int)

text \<open>
  The rounding of the product matters: the double nearest to 0.29 is below it, the exact product is
  below 290000, and the rounded one is not.
\<close>

lemma addTime_rounds: "addTime t (5224175567749775 / 18014398509481984) = t + 290000"
proof -
  let ?x = "81627743246090234375 / 281474976710656 :: rat"
  have u: "ulp ?x = 1 / 17179869184" using ulp_eq [of ?x 19] by simp
  have "\<lfloor>81627743246090234375 / 16384 :: rat\<rfloor> = 4982162063359999" by (simp add: floor_eq_iff)
  then have "round_even (?x / ulp ?x) = 4982162063360000" unfolding u by (simp add: round_even_def Let_def)
  then have "to_double ?x = 290000" unfolding to_double_ulp u by simp
  then show ?thesis
    using double_of_int [of 1000000] by (simp add: addTime_def kMicroSecondsPerSecond_def trunc_def double_of_large)
qed

lemma fromUnixTime_seconds:
  "0 \<le> s \<Longrightarrow> 0 \<le> us \<Longrightarrow> us < kMicroSecondsPerSecond \<Longrightarrow>
   Timestamp_secondsSinceEpoch (Timestamp_fromUnixTime s us) = s"
  by (simp add: Timestamp_secondsSinceEpoch_def Timestamp_fromUnixTime_def signed_divide_int_def
      kMicroSecondsPerSecond_def sgn_if)

end
