(* ===== verification/TimerQueue.thy ===== *)
theory TimerQueue
  imports Timestamp "HOL-Library.Product_Lexorder" "HOL-Library.Extended_Nat"
begin

text \<open>
  \<^verbatim>\<open>muduo/net/Timer.h\<close>, \<^verbatim>\<open>Timer.cc\<close>, \<^verbatim>\<open>TimerId.h\<close>, \<^verbatim>\<open>TimerQueue.h\<close>, \<^verbatim>\<open>TimerQueue.cc\<close>. The timers are
  objects on an unbounded heap; the pointer \<^verbatim>\<open>UINTPTR_MAX\<close> of the sentry is above every address of
  an object. Reading a deleted timer is an error. A \<^verbatim>\<open>std::set\<close> is a strictly sorted list. \<open>tq_armed\<close> is what the timerfd was last
  set to, the time of the call and the relative \<^verbatim>\<open>timespec\<close> given, \<open>None\<close> when it has fired. Every reading
  of the clock is an argument: \<open>clk\<close> is the one of \<^verbatim>\<open>howMuchTimeFromNow\<close>.

  A callback runs in the loop's thread and may add and cancel timers: \<open>script\<close> gives the
  operations a callback performs. The address of a new timer is the allocator's choice
  \<open>alloc\<close>, whose contract is \<open>alloc_ok\<close>.
\<close>

type_synonym taddr = nat

definition UINTPTR_MAX :: enat where "UINTPTR_MAX = \<infinity>"

record 'c timer =
  tm_callback :: 'c
  tm_expiration :: timestamp
  tm_interval :: rat
  tm_repeat :: bool
  tm_sequence :: int

type_synonym timer_id = "taddr \<times> int"

record 'c timerqueue =
  tq_thread :: int
  tq_heap :: "taddr \<Rightarrow> 'c timer option"
  tq_timers :: "(timestamp \<times> taddr) list"
  tq_active :: "(taddr \<times> int) list"
  tq_calling :: bool
  tq_canceling :: "(taddr \<times> int) list"
  tq_armed :: "(timestamp \<times> int \<times> int) option"
  tq_numCreated :: int

definition Timer_new :: "'c \<Rightarrow> timestamp \<Rightarrow> rat \<Rightarrow> int \<Rightarrow> 'c timer" where
  "Timer_new cb when interval n =
     \<lparr>tm_callback = cb, tm_expiration = when, tm_interval = interval, tm_repeat = (0 < interval), tm_sequence = n\<rparr>"

definition Timer_restart :: "timestamp \<Rightarrow> 'c timer \<Rightarrow> 'c timer" where
  "Timer_restart now t =
     (if tm_repeat t then t\<lparr>tm_expiration := addTime now (tm_interval t)\<rparr>
      else t\<lparr>tm_expiration := Timestamp_invalid\<rparr>)"

definition createTimerfd :: "int \<Rightarrow> int option" where
  "createTimerfd timerfd = (if timerfd < 0 then None else Some timerfd)"

text \<open>The \<^verbatim>\<open>timespec\<close> the timerfd is set to: seconds and nanoseconds.\<close>

definition howMuchTimeFromNow :: "timestamp \<Rightarrow> timestamp \<Rightarrow> int \<times> int" where
  "howMuchTimeFromNow now when =
     (let microseconds = when - now;
          microseconds = (if microseconds < 100 then 100 else microseconds)
      in (microseconds sdiv kMicroSecondsPerSecond, (microseconds smod kMicroSecondsPerSecond) * 1000))"

definition resetTimerfd :: "timestamp \<Rightarrow> timestamp \<Rightarrow> 'c timerqueue \<Rightarrow> 'c timerqueue" where
  "resetTimerfd clk expiration q = q\<lparr>tq_armed := Some (clk, howMuchTimeFromNow clk expiration)\<rparr>"

text \<open>The time, in nanoseconds, at which a timerfd set that way becomes readable.\<close>

definition timerfd_fires :: "timestamp \<times> int \<times> int \<Rightarrow> int" where
  "timerfd_fires armed = (case armed of (clk, sec, nsec) \<Rightarrow> clk * 1000 + sec * 1000000000 + nsec)"

definition readTimerfd :: "'c timerqueue \<Rightarrow> 'c timerqueue" where
  "readTimerfd q = q\<lparr>tq_armed := None\<rparr>"

definition TimerQueue_new :: "int \<Rightarrow> 'c timerqueue" where
  "TimerQueue_new tid = \<lparr>tq_thread = tid, tq_heap = (\<lambda>_. None), tq_timers = [], tq_active = [], tq_calling = False,
     tq_canceling = [], tq_armed = None, tq_numCreated = 0\<rparr>"

section \<open>Operations\<close>

text \<open>\<^verbatim>\<open>std::set::insert\<close> and \<^verbatim>\<open>erase\<close>, with the boolean and the count they return.\<close>

definition set_insert :: "'a::linorder \<Rightarrow> 'a list \<Rightarrow> bool \<times> 'a list" where
  "set_insert x xs = (if x \<in> set xs then (False, xs) else (True, insort x xs))"

definition set_erase :: "'a::linorder \<Rightarrow> 'a list \<Rightarrow> nat \<times> 'a list" where
  "set_erase x xs = (if x \<in> set xs then (1, remove1 x xs) else (0, xs))"

definition TimerQueue_assertInLoopThread :: "int \<Rightarrow> 'c timerqueue \<Rightarrow> unit option" where
  "TimerQueue_assertInLoopThread tid q = assert_that (tq_thread q = tid)"

definition TimerQueue_insert :: "int \<Rightarrow> taddr \<Rightarrow> 'c timerqueue \<Rightarrow> (bool \<times> 'c timerqueue) option" where
  "TimerQueue_insert tid timer q =
     do {
       TimerQueue_assertInLoopThread tid q;
       assert_that (length (tq_timers q) = length (tq_active q));
       t \<leftarrow> tq_heap q timer;
       let when = tm_expiration t;
       let earliestChanged = (tq_timers q = [] \<or> when < fst (hd (tq_timers q)));
       let (inserted, timers) = set_insert (when, timer) (tq_timers q);
       assert_that inserted;
       let (inserted, active) = set_insert (timer, tm_sequence t) (tq_active q);
       assert_that inserted;
       assert_that (length timers = length active);
       Some (earliestChanged, q\<lparr>tq_timers := timers, tq_active := active\<rparr>) }"

definition TimerQueue_addTimerInLoop :: "int \<Rightarrow> timestamp \<Rightarrow> taddr \<Rightarrow> 'c timerqueue \<Rightarrow> 'c timerqueue option" where
  "TimerQueue_addTimerInLoop tid clk timer q =
     do {
       TimerQueue_assertInLoopThread tid q;
       (earliestChanged, q) \<leftarrow> TimerQueue_insert tid timer q;
       t \<leftarrow> tq_heap q timer;
       Some (if earliestChanged then resetTimerfd clk (tm_expiration t) q else q) }"

definition TimerQueue_allocTimer :: "taddr \<Rightarrow> 'c \<Rightarrow> timestamp \<Rightarrow> rat \<Rightarrow> 'c timerqueue \<Rightarrow> timer_id \<times> 'c timerqueue" where
  "TimerQueue_allocTimer a cb when interval q =
     (let n = tq_numCreated q + 1
      in ((a, n), q\<lparr>tq_heap := (tq_heap q)(a \<mapsto> Timer_new cb when interval n), tq_numCreated := n\<rparr>))"

text \<open>
  \<^verbatim>\<open>addTimer\<close> allocates the timer in the calling thread. From another thread the second half is
  left to the loop: the result says so.
\<close>

definition TimerQueue_addTimer ::
  "int \<Rightarrow> timestamp \<Rightarrow> taddr \<Rightarrow> 'c \<Rightarrow> timestamp \<Rightarrow> rat \<Rightarrow> 'c timerqueue \<Rightarrow> (timer_id \<times> bool \<times> 'c timerqueue) option" where
  "TimerQueue_addTimer tid clk a cb when interval q =
     (let (timerId, q) = TimerQueue_allocTimer a cb when interval q
      in if tq_thread q = tid then do { q \<leftarrow> TimerQueue_addTimerInLoop tid clk a q; Some (timerId, False, q) }
         else Some (timerId, True, q))"

definition TimerQueue_cancelInLoop :: "int \<Rightarrow> timer_id \<Rightarrow> 'c timerqueue \<Rightarrow> 'c timerqueue option" where
  "TimerQueue_cancelInLoop tid timerId q =
     do {
       TimerQueue_assertInLoopThread tid q;
       assert_that (length (tq_timers q) = length (tq_active q));
       q \<leftarrow>
         (if timerId \<in> set (tq_active q) then
            do {
              t \<leftarrow> tq_heap q (fst timerId);
              let (n, timers) = set_erase (tm_expiration t, fst timerId) (tq_timers q);
              assert_that (n = 1);
              Some (q\<lparr>tq_timers := timers, tq_heap := (tq_heap q)(fst timerId := None),
                      tq_active := snd (set_erase timerId (tq_active q))\<rparr>) }
          else if tq_calling q then Some (q\<lparr>tq_canceling := snd (set_insert timerId (tq_canceling q))\<rparr>)
          else Some q);
       assert_that (length (tq_timers q) = length (tq_active q));
       Some q }"

text \<open>\<open>forget\<close> is the loop of \<^verbatim>\<open>getExpired\<close> over the entries it moved out.\<close>

text \<open>
  \<^verbatim>\<open>cancel\<close> and the timer functions of \<^verbatim>\<open>EventLoop\<close>; as for \<open>TimerQueue_addTimer\<close>, the boolean says
  whether the second half was left to the loop's thread. \<open>now\<close> is the clock.
\<close>

definition TimerQueue_cancel :: "int \<Rightarrow> timer_id \<Rightarrow> 'c timerqueue \<Rightarrow> (bool \<times> 'c timerqueue) option" where
  "TimerQueue_cancel tid timerId q =
     (if tq_thread q = tid then do { q \<leftarrow> TimerQueue_cancelInLoop tid timerId q; Some (False, q) }
      else Some (True, q))"

definition EventLoop_runAt ::
  "int \<Rightarrow> timestamp \<Rightarrow> taddr \<Rightarrow> timestamp \<Rightarrow> 'c \<Rightarrow> 'c timerqueue \<Rightarrow> (timer_id \<times> bool \<times> 'c timerqueue) option" where
  "EventLoop_runAt tid clk a time cb q = TimerQueue_addTimer tid clk a cb time 0 q"

definition EventLoop_runAfter ::
  "int \<Rightarrow> timestamp \<Rightarrow> taddr \<Rightarrow> timestamp \<Rightarrow> rat \<Rightarrow> 'c \<Rightarrow> 'c timerqueue \<Rightarrow> (timer_id \<times> bool \<times> 'c timerqueue) option" where
  "EventLoop_runAfter tid clk a now delay cb q = EventLoop_runAt tid clk a (addTime now delay) cb q"

definition EventLoop_runEvery ::
  "int \<Rightarrow> timestamp \<Rightarrow> taddr \<Rightarrow> timestamp \<Rightarrow> rat \<Rightarrow> 'c \<Rightarrow> 'c timerqueue \<Rightarrow> (timer_id \<times> bool \<times> 'c timerqueue) option" where
  "EventLoop_runEvery tid clk a now interval cb q = TimerQueue_addTimer tid clk a cb (addTime now interval) interval q"

definition EventLoop_cancel :: "int \<Rightarrow> timer_id \<Rightarrow> 'c timerqueue \<Rightarrow> (bool \<times> 'c timerqueue) option" where
  "EventLoop_cancel tid timerId q = TimerQueue_cancel tid timerId q"

fun forget :: "(timestamp \<times> taddr) list \<Rightarrow> 'c timerqueue \<Rightarrow> 'c timerqueue option" where
  "forget [] q = Some q"
| "forget ((w, a) # es) q =
     do {
       t \<leftarrow> tq_heap q a;
       let (n, active) = set_erase (a, tm_sequence t) (tq_active q);
       assert_that (n = 1);
       forget es (q\<lparr>tq_active := active\<rparr>) }"

definition before_sentry :: "timestamp \<Rightarrow> timestamp \<times> taddr \<Rightarrow> bool" where
  "before_sentry now e \<longleftrightarrow> (fst e, enat (snd e)) < (now, UINTPTR_MAX)"

definition TimerQueue_getExpired ::
  "timestamp \<Rightarrow> 'c timerqueue \<Rightarrow> ((timestamp \<times> taddr) list \<times> 'c timerqueue) option" where
  "TimerQueue_getExpired now q =
     do {
       assert_that (length (tq_timers q) = length (tq_active q));
       let expired = takeWhile (before_sentry now) (tq_timers q);
       let rest = dropWhile (before_sentry now) (tq_timers q);
       assert_that (rest = [] \<or> now < fst (hd rest));
       q \<leftarrow> forget expired (q\<lparr>tq_timers := rest\<rparr>);
       assert_that (length (tq_timers q) = length (tq_active q));
       Some (expired, q) }"

fun rearm :: "int \<Rightarrow> timestamp \<Rightarrow> (timestamp \<times> taddr) list \<Rightarrow> 'c timerqueue \<Rightarrow> 'c timerqueue option" where
  "rearm tid now [] q = Some q"
| "rearm tid now ((w, a) # es) q =
     do {
       t \<leftarrow> tq_heap q a;
       q \<leftarrow>
         (if tm_repeat t \<and> (a, tm_sequence t) \<notin> set (tq_canceling q) then
            do {
              (_, q) \<leftarrow> TimerQueue_insert tid a (q\<lparr>tq_heap := (tq_heap q)(a \<mapsto> Timer_restart now t)\<rparr>);
              Some q }
          else Some (q\<lparr>tq_heap := (tq_heap q)(a := None)\<rparr>));
       rearm tid now es q }"

definition TimerQueue_reset ::
  "int \<Rightarrow> (timestamp \<times> taddr) list \<Rightarrow> timestamp \<Rightarrow> timestamp \<Rightarrow> 'c timerqueue \<Rightarrow> 'c timerqueue option" where
  "TimerQueue_reset tid expired now clk q =
     do {
       q \<leftarrow> rearm tid now expired q;
       nextExpire \<leftarrow> (if tq_timers q \<noteq> [] then map_option tm_expiration (tq_heap q (snd (hd (tq_timers q))))
                     else Some Timestamp_invalid);
       Some (if Timestamp_valid nextExpire then resetTimerfd clk nextExpire q else q) }"

section \<open>Callbacks\<close>

datatype 'c tq_op = AddTimer timestamp 'c timestamp rat | CancelTimer timer_id

type_synonym 'c alloc = "'c timerqueue \<Rightarrow> taddr"
type_synonym 'c script = "'c \<Rightarrow> 'c timerqueue \<Rightarrow> 'c tq_op list"

fun tq_exec :: "int \<Rightarrow> 'c alloc \<Rightarrow> 'c tq_op \<Rightarrow> 'c timerqueue \<Rightarrow> 'c timerqueue option" where
  "tq_exec tid alloc (AddTimer clk cb when interval) q =
     do { (_, _, q) \<leftarrow> TimerQueue_addTimer tid clk (alloc q) cb when interval q; Some q }"
| "tq_exec tid alloc (CancelTimer timerId) q = TimerQueue_cancelInLoop tid timerId q"

fun tq_run :: "int \<Rightarrow> 'c alloc \<Rightarrow> 'c tq_op list \<Rightarrow> 'c timerqueue \<Rightarrow> 'c timerqueue option" where
  "tq_run tid alloc [] q = Some q"
| "tq_run tid alloc (x # xs) q = do { q \<leftarrow> tq_exec tid alloc x q; tq_run tid alloc xs q }"

fun run_expired ::
  "int \<Rightarrow> 'c alloc \<Rightarrow> 'c script \<Rightarrow> (timestamp \<times> taddr) list \<Rightarrow> 'c timerqueue \<Rightarrow> 'c timerqueue option" where
  "run_expired tid alloc script [] q = Some q"
| "run_expired tid alloc script ((w, a) # es) q =
     do {
       t \<leftarrow> tq_heap q a;
       q \<leftarrow> tq_run tid alloc (script (tm_callback t) q) q;
       run_expired tid alloc script es q }"

definition TimerQueue_handleRead ::
  "int \<Rightarrow> 'c alloc \<Rightarrow> 'c script \<Rightarrow> timestamp \<Rightarrow> timestamp \<Rightarrow> 'c timerqueue \<Rightarrow> 'c timerqueue option" where
  "TimerQueue_handleRead tid alloc script now clk q =
     do {
       TimerQueue_assertInLoopThread tid q;
       (expired, q) \<leftarrow> TimerQueue_getExpired now (readTimerfd q);
       q \<leftarrow> run_expired tid alloc script expired (q\<lparr>tq_calling := True, tq_canceling := []\<rparr>);
       TimerQueue_reset tid expired now clk (q\<lparr>tq_calling := False\<rparr>) }"




section \<open>The invariant\<close>

text \<open>
  \<open>ex\<close> are the entries that \<^verbatim>\<open>getExpired\<close> moved out while their callbacks run: their timers still
  exist, in no container.
\<close>

definition active_of :: "(taddr \<Rightarrow> 'c timer option) \<Rightarrow> (timestamp \<times> taddr) list \<Rightarrow> (taddr \<times> int) set" where
  "active_of h es = (\<lambda>(w, a). (a, tm_sequence (the (h a)))) ` set es"

definition TQ_inv :: "int \<Rightarrow> (timestamp \<times> taddr) list \<Rightarrow> 'c timerqueue \<Rightarrow> bool" where
  "TQ_inv tid ex q \<longleftrightarrow>
     tq_thread q = tid \<and> finite (dom (tq_heap q)) \<and>
     sorted_wrt (<) (tq_timers q) \<and> sorted_wrt (<) (tq_active q) \<and>
     distinct (map snd (tq_timers q @ ex)) \<and>
     (\<forall>(w, a) \<in> set (tq_timers q). \<exists>t. tq_heap q a = Some t \<and> tm_expiration t = w \<and> 0 < w) \<and>
     (\<forall>(w, a) \<in> set ex. tq_heap q a \<noteq> None) \<and>
     set (tq_active q) = active_of (tq_heap q) (tq_timers q)"

definition armed_ok :: "'c timerqueue \<Rightarrow> bool" where
  "armed_ok q \<longleftrightarrow> (tq_timers q \<noteq> [] \<longrightarrow>
     (\<exists>armed. tq_armed q = Some armed \<and> timerfd_fires armed \<le> 1000 * max (fst (hd (tq_timers q))) (fst armed + 100)))"

definition alloc_ok :: "'c alloc \<Rightarrow> bool" where
  "alloc_ok alloc \<longleftrightarrow> (\<forall>q. finite (dom (tq_heap q)) \<longrightarrow> tq_heap q (alloc q) = None)"

fun op_ok :: "'c tq_op \<Rightarrow> bool" where
  "op_ok (AddTimer clk cb when interval) = Timestamp_valid when"
| "op_ok (CancelTimer timerId) = True"

definition script_ok :: "'c script \<Rightarrow> bool" where
  "script_ok script \<longleftrightarrow> (\<forall>c q. \<forall>x \<in> set (script c q). op_ok x)"

lemma sorted_insort: "sorted_wrt (<) xs \<Longrightarrow> x \<notin> set xs \<Longrightarrow> sorted_wrt (<) (insort x (xs :: 'a::linorder list))"
  by (metis distinct_insort sorted_insort strict_sorted_iff)

lemma sorted_remove1: "sorted_wrt (<) xs \<Longrightarrow> sorted_wrt (<) (remove1 x (xs :: 'a::linorder list))"
  by (metis distinct_remove1 sorted_remove1 strict_sorted_iff)

lemma TQ_sizes:
  assumes "TQ_inv tid ex q"
  shows "length (tq_timers q) = length (tq_active q)"
proof -
  have d: "distinct (map snd (tq_timers q))" "distinct (tq_active q)"
    using assms by (auto simp: TQ_inv_def strict_sorted_iff)
  have "inj_on (\<lambda>(w, a). (a, tm_sequence (the (tq_heap q a)))) (set (tq_timers q))"
    using d(1) by (force simp: inj_on_def distinct_map)
  then have "card (set (tq_active q)) = card (set (tq_timers q))"
    using assms by (simp add: TQ_inv_def active_of_def card_image)
  moreover have "distinct (tq_timers q)" using d(1) by (simp add: distinct_map)
  ultimately show ?thesis using d(2) by (metis distinct_card)
qed

lemma TQ_timer:
  "TQ_inv tid ex q \<Longrightarrow> (w, a) \<in> set (tq_timers q) \<Longrightarrow> \<exists>t. tq_heap q a = Some t \<and> tm_expiration t = w \<and> 0 < w"
  by (force simp: TQ_inv_def)

lemma active_of_insort: "active_of h (insort (w, a) es) = insert (a, tm_sequence (the (h a))) (active_of h es)"
  by (simp add: active_of_def set_insort_key)

lemma active_of_fresh: "a \<notin> snd ` set es \<Longrightarrow> (a, n) \<notin> active_of h es"
  by (force simp: active_of_def)

lemma active_of_cong: "(\<And>w a. (w, a) \<in> set es \<Longrightarrow> h a = h' a) \<Longrightarrow> active_of h es = active_of h' es"
  by (force simp: active_of_def)

lemma distinct_snd_insort: "distinct (map snd (insort x xs)) \<longleftrightarrow> snd x \<notin> snd ` set xs \<and> distinct (map snd xs)"
  by (induction xs) (auto simp: set_insort_key)

lemma distinct_snd_unique: "distinct (map snd es) \<Longrightarrow> (v, a) \<in> set es \<Longrightarrow> (w, a) \<in> set es \<Longrightarrow> v = w"
  by (force simp: distinct_map inj_on_def)

lemma howMuchTimeFromNow_timespec:
  "case howMuchTimeFromNow now when of (sec, nsec) \<Rightarrow>
     0 \<le> sec \<and> 0 \<le> nsec \<and> nsec < 1000000000 \<and> sec * 1000000000 + nsec = max 100 (when - now) * 1000"
proof -
  define us where "us = max 100 (when - now)"
  have pos: "0 \<le> us" "sgn us = 1" by (simp_all add: us_def)
  have "us sdiv 1000000 = us div 1000000" "us smod 1000000 = us mod 1000000"
    using pos by (simp_all add: signed_divide_int_def signed_modulo_int_def)
  moreover have "us = us div 1000000 * 1000000 + us mod 1000000" by simp
  moreover have "0 \<le> us mod 1000000" "us mod 1000000 < 1000000" "0 \<le> us div 1000000" using pos(1) by simp_all
  moreover have "howMuchTimeFromNow now when = (us sdiv 1000000, us smod 1000000 * 1000)"
    by (simp add: howMuchTimeFromNow_def us_def Let_def kMicroSecondsPerSecond_def max_def)
  ultimately show ?thesis unfolding us_def [symmetric] by (simp, linarith)
qed

lemma timerfd_fires_howMuch: "timerfd_fires (clk, howMuchTimeFromNow clk w) = 1000 * max w (clk + 100)"
  using howMuchTimeFromNow_timespec [of w clk] by (auto simp: timerfd_fires_def max_def split: prod.splits)

lemma armed_ok_reset: "fst (hd (tq_timers q)) = w \<Longrightarrow> armed_ok (resetTimerfd clk w q)"
  by (simp add: armed_ok_def resetTimerfd_def timerfd_fires_howMuch)

lemma armed_ok_later:
  "armed_ok q \<Longrightarrow> tq_timers q \<noteq> [] \<Longrightarrow> tq_armed q' = tq_armed q \<Longrightarrow>
   fst (hd (tq_timers q)) \<le> fst (hd (tq_timers q')) \<Longrightarrow> armed_ok q'"
  by (fastforce simp: armed_ok_def max_def split: if_splits)

section \<open>Inserting\<close>

lemma TimerQueue_insert_spec:
  assumes inv: "TQ_inv tid ex q" and t: "tq_heap q a = Some t" "0 < tm_expiration t"
    and a: "a \<notin> snd ` set (tq_timers q)" "a \<notin> snd ` set ex"
  shows "\<exists>q'. TimerQueue_insert tid a q =
      Some (tq_timers q = [] \<or> tm_expiration t < fst (hd (tq_timers q)), q') \<and> TQ_inv tid ex q' \<and>
    tq_timers q' = insort (tm_expiration t, a) (tq_timers q) \<and> tq_heap q' = tq_heap q \<and> tq_armed q' = tq_armed q \<and>
    tq_calling q' = tq_calling q \<and> tq_canceling q' = tq_canceling q"
proof -
  let ?w = "tm_expiration t"
  let ?q = "q\<lparr>tq_timers := insort (?w, a) (tq_timers q), tq_active := insort (a, tm_sequence t) (tq_active q)\<rparr>"
  have new: "(?w, a) \<notin> set (tq_timers q)" "(a, tm_sequence t) \<notin> set (tq_active q)"
    using a(1) inv active_of_fresh [OF a(1), of "tm_sequence t" "tq_heap q"] by (auto simp: TQ_inv_def image_iff)
  have "distinct (map snd (insort (?w, a) (tq_timers q) @ ex))"
    using inv a by (auto simp: TQ_inv_def distinct_snd_insort set_insort_key)
  moreover have "sorted_wrt (<) (tq_timers ?q)" "sorted_wrt (<) (tq_active ?q)"
    using inv new by (simp_all add: TQ_inv_def sorted_insort)
  moreover have "set (tq_active ?q) = active_of (tq_heap q) (tq_timers ?q)"
    using inv t(1) by (simp add: TQ_inv_def active_of_insort set_insort_key)
  ultimately have inv': "TQ_inv tid ex ?q"
    using inv t by (simp add: TQ_inv_def set_insort_key)
  have "TimerQueue_insert tid a q = Some (tq_timers q = [] \<or> ?w < fst (hd (tq_timers q)), ?q)"
    using inv t(1) new TQ_sizes [OF inv] TQ_sizes [OF inv']
    by (simp add: TimerQueue_insert_def TimerQueue_assertInLoopThread_def TQ_inv_def set_insert_def Let_def)
  with inv' show ?thesis by simp
qed

lemma hd_insort_fst:
  "sorted_wrt (<) xs \<Longrightarrow> fst (hd (insort (w, a) xs)) = (if xs = [] \<or> w < fst (hd xs) then w else fst (hd xs))"
  for xs :: "(timestamp \<times> taddr) list"
  by (cases xs) auto

text \<open>A new timer gets an address of its own; the queue stays armed for its earliest entry.\<close>

lemma TimerQueue_addTimer_spec:
  assumes inv: "TQ_inv tid ex q" and a: "tq_heap q a = None" and "0 < when"
  shows "\<exists>q'. TimerQueue_addTimer tid clk a cb when interval q = Some ((a, tq_numCreated q + 1), False, q') \<and> TQ_inv tid ex q' \<and>
    tq_timers q' = insort (when, a) (tq_timers q) \<and>
    tq_heap q' = (tq_heap q)(a \<mapsto> Timer_new cb when interval (tq_numCreated q + 1)) \<and>
    (armed_ok q \<longrightarrow> armed_ok q') \<and> tq_calling q' = tq_calling q \<and> tq_canceling q' = tq_canceling q"
proof -
  let ?t = "Timer_new cb when interval (tq_numCreated q + 1)"
  define q1 where "q1 = snd (TimerQueue_allocTimer a cb when interval q)"
  have q1: "tq_heap q1 = (tq_heap q)(a \<mapsto> ?t)" "tq_timers q1 = tq_timers q" "tq_active q1 = tq_active q"
      "tq_thread q1 = tq_thread q" "tq_armed q1 = tq_armed q" "tq_calling q1 = tq_calling q" "tq_canceling q1 = tq_canceling q"
    by (simp_all add: q1_def TimerQueue_allocTimer_def Let_def)
  have t: "tm_expiration ?t = when" by (simp add: Timer_new_def)
  have out: "a \<notin> snd ` set (tq_timers q)" "a \<notin> snd ` set ex"
    using inv a by (fastforce simp: TQ_inv_def)+
  have "active_of (tq_heap q1) (tq_timers q) = active_of (tq_heap q) (tq_timers q)"
    using out(1) by (intro active_of_cong) (force simp: q1)
  moreover have "\<forall>(w, b) \<in> set (tq_timers q). \<exists>t. tq_heap q1 b = Some t \<and> tm_expiration t = w \<and> 0 < w"
    using TQ_timer [OF inv] a by (force simp: q1)
  moreover have "\<forall>(w, b) \<in> set ex. tq_heap q1 b \<noteq> None" using inv by (auto simp: TQ_inv_def q1)
  ultimately have inv1: "TQ_inv tid ex q1" using inv by (simp add: TQ_inv_def q1)
  obtain q2 where q2: "TimerQueue_insert tid a q1 = Some (tq_timers q = [] \<or> when < fst (hd (tq_timers q)), q2)"
      "TQ_inv tid ex q2" "tq_timers q2 = insort (when, a) (tq_timers q)" "tq_heap q2 = tq_heap q1"
      "tq_armed q2 = tq_armed q" "tq_calling q2 = tq_calling q" "tq_canceling q2 = tq_canceling q"
    using TimerQueue_insert_spec [OF inv1, of a ?t] out assms(3) t by (auto simp: q1)
  let ?q = "if tq_timers q = [] \<or> when < fst (hd (tq_timers q)) then resetTimerfd clk when q2 else q2"
  have "TimerQueue_addTimer tid clk a cb when interval q = Some ((a, tq_numCreated q + 1), False, ?q)"
    using q2(1,4) inv t unfolding TimerQueue_addTimer_def TimerQueue_allocTimer_def q1_def
    by (simp add: TimerQueue_addTimerInLoop_def TimerQueue_assertInLoopThread_def TQ_inv_def Let_def)
  moreover have "TQ_inv tid ex ?q" using q2(2) by (simp add: resetTimerfd_def TQ_inv_def)
  moreover have "armed_ok q \<longrightarrow> armed_ok ?q"
    using q2(3,5) inv hd_insort_fst [of "tq_timers q" "when" a] armed_ok_reset [of q2 "when" clk] armed_ok_later [of q q2]
    by (auto simp: TQ_inv_def)
  ultimately show ?thesis using q2 q1 by (simp add: resetTimerfd_def)
qed

section \<open>Cancelling\<close>

lemma active_of_remove:
  assumes "distinct (map snd es)" "(w, a) \<in> set es"
  shows "active_of (h(a := x)) (remove1 (w, a) es) = active_of h es - {(a, tm_sequence (the (h a)))}"
proof -
  have d: "distinct es" using assms(1) by (simp add: distinct_map)
  have "b \<noteq> a" if "(v, b) \<in> set es - {(w, a)}" for v b
    using assms that distinct_snd_unique [OF assms(1)] by auto
  then have "active_of (h(a := x)) (remove1 (w, a) es) = (\<lambda>(w, a). (a, tm_sequence (the (h a)))) ` (set es - {(w, a)})"
    using d by (force simp: active_of_def)
  also have "\<dots> = active_of h es - {(a, tm_sequence (the (h a)))}"
    using \<open>\<And>v b. (v, b) \<in> set es - {(w, a)} \<Longrightarrow> b \<noteq> a\<close> by (force simp: active_of_def)
  finally show ?thesis .
qed

lemma fst_hd_remove1:
  "sorted_wrt (<) xs \<Longrightarrow> remove1 x xs \<noteq> [] \<Longrightarrow> fst (hd xs) \<le> fst (hd (remove1 x xs))"
  for xs :: "(timestamp \<times> taddr) list"
  by (cases xs; cases "tl xs") (auto simp: less_prod_def)

lemma TimerQueue_cancelInLoop_spec:
  assumes inv: "TQ_inv tid ex q"
  shows "\<exists>q'. TimerQueue_cancelInLoop tid timerId q = Some q' \<and> TQ_inv tid ex q' \<and> (armed_ok q \<longrightarrow> armed_ok q') \<and>
    tq_calling q' = tq_calling q \<and> set (tq_canceling q) \<subseteq> set (tq_canceling q') \<and>
    (\<forall>b \<in> snd ` set ex. tq_heap q' b = tq_heap q b) \<and> (\<forall>b t. tq_heap q' b = Some t \<longrightarrow> tq_heap q b = Some t) \<and>
    timerId \<notin> set (tq_active q') \<and>
    (timerId \<notin> set (tq_active q) \<and> tq_calling q \<longrightarrow> timerId \<in> set (tq_canceling q'))"
proof (cases "timerId \<in> set (tq_active q)")
  case True
  then obtain w a t where e: "(w, a) \<in> set (tq_timers q)" "timerId = (a, tm_sequence t)" "tq_heap q a = Some t" "tm_expiration t = w"
    using inv by (force simp: TQ_inv_def active_of_def)
  define q' where "q' = q\<lparr>tq_timers := remove1 (w, a) (tq_timers q), tq_heap := (tq_heap q)(a := None),
    tq_active := remove1 timerId (tq_active q)\<rparr>"
  have dist: "distinct (map snd (tq_timers q))" "distinct (tq_active q)" "distinct (tq_timers q)"
    using inv by (auto simp: TQ_inv_def strict_sorted_iff distinct_map)
  have out: "b \<noteq> a" if "(v, b) \<in> set ex" for v b
    using inv e(1) that by (force simp: TQ_inv_def)
  have other: "b \<noteq> a" if "(v, b) \<in> set (tq_timers q)" "(v, b) \<noteq> (w, a)" for v b
    using e(1) that distinct_snd_unique [OF dist(1)] by auto
  have "set (tq_active q') = active_of (tq_heap q') (tq_timers q')"
    using inv e dist(2) active_of_remove [OF dist(1) e(1), of "tq_heap q" None] by (simp add: q'_def TQ_inv_def)
  moreover have "\<forall>(v, b) \<in> set (tq_timers q'). \<exists>t. tq_heap q' b = Some t \<and> tm_expiration t = v \<and> 0 < v"
    using TQ_timer [OF inv] other dist(3) by (fastforce simp: q'_def)
  moreover have "distinct (map snd (tq_timers q' @ ex))"
    using inv dist(3) by (auto simp: q'_def TQ_inv_def distinct_map inj_on_def)
  ultimately have inv': "TQ_inv tid ex q'"
    using inv out by (fastforce simp: TQ_inv_def q'_def sorted_remove1)
  have "TimerQueue_cancelInLoop tid timerId q = Some q'"
    using True e inv TQ_sizes [OF inv] TQ_sizes [OF inv']
    by (simp add: TimerQueue_cancelInLoop_def TimerQueue_assertInLoopThread_def TQ_inv_def set_erase_def q'_def)
  moreover have "armed_ok q \<longrightarrow> armed_ok q'"
  proof (cases "tq_timers q' = []")
    case False
    then have "fst (hd (tq_timers q)) \<le> fst (hd (tq_timers q'))"
      using inv fst_hd_remove1 [of "tq_timers q" "(w, a)"] by (simp add: q'_def TQ_inv_def)
    moreover have "tq_armed q' = tq_armed q" by (simp add: q'_def)
    moreover have "tq_timers q \<noteq> []" using e(1) by auto
    ultimately show ?thesis using armed_ok_later by blast
  qed (simp add: armed_ok_def)
  ultimately show ?thesis using inv' True out dist(2) by (force simp: q'_def)
next
  case False
  define q' where "q' = (if tq_calling q then q\<lparr>tq_canceling := snd (set_insert timerId (tq_canceling q))\<rparr> else q)"
  have "TQ_inv tid ex q'" using inv by (simp add: q'_def TQ_inv_def)
  moreover have "TimerQueue_cancelInLoop tid timerId q = Some q'"
    using False inv TQ_sizes [OF inv]
    by (simp add: TimerQueue_cancelInLoop_def TimerQueue_assertInLoopThread_def TQ_inv_def q'_def)
  ultimately show ?thesis using False by (auto simp: q'_def armed_ok_def set_insert_def set_insort_key)
qed

section \<open>Operations of callbacks\<close>

definition repeat_ok :: "'c timerqueue \<Rightarrow> bool" where
  "repeat_ok q \<longleftrightarrow> (\<forall>a t. tq_heap q a = Some t \<longrightarrow> tm_repeat t \<longrightarrow> 0 < tm_interval t)"

text \<open>What the operations leave alone while callbacks run.\<close>

definition keeps :: "(timestamp \<times> taddr) list \<Rightarrow> 'c timerqueue \<Rightarrow> 'c timerqueue \<Rightarrow> bool" where
  "keeps ex q q' \<longleftrightarrow>
     tq_calling q' = tq_calling q \<and> set (tq_canceling q) \<subseteq> set (tq_canceling q') \<and>
     (\<forall>b \<in> snd ` set ex. tq_heap q' b = tq_heap q b) \<and> (armed_ok q \<longrightarrow> armed_ok q') \<and>
     (repeat_ok q \<longrightarrow> repeat_ok q')"

lemma keeps_refl [simp]: "keeps ex q q"
  by (simp add: keeps_def)

lemma keeps_trans: "keeps ex q q' \<Longrightarrow> keeps ex q' q'' \<Longrightarrow> keeps ex q q''"
  by (auto simp: keeps_def)

lemma tq_exec_spec:
  assumes al: "alloc_ok alloc" and inv: "TQ_inv tid ex q" and x: "op_ok x"
  shows "\<exists>q'. tq_exec tid alloc x q = Some q' \<and> TQ_inv tid ex q' \<and> keeps ex q q'"
proof (cases x)
  case (AddTimer clk cb w interval)
  have a: "tq_heap q (alloc q) = None" using al inv by (simp add: alloc_ok_def TQ_inv_def)
  have out: "\<forall>b \<in> snd ` set ex. b \<noteq> alloc q" using inv a by (fastforce simp: TQ_inv_def)
  moreover have "0 < w" using x AddTimer by (simp add: Timestamp_valid_def)
  ultimately obtain q' where q': "TimerQueue_addTimer tid clk (alloc q) cb w interval q = Some ((alloc q, tq_numCreated q + 1), False, q')"
      "TQ_inv tid ex q'" "tq_heap q' = (tq_heap q)(alloc q \<mapsto> Timer_new cb w interval (tq_numCreated q + 1))"
      "armed_ok q \<longrightarrow> armed_ok q'" "tq_calling q' = tq_calling q" "tq_canceling q' = tq_canceling q"
    using TimerQueue_addTimer_spec [OF inv a, of w clk cb interval] by blast
  have "repeat_ok q \<longrightarrow> repeat_ok q'"
    by (simp add: repeat_ok_def q'(3) Timer_new_def)
  moreover have "\<forall>b \<in> snd ` set ex. tq_heap q' b = tq_heap q b"
    using out by (simp add: q'(3))
  ultimately have "keeps ex q q'" using q' by (simp add: keeps_def)
  with q' AddTimer show ?thesis by simp
next
  case (CancelTimer timerId)
  obtain q' where q': "TimerQueue_cancelInLoop tid timerId q = Some q'" "TQ_inv tid ex q'" "armed_ok q \<longrightarrow> armed_ok q'"
      "tq_calling q' = tq_calling q" "set (tq_canceling q) \<subseteq> set (tq_canceling q')"
      "\<forall>b \<in> snd ` set ex. tq_heap q' b = tq_heap q b" "\<forall>b t. tq_heap q' b = Some t \<longrightarrow> tq_heap q b = Some t"
    using TimerQueue_cancelInLoop_spec [OF inv, of timerId] by blast
  then have "keeps ex q q'" unfolding keeps_def repeat_ok_def by blast
  with q'(1,2) CancelTimer show ?thesis by simp
qed

lemma tq_run_spec:
  assumes al: "alloc_ok alloc"
  shows "TQ_inv tid ex q \<Longrightarrow> \<forall>x \<in> set xs. op_ok x \<Longrightarrow>
    \<exists>q'. tq_run tid alloc xs q = Some q' \<and> TQ_inv tid ex q' \<and> keeps ex q q'"
proof (induction xs arbitrary: q)
  case (Cons x xs)
  then obtain q1 where q1: "tq_exec tid alloc x q = Some q1" "TQ_inv tid ex q1" "keeps ex q q1"
    using tq_exec_spec [OF al, of tid ex q x] by auto
  with Cons obtain q2 where "tq_run tid alloc xs q1 = Some q2" "TQ_inv tid ex q2" "keeps ex q1 q2" by auto
  with q1 keeps_trans show ?case by auto
qed simp

lemma run_expired_spec:
  assumes al: "alloc_ok alloc" and sc: "script_ok script"
  shows "TQ_inv tid ex q \<Longrightarrow> set es \<subseteq> set ex \<Longrightarrow>
    \<exists>q'. run_expired tid alloc script es q = Some q' \<and> TQ_inv tid ex q' \<and> keeps ex q q'"
proof (induction es arbitrary: q)
  case (Cons e es)
  obtain w a where e: "e = (w, a)" by fastforce
  with Cons.prems obtain t where t: "tq_heap q a = Some t" by (force simp: TQ_inv_def)
  obtain q1 where q1: "tq_run tid alloc (script (tm_callback t) q) q = Some q1" "TQ_inv tid ex q1" "keeps ex q q1"
    using tq_run_spec [OF al Cons.prems(1), of "script (tm_callback t) q"] sc by (auto simp: script_ok_def)
  with Cons obtain q2 where "run_expired tid alloc script es q1 = Some q2" "TQ_inv tid ex q2" "keeps ex q1 q2" by auto
  with q1 t e keeps_trans show ?case by auto
qed simp

section \<open>Expiry\<close>

lemma before_sentry_iff: "before_sentry now e \<longleftrightarrow> fst e \<le> now"
  by (auto simp: before_sentry_def UINTPTR_MAX_def less_prod_def)

lemma in_set_Cons: "e \<in> set ys \<Longrightarrow> \<exists>x xs. ys = x # xs"
  by (cases ys) auto

lemma forget_spec:
  assumes "sorted_wrt (<) (tq_active q)" "distinct (map snd (es @ tq_timers q))"
    and "\<forall>(w, a) \<in> set es. tq_heap q a \<noteq> None" "set (tq_active q) = active_of (tq_heap q) (es @ tq_timers q)"
  shows "\<exists>active. forget es q = Some (q\<lparr>tq_active := active\<rparr>) \<and> sorted_wrt (<) active \<and>
    set active = active_of (tq_heap q) (tq_timers q)"
  using assms
proof (induction es arbitrary: q)
  case (Cons e es)
  obtain w a where e: "e = (w, a)" by fastforce
  with Cons.prems obtain t where t: "tq_heap q a = Some t" by auto
  let ?id = "(a, tm_sequence t)"
  have m: "?id \<in> set (tq_active q)" using Cons.prems(4) e t by (simp add: active_of_def)
  have out: "a \<notin> snd ` set (es @ tq_timers q)" using Cons.prems(2) e by auto
  have "distinct (tq_active q)" using Cons.prems(1) by (simp add: strict_sorted_iff)
  then have act: "set (remove1 ?id (tq_active q)) = active_of (tq_heap q) (es @ tq_timers q)"
    using Cons.prems(4) e t active_of_fresh [OF out, of "tm_sequence t" "tq_heap q"] by (auto simp: active_of_def)
  let ?q = "q\<lparr>tq_active := remove1 ?id (tq_active q)\<rparr>"
  have "\<exists>active. forget es ?q = Some (?q\<lparr>tq_active := active\<rparr>) \<and> sorted_wrt (<) active \<and>
      set active = active_of (tq_heap ?q) (tq_timers ?q)"
    by (rule Cons.IH) (use Cons.prems act e in \<open>auto simp: sorted_remove1\<close>)
  with t m e show ?case by (auto simp: set_erase_def)
next
  case Nil
  then show ?case by (intro exI [of _ "tq_active q"]) simp
qed

lemma TimerQueue_getExpired_spec:
  assumes inv: "TQ_inv tid [] q"
  shows "\<exists>expired q'. TimerQueue_getExpired now q = Some (expired, q') \<and> TQ_inv tid expired q' \<and>
    tq_timers q = expired @ tq_timers q' \<and> (\<forall>e \<in> set expired. fst e \<le> now) \<and> (\<forall>e \<in> set (tq_timers q'). now < fst e) \<and>
    tq_heap q' = tq_heap q \<and> tq_armed q' = tq_armed q \<and> tq_canceling q' = tq_canceling q"
proof -
  let ?ex = "takeWhile (before_sentry now) (tq_timers q)" and ?rest = "dropWhile (before_sentry now) (tq_timers q)"
  let ?q = "q\<lparr>tq_timers := ?rest\<rparr>"
  have split: "tq_timers q = ?ex @ ?rest" by simp
  have sorted: "sorted_wrt (<) (?ex @ ?rest)" using inv by (simp add: TQ_inv_def)
  have rest: "now < fst e" if e: "e \<in> set ?rest" for e
  proof -
    obtain x xs where xs: "?rest = x # xs" using in_set_Cons [OF e] by blast
    then have x: "now < fst x" using hd_dropWhile [of "before_sentry now" "tq_timers q"] by (auto simp: before_sentry_iff)
    have "e = x \<or> x < e" using e sorted xs by (auto simp: sorted_wrt_append)
    with x show ?thesis by (auto simp: less_prod_def)
  qed
  have d: "distinct (map snd (?ex @ ?rest))" using inv by (simp add: TQ_inv_def)
  have "\<exists>active. forget ?ex ?q = Some (?q\<lparr>tq_active := active\<rparr>) \<and> sorted_wrt (<) active \<and>
      set active = active_of (tq_heap ?q) (tq_timers ?q)"
  proof (rule forget_spec)
    show "\<forall>(w, a) \<in> set ?ex. tq_heap ?q a \<noteq> None"
      using TQ_timer [OF inv] by (fastforce dest: set_takeWhileD)
  qed (use inv d in \<open>simp_all add: TQ_inv_def\<close>)
  then obtain active where f: "forget ?ex ?q = Some (?q\<lparr>tq_active := active\<rparr>)" "sorted_wrt (<) active"
      "set active = active_of (tq_heap q) ?rest" by auto
  let ?q' = "?q\<lparr>tq_active := active\<rparr>"
  have "sorted_wrt (<) ?rest" using sorted by (simp add: sorted_wrt_append)
  moreover have "\<forall>(w, a) \<in> set ?rest. \<exists>t. tq_heap q a = Some t \<and> tm_expiration t = w \<and> 0 < w"
    using TQ_timer [OF inv] by (fastforce dest: set_dropWhileD)
  moreover have "\<forall>(w, a) \<in> set ?ex. tq_heap q a \<noteq> None"
    using TQ_timer [OF inv] by (fastforce dest: set_takeWhileD)
  moreover have "distinct (map snd (?rest @ ?ex))"
    using d unfolding map_append distinct_append by blast
  ultimately have inv': "TQ_inv tid ?ex ?q'" using inv f(2,3) by (simp add: TQ_inv_def)
  have "?rest = [] \<or> now < fst (hd ?rest)" using rest hd_in_set by blast
  then have "TimerQueue_getExpired now q = Some (?ex, ?q')"
    using f(1) TQ_sizes [OF inv] TQ_sizes [OF inv'] by (simp add: TimerQueue_getExpired_def)
  with inv' rest split show ?thesis
    by (intro exI [of _ ?ex] exI [of _ ?q']) (auto simp: before_sentry_iff dest: set_takeWhileD)
qed

section \<open>Rearming\<close>

definition restarted :: "(taddr \<Rightarrow> 'c timer option) \<Rightarrow> (taddr \<times> int) set \<Rightarrow> timestamp \<Rightarrow> (timestamp \<times> taddr) list \<Rightarrow> (timestamp \<times> taddr) set" where
  "restarted h cancelled now es =
     (\<Union>(w, a) \<in> set es. case h a of
        None \<Rightarrow> {}
      | Some t \<Rightarrow> if tm_repeat t \<and> (a, tm_sequence t) \<notin> cancelled then {(addTime now (tm_interval t), a)} else {})"

lemma restarted_Nil [simp]: "restarted h c now [] = {}"
  by (simp add: restarted_def)

lemma restarted_cong:
  "(\<And>w a. (w, a) \<in> set es \<Longrightarrow> h a = h' a) \<Longrightarrow> restarted h c now es = restarted h' c now es"
  unfolding restarted_def by (intro SUP_cong) auto

lemma restarted_Cons:
  "h a = Some t \<Longrightarrow> restarted h c now ((w, a) # es) =
     (if tm_repeat t \<and> (a, tm_sequence t) \<notin> c then {(addTime now (tm_interval t), a)} else {}) \<union> restarted h c now es"
  by (simp add: restarted_def)

text \<open>A timer leaves the expired entries: it is deleted, or restarted and put back.\<close>

lemma TQ_inv_head:
  assumes "TQ_inv tid ((w, a) # es) q"
  shows "a \<notin> snd ` set (tq_timers q)" "a \<notin> snd ` set es"
  using assms by (auto simp: TQ_inv_def)

lemma not_snd: "a \<notin> snd ` set es \<Longrightarrow> (v, b) \<in> set es \<Longrightarrow> b \<noteq> a"
  by (metis image_eqI snd_conv)

lemma TQ_inv_drop:
  assumes inv: "TQ_inv tid ((w, a) # es) q"
  shows "TQ_inv tid es (q\<lparr>tq_heap := (tq_heap q)(a := x)\<rparr>)"
proof -
  note ne = not_snd [OF TQ_inv_head(1) [OF inv]] not_snd [OF TQ_inv_head(2) [OF inv]]
  let ?h = "(tq_heap q)(a := x)" and ?q = "q\<lparr>tq_heap := (tq_heap q)(a := x)\<rparr>"
  have active: "active_of ?h (tq_timers q) = active_of (tq_heap q) (tq_timers q)"
    using ne(1) by (intro active_of_cong) auto
  have timers: "\<forall>(v, b) \<in> set (tq_timers q). \<exists>t. ?h b = Some t \<and> tm_expiration t = v \<and> 0 < v"
  proof clarify
    fix v b assume e: "(v, b) \<in> set (tq_timers q)"
    from TQ_timer [OF inv e] ne(1) [OF e] show "\<exists>t. ?h b = Some t \<and> tm_expiration t = v \<and> 0 < v" by simp
  qed
  have expired: "\<forall>(v, b) \<in> set es. ?h b \<noteq> None"
  proof -
    have "?h b \<noteq> None" if e: "(v, b) \<in> set es" for v b
      using inv ne(2) [OF e] e by (auto simp: TQ_inv_def)
    then show ?thesis by blast
  qed
  have "finite (dom ?h)" using inv by (cases x) (auto simp: TQ_inv_def)
  moreover have "tq_thread q = tid" "sorted_wrt (<) (tq_timers q)" "sorted_wrt (<) (tq_active q)"
      "distinct (map snd (tq_timers q @ es))" "set (tq_active q) = active_of (tq_heap q) (tq_timers q)"
    using inv by (auto simp: TQ_inv_def)
  moreover have "tq_heap ?q = ?h" "tq_timers ?q = tq_timers q" "tq_active ?q = tq_active q" "tq_thread ?q = tq_thread q"
    by simp_all
  ultimately show ?thesis
    unfolding TQ_inv_def using active timers expired by (simp only: simp_thms)
qed

lemma rearm_spec:
  assumes "TQ_inv tid es q" "0 < now" "repeat_ok q"
  shows "\<exists>q'. rearm tid now es q = Some q' \<and> TQ_inv tid [] q' \<and> repeat_ok q' \<and>
    set (tq_timers q') = set (tq_timers q) \<union> restarted (tq_heap q) (set (tq_canceling q)) now es \<and>
    tq_armed q' = tq_armed q \<and> tq_calling q' = tq_calling q"
  using assms
proof (induction es arbitrary: q)
  case (Cons e es)
  obtain w a where e: "e = (w, a)" by fastforce
  with Cons.prems(1) obtain t where t: "tq_heap q a = Some t" by (auto simp: TQ_inv_def)
  have inv: "TQ_inv tid ((w, a) # es) q" using Cons.prems(1) e by simp
  show ?case
  proof (cases "tm_repeat t \<and> (a, tm_sequence t) \<notin> set (tq_canceling q)")
    case True
    let ?t = "Timer_restart now t"
    have rt: "tm_expiration ?t = addTime now (tm_interval t)" using True by (simp add: Timer_restart_def)
    have iv: "0 < tm_interval t" using True t Cons.prems(3) by (auto simp: repeat_ok_def)
    then have pos: "0 < tm_expiration ?t" using Cons.prems(2) addTime_le [of "tm_interval t" now] rt by simp
    let ?q1 = "q\<lparr>tq_heap := (tq_heap q)(a \<mapsto> ?t)\<rparr>"
    have inv1: "TQ_inv tid es ?q1" by (rule TQ_inv_drop [OF inv])
    note out = TQ_inv_head [OF inv]
    obtain b q2 where q2: "TimerQueue_insert tid a ?q1 = Some (b, q2)" "TQ_inv tid es q2"
        "tq_timers q2 = insort (tm_expiration ?t, a) (tq_timers q)" "tq_heap q2 = tq_heap ?q1"
        "tq_armed q2 = tq_armed q" "tq_calling q2 = tq_calling q" "tq_canceling q2 = tq_canceling q"
      using TimerQueue_insert_spec [OF inv1, of a ?t] pos out by auto
    have "repeat_ok q2" using Cons.prems(3) q2(4) True iv by (auto simp: repeat_ok_def Timer_restart_def)
    from Cons.IH [OF q2(2) Cons.prems(2) this] obtain q3 where q3: "rearm tid now es q2 = Some q3" "TQ_inv tid [] q3" "repeat_ok q3"
        "set (tq_timers q3) = set (tq_timers q2) \<union> restarted (tq_heap q2) (set (tq_canceling q2)) now es"
        "tq_armed q3 = tq_armed q2" "tq_calling q3 = tq_calling q2" by blast
    have "restarted (tq_heap q2) (set (tq_canceling q)) now es = restarted (tq_heap q) (set (tq_canceling q)) now es"
      using out(2) q2(4) by (intro restarted_cong) force
    with q2 q3 t True e rt show ?thesis
      by (auto simp: restarted_Cons set_insort_key)
  next
    case False
    let ?q = "q\<lparr>tq_heap := (tq_heap q)(a := None)\<rparr>"
    have inv1: "TQ_inv tid es ?q" by (rule TQ_inv_drop [OF inv])
    have "repeat_ok ?q" using Cons.prems(3) by (auto simp: repeat_ok_def)
    from Cons.IH [OF inv1 Cons.prems(2) this] obtain q3 where q3: "rearm tid now es ?q = Some q3" "TQ_inv tid [] q3" "repeat_ok q3"
        "set (tq_timers q3) = set (tq_timers ?q) \<union> restarted (tq_heap ?q) (set (tq_canceling ?q)) now es"
        "tq_armed q3 = tq_armed ?q" "tq_calling q3 = tq_calling ?q" by blast
    have "a \<notin> snd ` set es" by (rule TQ_inv_head [OF inv])
    then have "restarted (tq_heap ?q) (set (tq_canceling q)) now es = restarted (tq_heap q) (set (tq_canceling q)) now es"
      by (intro restarted_cong) force
    with q3 t False e show ?thesis by (auto simp: restarted_Cons)
  qed
qed simp

lemma resetTimerfd_simps [simp]:
  "TQ_inv tid ex (resetTimerfd clk w q) = TQ_inv tid ex q" "repeat_ok (resetTimerfd clk w q) = repeat_ok q"
  "tq_timers (resetTimerfd clk w q) = tq_timers q" "tq_calling (resetTimerfd clk w q) = tq_calling q"
  "tq_armed (resetTimerfd clk w q) = Some (clk, howMuchTimeFromNow clk w)"
  by (simp_all add: resetTimerfd_def TQ_inv_def repeat_ok_def)

lemma TimerQueue_reset_spec:
  assumes "TQ_inv tid es q" "0 < now" "repeat_ok q"
  shows "\<exists>q'. TimerQueue_reset tid es now clk q = Some q' \<and> TQ_inv tid [] q' \<and> repeat_ok q' \<and> armed_ok q' \<and>
    set (tq_timers q') = set (tq_timers q) \<union> restarted (tq_heap q) (set (tq_canceling q)) now es \<and> tq_calling q' = tq_calling q"
proof -
  obtain q1 where q1: "rearm tid now es q = Some q1" "TQ_inv tid [] q1" "repeat_ok q1"
      "set (tq_timers q1) = set (tq_timers q) \<union> restarted (tq_heap q) (set (tq_canceling q)) now es"
      "tq_calling q1 = tq_calling q"
    using rearm_spec [OF assms] by blast
  show ?thesis
  proof (cases "tq_timers q1")
    case Nil
    with q1 show ?thesis
      by (auto simp: TimerQueue_reset_def Timestamp_valid_def Timestamp_invalid_def armed_ok_def)
  next
    case (Cons e es')
    obtain w a where e: "e = (w, a)" by fastforce
    with Cons TQ_timer [OF q1(2), of w a] obtain t where "tq_heap q1 a = Some t" "tm_expiration t = w" "0 < w" by auto
    with Cons e q1 show ?thesis
      by (auto simp: TimerQueue_reset_def Timestamp_valid_def intro!: armed_ok_reset)
  qed
qed

section \<open>Timer events\<close>

lemma TQ_inv_flags [simp]:
  "TQ_inv tid ex (q\<lparr>tq_calling := b\<rparr>) = TQ_inv tid ex q" "TQ_inv tid ex (q\<lparr>tq_canceling := c\<rparr>) = TQ_inv tid ex q"
  "TQ_inv tid ex (readTimerfd q) = TQ_inv tid ex q" "repeat_ok (q\<lparr>tq_calling := b\<rparr>) = repeat_ok q"
  "repeat_ok (q\<lparr>tq_canceling := c\<rparr>) = repeat_ok q"
  by (simp_all add: TQ_inv_def readTimerfd_def repeat_ok_def)

lemma TimerQueue_handleRead_spec:
  assumes al: "alloc_ok alloc" and sc: "script_ok script" and inv: "TQ_inv tid [] q" and now: "0 < now" and rp: "repeat_ok q"
  obtains ex q0 q1 q' where
    "tq_timers q = ex @ tq_timers q0" "\<forall>e \<in> set ex. fst e \<le> now" "\<forall>e \<in> set (tq_timers q0). now < fst e"
    "tq_heap q0 = tq_heap q" "tq_calling q0" "tq_canceling q0 = []" "TQ_inv tid ex q0"
    "run_expired tid alloc script ex q0 = Some q1" "keeps ex q0 q1" "TQ_inv tid ex q1"
    "TimerQueue_handleRead tid alloc script now clk q = Some q'" "TQ_inv tid [] q'" "repeat_ok q'" "armed_ok q'"
    "set (tq_timers q') = set (tq_timers q1) \<union> restarted (tq_heap q1) (set (tq_canceling q1)) now ex"
proof -
  have inv0: "TQ_inv tid [] (readTimerfd q)" using inv by simp
  obtain ex qe where qe: "TimerQueue_getExpired now (readTimerfd q) = Some (ex, qe)" "TQ_inv tid ex qe"
      "tq_timers q = ex @ tq_timers qe" "\<forall>e \<in> set ex. fst e \<le> now" "\<forall>e \<in> set (tq_timers qe). now < fst e"
      "tq_heap qe = tq_heap q"
    using TimerQueue_getExpired_spec [OF inv0, of now] by (auto simp: readTimerfd_def)
  define q0 where "q0 = qe\<lparr>tq_calling := True, tq_canceling := []\<rparr>"
  have i0: "TQ_inv tid ex q0" using qe(2) by (simp add: q0_def TQ_inv_def)
  obtain q1 where q1: "run_expired tid alloc script ex q0 = Some q1" "TQ_inv tid ex q1" "keeps ex q0 q1"
    using run_expired_spec [OF al sc i0 subset_refl] by blast
  have "repeat_ok q0" using rp qe(6) by (simp add: repeat_ok_def q0_def)
  with q1(3) have rp1: "repeat_ok (q1\<lparr>tq_calling := False\<rparr>)" by (simp add: keeps_def)
  have i1: "TQ_inv tid ex (q1\<lparr>tq_calling := False\<rparr>)" using q1(2) by simp
  obtain q' where q': "TimerQueue_reset tid ex now clk (q1\<lparr>tq_calling := False\<rparr>) = Some q'" "TQ_inv tid [] q'" "repeat_ok q'" "armed_ok q'"
      "set (tq_timers q') = set (tq_timers q1) \<union> restarted (tq_heap q1) (set (tq_canceling q1)) now ex"
    using TimerQueue_reset_spec [OF i1 now rp1] by auto
  have "TimerQueue_handleRead tid alloc script now clk q = Some q'"
    using qe(1) q1(1) q'(1) inv
    by (simp add: TimerQueue_handleRead_def TimerQueue_assertInLoopThread_def TQ_inv_def q0_def)
  then show thesis
    using that [of ex q0 q1 q'] qe q1 q' i0 by (simp add: q0_def)
qed





section \<open>Properties\<close>

text \<open>
  C20. The delay the timerfd is programmed with is a valid \<^verbatim>\<open>timespec\<close> and is never zero, which would
  disarm the descriptor: it is the time left until the expiration, and at least 100 microseconds,
  also when the expiration has passed.
\<close>

theorem howMuchTimeFromNow_bounds:
  "case howMuchTimeFromNow now when of (sec, nsec) \<Rightarrow>
     0 \<le> sec \<and> 0 \<le> nsec \<and> nsec < 1000000000 \<and> sec * 1000000000 + nsec = max 100 (when - now) * 1000"
  by (rule howMuchTimeFromNow_timespec)


definition fresh_alloc :: "'c alloc" where
  "fresh_alloc q = Suc (Max (insert 0 (dom (tq_heap q))))"

lemma fresh_alloc_ok: "alloc_ok fresh_alloc"
proof -
  have "Suc (Max (insert 0 (dom h))) \<notin> dom h" if "finite (dom h)" for h :: "taddr \<Rightarrow> 'c timer option"
    using that Max_ge [of "insert 0 (dom h)" "Suc (Max (insert 0 (dom h)))"] by (meson Suc_n_not_le_n finite_insert insertI2)
  then show ?thesis by (auto simp: alloc_ok_def fresh_alloc_def dom_def)
qed


lemma run_expired_quiet:
  "\<forall>(w, a) \<in> set es. tq_heap q a \<noteq> None \<Longrightarrow> \<forall>c p. script c p = [] \<Longrightarrow> run_expired tid alloc script es q = Some q"
  by (induction es) auto

text \<open>A timer that is not cancelled stays in its container, or out of the set of cancelled ones.\<close>

definition stays :: "timer_id \<Rightarrow> 'c timerqueue \<Rightarrow> 'c timerqueue \<Rightarrow> bool" where
  "stays i q q' \<longleftrightarrow>
     (i \<in> set (tq_canceling q') \<longrightarrow> i \<in> set (tq_canceling q)) \<and>
     (\<forall>w t. (w, fst i) \<in> set (tq_timers q) \<and> tq_heap q (fst i) = Some t \<and> snd i = tm_sequence t \<longrightarrow>
        (w, fst i) \<in> set (tq_timers q') \<and> tq_heap q' (fst i) = Some t)"

lemma stays_refl [simp]: "stays i q q"
  by (simp add: stays_def)

lemma stays_trans: "stays i q q' \<Longrightarrow> stays i q' q'' \<Longrightarrow> stays i q q''"
  unfolding stays_def by blast

lemma TimerQueue_cancelInLoop_stays:
  assumes inv: "TQ_inv tid ex q" and q': "TimerQueue_cancelInLoop tid j q = Some q'" and ij: "j \<noteq> i"
  shows "stays i q q'"
proof (cases "j \<in> set (tq_active q)")
  case True
  then have j: "snd j = tm_sequence (the (tq_heap q (fst j)))"
    using inv by (auto simp: TQ_inv_def active_of_def)
  obtain t where t: "tq_heap q (fst j) = Some t"
    "q' = q\<lparr>tq_timers := remove1 (tm_expiration t, fst j) (tq_timers q), tq_heap := (tq_heap q)(fst j := None),
       tq_active := remove1 j (tq_active q)\<rparr>"
    using q' True by (auto simp: TimerQueue_cancelInLoop_def set_erase_def option_bind_iff split: if_splits)
  have "fst j \<noteq> fst i" if "tq_heap q (fst i) = Some u" "snd i = tm_sequence u" for u
    using that j ij by (metis option.sel prod_eqI)
  then show ?thesis by (auto simp: stays_def t(2))
next
  case False
  then have "q' = (if tq_calling q then q\<lparr>tq_canceling := snd (set_insert j (tq_canceling q))\<rparr> else q)"
    using q' by (auto simp: TimerQueue_cancelInLoop_def TimerQueue_assertInLoopThread_def split: if_splits)
  with ij show ?thesis by (auto simp: stays_def set_insert_def set_insort_key)
qed

lemma tq_exec_stays:
  assumes al: "alloc_ok alloc" and inv: "TQ_inv tid ex q" and x: "op_ok x" "x \<noteq> CancelTimer i"
    and q': "tq_exec tid alloc x q = Some q'"
  shows "stays i q q'"
proof (cases x)
  case (AddTimer clk cb w interval)
  have a: "tq_heap q (alloc q) = None" using al inv by (simp add: alloc_ok_def TQ_inv_def)
  have "0 < w" using x AddTimer by (simp add: Timestamp_valid_def)
  from TimerQueue_addTimer_spec [OF inv a this, of clk cb interval] q' AddTimer
  have "set (tq_timers q') = insert (w, alloc q) (set (tq_timers q))" "tq_canceling q' = tq_canceling q"
      "tq_heap q' = (tq_heap q)(alloc q \<mapsto> Timer_new cb w interval (tq_numCreated q + 1))"
    by (auto simp: set_insort_key)
  with a show ?thesis by (auto simp: stays_def)
next
  case (CancelTimer j)
  with TimerQueue_cancelInLoop_stays [OF inv] x(2) q' show ?thesis by simp
qed

lemma tq_run_stays:
  assumes al: "alloc_ok alloc"
  shows "TQ_inv tid ex q \<Longrightarrow> \<forall>x \<in> set xs. op_ok x \<Longrightarrow> CancelTimer i \<notin> set xs \<Longrightarrow> tq_run tid alloc xs q = Some q' \<Longrightarrow>
    stays i q q'"
proof (induction xs arbitrary: q)
  case (Cons x xs)
  obtain q1 where q1: "tq_exec tid alloc x q = Some q1" "TQ_inv tid ex q1"
    using tq_exec_spec [OF al Cons.prems(1)] Cons.prems(2) by auto
  moreover have "stays i q q1" using tq_exec_stays [OF al Cons.prems(1), of x i q1] q1(1) Cons.prems(2,3) by auto
  ultimately show ?case
    using Cons.IH [OF q1(2)] Cons.prems(2-4) stays_trans [of i q q1 q'] by auto
qed simp

lemma run_expired_stays:
  assumes al: "alloc_ok alloc" and sc: "script_ok script" and i: "\<forall>c p. CancelTimer i \<notin> set (script c p)"
  shows "TQ_inv tid ex q \<Longrightarrow> set es \<subseteq> set ex \<Longrightarrow> run_expired tid alloc script es q = Some q' \<Longrightarrow> stays i q q'"
proof (induction es arbitrary: q)
  case (Cons e es)
  obtain v b where e: "e = (v, b)" by fastforce
  with Cons.prems(1,2) obtain t where t: "tq_heap q b = Some t" by (force simp: TQ_inv_def)
  have ok: "\<forall>x \<in> set (script (tm_callback t) q). op_ok x" using sc by (simp add: script_ok_def)
  obtain q1 where q1: "tq_run tid alloc (script (tm_callback t) q) q = Some q1" "TQ_inv tid ex q1"
    using tq_run_spec [OF al Cons.prems(1) ok] by blast
  then have "stays i q q1" using tq_run_stays [OF al Cons.prems(1) ok] i by blast
  moreover have "stays i q1 q'" using Cons.IH [OF q1(2)] Cons.prems(2,3) q1(1) e t by simp
  ultimately show ?case by (rule stays_trans)
qed simp

text \<open>
  C5. What a timer event does, whatever the callbacks add and cancel: a one-shot timer that is due is
  gone afterwards; a timer that no callback cancels stays as it was when it is not due, and is queued
  again at the current time plus its interval (the product rounded to a double and truncated to
  microseconds) when it is due and repeats. When the callbacks leave the queue alone nothing else is
  queued afterwards.
\<close>

theorem TimerQueue_handleRead_exact:
  assumes "alloc_ok alloc" "script_ok script" "TQ_inv tid [] q" "repeat_ok q" "0 < now"
  shows "\<exists>q'. TimerQueue_handleRead tid alloc script now clk q = Some q' \<and>
    (\<forall>w a t. (w, a) \<in> set (tq_timers q) \<longrightarrow> tq_heap q a = Some t \<longrightarrow>
      (w \<le> now \<and> \<not> tm_repeat t \<longrightarrow> a \<notin> snd ` set (tq_timers q')) \<and>
      ((\<forall>c p. CancelTimer (a, tm_sequence t) \<notin> set (script c p)) \<longrightarrow>
        (now < w \<longrightarrow> (w, a) \<in> set (tq_timers q')) \<and>
        (w \<le> now \<and> tm_repeat t \<longrightarrow> (addTime now (tm_interval t), a) \<in> set (tq_timers q')))) \<and>
    ((\<forall>c p. script c p = []) \<longrightarrow>
      (\<forall>w a. (w, a) \<in> set (tq_timers q') \<longleftrightarrow>
        ((w, a) \<in> set (tq_timers q) \<and> now < w) \<or>
        (\<exists>v t. (v, a) \<in> set (tq_timers q) \<and> v \<le> now \<and> tq_heap q a = Some t \<and> tm_repeat t \<and>
          w = addTime now (tm_interval t))))"
proof -
  obtain ex q0 q1 q' where r: "tq_timers q = ex @ tq_timers q0" "\<forall>e \<in> set ex. fst e \<le> now" "\<forall>e \<in> set (tq_timers q0). now < fst e"
      "tq_heap q0 = tq_heap q" "tq_calling q0" "tq_canceling q0 = []" "TQ_inv tid ex q0"
      "run_expired tid alloc script ex q0 = Some q1" "keeps ex q0 q1" "TQ_inv tid ex q1"
      "TimerQueue_handleRead tid alloc script now clk q = Some q'" "TQ_inv tid [] q'" "repeat_ok q'" "armed_ok q'"
      "set (tq_timers q') = set (tq_timers q1) \<union> restarted (tq_heap q1) (set (tq_canceling q1)) now ex"
    by (rule TimerQueue_handleRead_spec [OF assms(1-3,5,4)])
  have gone: "a \<notin> snd ` set (tq_timers q')"
    if t: "(w, a) \<in> set (tq_timers q)" "tq_heap q a = Some t" "w \<le> now" "\<not> tm_repeat t" for w a t
  proof -
    have ex: "(w, a) \<in> set ex" using t(1,3) r(1,3) by fastforce
    then have "tq_heap q1 a = Some t" using r(4,9) t(2) by (force simp: keeps_def)
    moreover have "a \<notin> snd ` set (tq_timers q1)" using r(10) ex by (force simp: TQ_inv_def)
    ultimately show ?thesis
      using r(15) t(4) by (fastforce simp: restarted_def split: option.splits if_splits)
  qed
  have kept: "(w, a) \<in> set (tq_timers q')"
    if t: "(w, a) \<in> set (tq_timers q)" "tq_heap q a = Some t" "now < w"
      "\<forall>c p. CancelTimer (a, tm_sequence t) \<notin> set (script c p)" for w a t
  proof -
    have "(w, a) \<in> set (tq_timers q0)" using t(1,3) r(1,2) by fastforce
    with run_expired_stays [OF assms(1,2) t(4) r(7) subset_refl r(8)] t(2) r(4,15) show ?thesis
      by (auto simp: stays_def)
  qed
  have again: "(addTime now (tm_interval t), a) \<in> set (tq_timers q')"
    if t: "(w, a) \<in> set (tq_timers q)" "tq_heap q a = Some t" "w \<le> now" "tm_repeat t"
      "\<forall>c p. CancelTimer (a, tm_sequence t) \<notin> set (script c p)" for w a t
  proof -
    have ex: "(w, a) \<in> set ex" using t(1,3) r(1,3) by fastforce
    then have "tq_heap q1 a = Some t" using r(4,9) t(2) by (force simp: keeps_def)
    moreover have "(a, tm_sequence t) \<notin> set (tq_canceling q1)"
      using run_expired_stays [OF assms(1,2) t(5) r(7) subset_refl r(8)] r(6) by (simp add: stays_def)
    ultimately show ?thesis using ex t(4) r(15) by (force simp: restarted_def)
  qed
  have quiet: "(w, a) \<in> set (tq_timers q') \<longleftrightarrow> ((w, a) \<in> set (tq_timers q) \<and> now < w) \<or>
      (\<exists>v t. (v, a) \<in> set (tq_timers q) \<and> v \<le> now \<and> tq_heap q a = Some t \<and> tm_repeat t \<and>
        w = addTime now (tm_interval t))" if "\<forall>c p. script c p = []" for w a
  proof -
    have "q1 = q0" using run_expired_quiet [of ex q0 script tid alloc] that r(7,8) by (simp add: TQ_inv_def)
    then have "set (tq_timers q') = set (tq_timers q0) \<union> restarted (tq_heap q) {} now ex" using r by simp
    then show ?thesis
      using r(1-3) by (fastforce simp: restarted_def split: option.splits if_splits)
  qed
  show ?thesis
    apply (intro exI [of _ q'] conjI allI impI r(11))
    subgoal for w a t using gone [of w a t] by simp
    subgoal for w a t using kept [of w a t] by simp
    subgoal for w a t using again [of w a t] by simp
    subgoal for w a by (rule quiet)
    done
qed

definition example_queue :: "unit timerqueue" where
  "example_queue = (TimerQueue_new 7)\<lparr>tq_heap := [1 \<mapsto> Timer_new () 5 2 1, 2 \<mapsto> Timer_new () 9 0 2],
     tq_timers := [(5, 1), (9, 2)], tq_active := [(1, 1), (2, 2)], tq_armed := Some (1, 0, 100000), tq_numCreated := 2\<rparr>"

lemma example_queue_inv: "TQ_inv 7 [] example_queue" "repeat_ok example_queue"
  by (auto simp: example_queue_def TQ_inv_def TimerQueue_new_def Timer_new_def active_of_def repeat_ok_def split: if_splits)

theorem TimerQueue_handleRead_exact_witness:
  "\<exists>q'. TimerQueue_handleRead 7 fresh_alloc (\<lambda>_ _. [AddTimer 6 () 30 0]) 6 7 example_queue = Some q' \<and>
     (9, 2) \<in> set (tq_timers q') \<and> (2000006, 1) \<in> set (tq_timers q')"
proof -
  let ?script = "\<lambda>_ _. [AddTimer 6 () 30 0]"
  have "script_ok ?script" by (simp add: script_ok_def Timestamp_valid_def)
  from TimerQueue_handleRead_exact [OF fresh_alloc_ok this example_queue_inv, of 6 7]
  obtain q' where q': "TimerQueue_handleRead 7 fresh_alloc ?script 6 7 example_queue = Some q'"
      "\<forall>w a t. (w, a) \<in> set (tq_timers example_queue) \<longrightarrow> tq_heap example_queue a = Some t \<longrightarrow>
        (6 < w \<longrightarrow> (w, a) \<in> set (tq_timers q')) \<and>
        (w \<le> 6 \<and> tm_repeat t \<longrightarrow> (addTime 6 (tm_interval t), a) \<in> set (tq_timers q'))"
    by auto
  have "(9, 2) \<in> set (tq_timers q')"
    using q'(2) [rule_format, of 9 2] by (simp add: example_queue_def)
  moreover have "(addTime 6 2, 1) \<in> set (tq_timers q')"
    using q'(2) [rule_format, of 5 1] by (simp add: example_queue_def Timer_new_def)
  moreover have "addTime 6 2 = 2000006"
    using addTime_seconds [of 2 6] by (simp add: kMicroSecondsPerSecond_def)
  ultimately show ?thesis using q'(1) by auto
qed

section \<open>Cancelling from a callback\<close>

lemma tq_run_cancels:
  assumes al: "alloc_ok alloc" and a: "a \<in> snd ` set ex"
  shows "TQ_inv tid ex q \<Longrightarrow> tq_calling q \<Longrightarrow> \<forall>x \<in> set xs. op_ok x \<Longrightarrow> tq_run tid alloc xs q = Some q' \<Longrightarrow>
    CancelTimer (a, n) \<in> set xs \<or> (a, n) \<in> set (tq_canceling q) \<Longrightarrow> (a, n) \<in> set (tq_canceling q')"
proof (induction xs arbitrary: q)
  case (Cons x xs)
  obtain q1 where q1: "tq_exec tid alloc x q = Some q1" "TQ_inv tid ex q1" "keeps ex q q1"
    using tq_exec_spec [OF al Cons.prems(1)] Cons.prems(3) by auto
  have "(a, n) \<in> set (tq_canceling q1)" if "x = CancelTimer (a, n)"
  proof -
    have "a \<notin> snd ` set (tq_timers q)" using Cons.prems(1) a by (auto simp: TQ_inv_def)
    then have "(a, n) \<notin> set (tq_active q)"
      using active_of_fresh [of a "tq_timers q" n "tq_heap q"] Cons.prems(1) by (simp add: TQ_inv_def)
    with TimerQueue_cancelInLoop_spec [OF Cons.prems(1), of "(a, n)"] q1(1) that Cons.prems(2) show ?thesis by auto
  qed
  moreover have "tq_calling q1" "set (tq_canceling q) \<subseteq> set (tq_canceling q1)"
    using q1(3) Cons.prems(2) by (auto simp: keeps_def)
  ultimately show ?case
    using Cons.IH [OF q1(2)] Cons.prems(3-5) q1(1) by auto
qed simp

lemma run_expired_cancels:
  assumes al: "alloc_ok alloc" and sc: "script_ok script" and a: "a \<in> snd ` set ex"
  shows "TQ_inv tid ex q \<Longrightarrow> tq_calling q \<Longrightarrow> set es \<subseteq> set ex \<Longrightarrow> run_expired tid alloc script es q = Some q' \<Longrightarrow>
    (\<exists>(w, b) \<in> set es. \<exists>t. tq_heap q b = Some t \<and> (\<forall>q. CancelTimer (a, n) \<in> set (script (tm_callback t) q))) \<or>
    (a, n) \<in> set (tq_canceling q) \<Longrightarrow> (a, n) \<in> set (tq_canceling q')"
proof (induction es arbitrary: q)
  case (Cons e es)
  obtain v b where e: "e = (v, b)" by fastforce
  with Cons.prems(1,3) obtain t where t: "tq_heap q b = Some t" by (force simp: TQ_inv_def)
  have ok: "\<forall>x \<in> set (script (tm_callback t) q). op_ok x" using sc by (simp add: script_ok_def)
  obtain q1 where q1: "tq_run tid alloc (script (tm_callback t) q) q = Some q1" "TQ_inv tid ex q1" "keeps ex q q1"
    using tq_run_spec [OF al Cons.prems(1) ok] by blast
  have heap: "tq_heap q1 c = tq_heap q c" if "(w, c) \<in> set es" for w c
    using q1(3) that Cons.prems(3) by (force simp: keeps_def)
  have "(\<exists>(w, c) \<in> set es. \<exists>t. tq_heap q1 c = Some t \<and> (\<forall>q. CancelTimer (a, n) \<in> set (script (tm_callback t) q))) \<or>
      (a, n) \<in> set (tq_canceling q1)"
    using Cons.prems(5) e t heap tq_run_cancels [OF al a Cons.prems(1,2) ok q1(1), of n] by fastforce
  then show ?case
    using Cons.IH [OF q1(2)] Cons.prems(2-4) q1 e t by (auto simp: keeps_def)
qed simp

text \<open>
  C6. Cancelling works from inside a callback: when the callback of a timer that is due cancels a
  timer that is due at the same moment (itself or another), that timer is not queued again by
  this event, although it repeats.
\<close>

theorem TimerQueue_cancel_in_callback:
  assumes "alloc_ok alloc" "script_ok script" "TQ_inv tid [] q" "repeat_ok q" "0 < now"
    and "(w, a) \<in> set (tq_timers q)" "w \<le> now" "tq_heap q a = Some t"
    and "(v, b) \<in> set (tq_timers q)" "v \<le> now" "tq_heap q b = Some u"
    and "\<forall>q. CancelTimer (a, tm_sequence t) \<in> set (script (tm_callback u) q)"
  shows "\<exists>q'. TimerQueue_handleRead tid alloc script now clk q = Some q' \<and> a \<notin> snd ` set (tq_timers q') \<and>
    (a, tm_sequence t) \<notin> set (tq_active q')"
proof -
  obtain ex q0 q1 q' where r: "tq_timers q = ex @ tq_timers q0" "\<forall>e \<in> set ex. fst e \<le> now" "\<forall>e \<in> set (tq_timers q0). now < fst e"
      "tq_heap q0 = tq_heap q" "tq_calling q0" "tq_canceling q0 = []" "TQ_inv tid ex q0"
      "run_expired tid alloc script ex q0 = Some q1" "keeps ex q0 q1" "TQ_inv tid ex q1"
      "TimerQueue_handleRead tid alloc script now clk q = Some q'" "TQ_inv tid [] q'" "repeat_ok q'" "armed_ok q'"
      "set (tq_timers q') = set (tq_timers q1) \<union> restarted (tq_heap q1) (set (tq_canceling q1)) now ex"
    by (rule TimerQueue_handleRead_spec [OF assms(1,2,3,5,4)])
  have ex: "(w, a) \<in> set ex" "(v, b) \<in> set ex" using assms(6,7,9,10) r(1,3) by fastforce+
  then have ax: "a \<in> snd ` set ex" by force
  have "(a, tm_sequence t) \<in> set (tq_canceling q1)"
    using run_expired_cancels [OF assms(1,2) ax r(7,5) subset_refl r(8)] ex(2) assms(11,12) r(4) by auto
  moreover have "tq_heap q1 a = Some t" using r(4,9) ax assms(8) by (auto simp: keeps_def)
  moreover have "a \<notin> snd ` set (tq_timers q1)" using r(10) ax by (auto simp: TQ_inv_def)
  ultimately have "a \<notin> snd ` set (tq_timers q')"
    using r(15) by (fastforce simp: restarted_def split: option.splits if_splits)
  moreover then have "(a, tm_sequence t) \<notin> set (tq_active q')"
    using r(12) active_of_fresh [of a "tq_timers q'" "tm_sequence t" "tq_heap q'"] by (simp add: TQ_inv_def)
  ultimately show ?thesis using r(11) by blast
qed

theorem TimerQueue_cancel_in_callback_witness:
  "\<exists>q'. TimerQueue_handleRead 7 fresh_alloc (\<lambda>_ _. [CancelTimer (1, 1)]) 6 7 example_queue = Some q' \<and>
     1 \<notin> snd ` set (tq_timers q')"
proof -
  have "script_ok (\<lambda>_ _. [CancelTimer (1, 1)])" by (simp add: script_ok_def)
  from TimerQueue_cancel_in_callback [OF fresh_alloc_ok this example_queue_inv, of 6 5 1 "Timer_new () 5 2 1" 5 1 "Timer_new () 5 2 1"]
  show ?thesis by (auto simp: example_queue_def Timer_new_def)
qed

end
