(* ===== verification/HttpContext.thy ===== *)
theory HttpContext
  imports Buffer Timestamp
begin

text \<open>
  \<^verbatim>\<open>muduo/net/http/HttpRequest.h\<close>, \<^verbatim>\<open>HttpContext.h\<close>, \<^verbatim>\<open>HttpContext.cc\<close>: the request object and the
  incremental parser of the HTTP server. A range \<^verbatim>\<open>[start, end)\<close> of characters is the string it
  holds.

  The parsing loop is a partial function: it has no result when an assertion fails, and none when
  it does not end (states \<^verbatim>\<open>kExpectBody\<close> and \<^verbatim>\<open>kGotAll\<close>). \<open>http_parse\<close> is its specification on
  strings; the lemmas show that the loop on the buffer implements it, and that it ends from every
  state in which the server calls it.
\<close>

section \<open>The request\<close>

datatype http_method = kInvalid | kGet | kPost | kHead | kPut | kDelete

datatype http_version = kUnknown | kHttp10 | kHttp11

record http_request =
  rq_method :: http_method
  rq_version :: http_version
  rq_path :: string
  rq_query :: string
  rq_receiveTime :: timestamp
  rq_headers :: "string \<Rightarrow> string option"

definition HttpRequest_new :: http_request where
  "HttpRequest_new = \<lparr>rq_method = kInvalid, rq_version = kUnknown, rq_path = [], rq_query = [],
     rq_receiveTime = Timestamp_invalid, rq_headers = (\<lambda>_. None)\<rparr>"

definition HttpRequest_setVersion :: "http_version \<Rightarrow> http_request \<Rightarrow> http_request" where
  "HttpRequest_setVersion v r = r\<lparr>rq_version := v\<rparr>"

definition HttpRequest_setMethod :: "string \<Rightarrow> http_request \<Rightarrow> (bool \<times> http_request) option" where
  "HttpRequest_setMethod m r =
     do {
       assert_that (rq_method r = kInvalid);
       let method =
         (if m = ''GET'' then kGet
          else if m = ''POST'' then kPost
          else if m = ''HEAD'' then kHead
          else if m = ''PUT'' then kPut
          else if m = ''DELETE'' then kDelete
          else kInvalid);
       Some (method \<noteq> kInvalid, r\<lparr>rq_method := method\<rparr>) }"

fun HttpRequest_methodString :: "http_method \<Rightarrow> string" where
  "HttpRequest_methodString kGet = ''GET''"
| "HttpRequest_methodString kPost = ''POST''"
| "HttpRequest_methodString kHead = ''HEAD''"
| "HttpRequest_methodString kPut = ''PUT''"
| "HttpRequest_methodString kDelete = ''DELETE''"
| "HttpRequest_methodString kInvalid = ''UNKNOWN''"

definition HttpRequest_setPath :: "string \<Rightarrow> http_request \<Rightarrow> http_request" where
  "HttpRequest_setPath p r = r\<lparr>rq_path := p\<rparr>"

definition HttpRequest_setQuery :: "string \<Rightarrow> http_request \<Rightarrow> http_request" where
  "HttpRequest_setQuery q r = r\<lparr>rq_query := q\<rparr>"

definition HttpRequest_setReceiveTime :: "timestamp \<Rightarrow> http_request \<Rightarrow> http_request" where
  "HttpRequest_setReceiveTime t r = r\<lparr>rq_receiveTime := t\<rparr>"

text \<open>\<^verbatim>\<open>isspace\<close> in the C locale.\<close>

definition is_space :: "char \<Rightarrow> bool" where
  "is_space c \<longleftrightarrow> c = CHR '' '' \<or> 9 \<le> (of_char c :: nat) \<and> (of_char c :: nat) \<le> 13"

text \<open>\<^verbatim>\<open>addHeader(start, colon, end)\<close>; the line is \<^verbatim>\<open>[start, end)\<close> and \<open>colon\<close> an offset in it.\<close>

definition HttpRequest_addHeader :: "string \<Rightarrow> nat \<Rightarrow> http_request \<Rightarrow> http_request" where
  "HttpRequest_addHeader line colon r =
     (let field = take colon line;
          value = dropWhile is_space (drop (colon + 1) line);
          value = rev (dropWhile is_space (rev value))
      in r\<lparr>rq_headers := (rq_headers r)(field \<mapsto> value)\<rparr>)"

definition HttpRequest_getHeader :: "string \<Rightarrow> http_request \<Rightarrow> string" where
  "HttpRequest_getHeader field r = (case rq_headers r field of Some v \<Rightarrow> v | None \<Rightarrow> [])"

section \<open>The parser\<close>

datatype http_state = kExpectRequestLine | kExpectHeaders | kExpectBody | kGotAll

record http_context =
  hc_state :: http_state
  hc_request :: http_request

definition HttpContext_new :: http_context where
  "HttpContext_new = \<lparr>hc_state = kExpectRequestLine, hc_request = HttpRequest_new\<rparr>"

definition HttpContext_gotAll :: "http_context \<Rightarrow> bool" where
  "HttpContext_gotAll c \<longleftrightarrow> hc_state c = kGotAll"

definition HttpContext_reset :: "http_context \<Rightarrow> http_context" where
  "HttpContext_reset c = c\<lparr>hc_state := kExpectRequestLine, hc_request := HttpRequest_new\<rparr>"

definition request_target :: "string \<Rightarrow> http_request \<Rightarrow> http_request" where
  "request_target target r =
     (let question = std_find (CHR ''?'') target
      in if question \<noteq> length target
         then HttpRequest_setQuery (drop question target) (HttpRequest_setPath (take question target) r)
         else HttpRequest_setPath target r)"

definition request_version :: "string \<Rightarrow> http_request \<Rightarrow> bool \<times> http_request" where
  "request_version version r =
     (if length version = 8 \<and> take 7 version = ''HTTP/1.''
      then if last version = CHR ''1'' then (True, HttpRequest_setVersion kHttp11 r)
           else if last version = CHR ''0'' then (True, HttpRequest_setVersion kHttp10 r)
           else (False, r)
      else (False, r))"

definition HttpContext_processRequestLine :: "string \<Rightarrow> http_request \<Rightarrow> (bool \<times> http_request) option" where
  "HttpContext_processRequestLine line r =
     do {
       let space = std_find (CHR '' '') line;
       if space \<noteq> length line then
         do {
           (known, r) \<leftarrow> HttpRequest_setMethod (take space line) r;
           if known then
             do {
               let line = drop (space + 1) line;
               let space = std_find (CHR '' '') line;
               if space \<noteq> length line
               then Some (request_version (drop (space + 1) line) (request_target (take space line) r))
               else Some (False, r) }
           else Some (False, r) }
       else Some (False, r) }"

partial_function (option) parse_loop ::
  "timestamp \<Rightarrow> bool \<Rightarrow> http_context \<Rightarrow> buffer \<Rightarrow> (bool \<times> http_context \<times> buffer) option" where
  "parse_loop receiveTime ok c buf =
     (if hc_state c = kExpectRequestLine then
        (case Buffer_findCRLF buf of
           Some crlf \<Rightarrow>
             do {
               (ok, r) \<leftarrow> HttpContext_processRequestLine (segment (Buffer_peek buf) crlf (buf_vec buf)) (hc_request c);
               let c = c\<lparr>hc_request := r\<rparr>;
               if ok then
                 do {
                   let c = c\<lparr>hc_request := HttpRequest_setReceiveTime receiveTime (hc_request c)\<rparr>;
                   buf \<leftarrow> Buffer_retrieveUntil (crlf + 2) buf;
                   parse_loop receiveTime ok (c\<lparr>hc_state := kExpectHeaders\<rparr>) buf }
               else Some (ok, c, buf) }
         | None \<Rightarrow> Some (ok, c, buf))
      else if hc_state c = kExpectHeaders then
        (case Buffer_findCRLF buf of
           Some crlf \<Rightarrow>
             (let line = segment (Buffer_peek buf) crlf (buf_vec buf);
                  colon = std_find (CHR '':'') line
              in if colon \<noteq> length line then
                   do {
                     let c = c\<lparr>hc_request := HttpRequest_addHeader line colon (hc_request c)\<rparr>;
                     buf \<leftarrow> Buffer_retrieveUntil (crlf + 2) buf;
                     parse_loop receiveTime ok c buf }
                 else
                   do {
                     buf \<leftarrow> Buffer_retrieveUntil (crlf + 2) buf;
                     Some (ok, c\<lparr>hc_state := kGotAll\<rparr>, buf) })
         | None \<Rightarrow> Some (ok, c, buf))
      else parse_loop receiveTime ok c buf)"

definition HttpContext_parseRequest ::
  "timestamp \<Rightarrow> http_context \<Rightarrow> buffer \<Rightarrow> (bool \<times> http_context \<times> buffer) option" where
  "HttpContext_parseRequest receiveTime c buf = parse_loop receiveTime True c buf"

section \<open>Specification on strings\<close>

definition take_line :: "string \<Rightarrow> (string \<times> string) option" where
  "take_line xs = (let i = std_search kCRLF xs in if i < length xs then Some (take i xs, drop (i + 2) xs) else None)"

text \<open>One line: whether it was accepted, and the context after it.\<close>

definition http_line :: "timestamp \<Rightarrow> string \<Rightarrow> http_context \<Rightarrow> (bool \<times> http_context) option" where
  "http_line t line c =
     (if hc_state c = kExpectRequestLine then
        do {
          (ok, r) \<leftarrow> HttpContext_processRequestLine line (hc_request c);
          Some (ok, if ok then \<lparr>hc_state = kExpectHeaders, hc_request = HttpRequest_setReceiveTime t r\<rparr> else c\<lparr>hc_request := r\<rparr>) }
      else if CHR '':'' \<in> set line
      then Some (True, c\<lparr>hc_request := HttpRequest_addHeader line (std_find (CHR '':'') line) (hc_request c)\<rparr>)
      else Some (True, c\<lparr>hc_state := kGotAll\<rparr>))"

lemma take_line_Some:
  assumes "take_line xs = Some (line, rest)"
  shows "xs = line @ kCRLF @ rest" "length rest < length xs" "\<not> (\<exists>i < length line. prefix kCRLF (drop i xs))"
proof -
  let ?i = "std_search kCRLF xs"
  have i: "?i < length xs" "line = take ?i xs" "rest = drop (?i + 2) xs"
    using assms by (auto simp: take_line_def Let_def split: if_splits)
  obtain zs where zs: "drop ?i xs = kCRLF @ zs" using std_search_found [OF i(1)] by (auto simp: prefix_def)
  then have "zs = rest" using i(3) by (metis add.commute append_eq_conv_conj drop_drop kCRLF_def length_Cons list.size(3) numeral_2_eq_2)
  with zs show "xs = line @ kCRLF @ rest" by (metis append_take_drop_id i(2))
  then show "length rest < length xs" by (simp add: kCRLF_def)
  show "\<not> (\<exists>i < length line. prefix kCRLF (drop i xs))" using i(2) std_search_first by auto
qed

function http_parse :: "timestamp \<Rightarrow> http_context \<Rightarrow> string \<Rightarrow> (bool \<times> http_context \<times> string) option" where
  "http_parse t c xs =
     (if hc_state c = kExpectRequestLine \<or> hc_state c = kExpectHeaders then
        (case take_line xs of
           None \<Rightarrow> Some (True, c, xs)
         | Some (line, rest) \<Rightarrow>
             (case http_line t line c of
                None \<Rightarrow> None
              | Some (ok, c') \<Rightarrow>
                  if \<not> ok then Some (False, c', xs)
                  else if hc_state c' = kGotAll then Some (True, c', rest)
                  else http_parse t c' rest))
      else None)"
  by pat_completeness auto
termination by (relation "measure (\<lambda>(t, c, xs). length xs)") (auto dest: take_line_Some(2))

declare http_parse.simps [simp del]

section \<open>The loop implements the specification\<close>

lemma take_line_buffer:
  assumes "Buffer_inv b"
  shows "case take_line (Buffer_content b) of
      None \<Rightarrow> Buffer_findCRLF b = None
    | Some (line, rest) \<Rightarrow> \<exists>crlf b'. Buffer_findCRLF b = Some crlf \<and> segment (Buffer_peek b) crlf (buf_vec b) = line \<and>
        Buffer_retrieveUntil (crlf + 2) b = Some b' \<and> Buffer_inv b' \<and> Buffer_content b' = rest"
proof -
  let ?i = "std_search kCRLF (Buffer_content b)"
  show ?thesis
  proof (cases "?i < length (Buffer_content b)")
    case False
    then have "?i = length (Buffer_content b)" using std_search_le [of kCRLF "Buffer_content b"] by simp
    with assms show ?thesis by (simp add: take_line_def Buffer_findCRLF_spec Let_def)
  next
    case True
    have bound: "?i + 2 \<le> length (Buffer_content b)" using std_search_bound [OF True] by (simp add: kCRLF_def)
    have find: "Buffer_findCRLF b = Some (Buffer_peek b + ?i)"
      using assms True by (simp add: Buffer_findCRLF_spec Let_def)
    have seg: "segment (Buffer_peek b) (Buffer_peek b + ?i) (buf_vec b) = take ?i (Buffer_content b)"
      using assms True by (simp add: Buffer_segment_content)
    have "Buffer_retrieveUntil (Buffer_peek b + ?i + 2) b = Buffer_retrieve (?i + 2) b"
      using Buffer_retrieveUntil_spec [OF assms, of "?i + 2"] bound by (simp add: add.assoc)
    moreover obtain b' where "Buffer_retrieve (?i + 2) b = Some b'"
      using assms bound by (auto simp: Buffer_retrieve_cases)
    ultimately show ?thesis
      using find seg True Buffer_retrieve_content [OF assms] Buffer_retrieve_inv [OF assms]
      by (simp add: take_line_def Let_def)
  qed
qed

lemma http_line_state:
  "http_line t line c = Some (ok, c') \<Longrightarrow> ok \<Longrightarrow> hc_state c = kExpectRequestLine \<or> hc_state c = kExpectHeaders \<Longrightarrow>
    hc_state c' = kExpectHeaders \<or> hc_state c' = kGotAll"
  by (cases "HttpContext_processRequestLine line (hc_request c)") (auto simp: http_line_def split: if_splits)

lemma parse_loop_refines:
  assumes "Buffer_inv b" "hc_state c = kExpectRequestLine \<or> hc_state c = kExpectHeaders"
  shows "case parse_loop t True c b of
      None \<Rightarrow> http_parse t c (Buffer_content b) = None
    | Some (ok, c', b') \<Rightarrow> Buffer_inv b' \<and> http_parse t c (Buffer_content b) = Some (ok, c', Buffer_content b')"
  using assms
proof (induction "length (Buffer_content b)" arbitrary: b c rule: less_induct)
  case less
  note tl = take_line_buffer [OF less.prems(1)]
  show ?case
  proof (cases "take_line (Buffer_content b)")
    case None
    with tl less.prems show ?thesis by (subst parse_loop.simps) (auto simp: http_parse.simps)
  next
    case (Some lr)
    then obtain line rest where lr: "take_line (Buffer_content b) = Some (line, rest)" by (cases lr) auto
    with tl obtain crlf b' where b': "Buffer_findCRLF b = Some crlf" "segment (Buffer_peek b) crlf (buf_vec b) = line"
        "Buffer_retrieveUntil (crlf + 2) b = Some b'" "Buffer_inv b'" "Buffer_content b' = rest"
      by auto
    have len: "length (Buffer_content b') < length (Buffer_content b)" using take_line_Some(2) [OF lr] b'(5) by simp
    note IH = less.hyps [OF len b'(4)]
    show ?thesis
    proof (cases "hc_state c = kExpectRequestLine")
      case True
      show ?thesis
      proof (cases "HttpContext_processRequestLine line (hc_request c)")
        case None
        with True lr b' show ?thesis
          by (subst parse_loop.simps) (simp add: http_parse.simps [of t c] http_line_def)
      next
        case (Some okr)
        then obtain ok r where okr: "HttpContext_processRequestLine line (hc_request c) = Some (ok, r)" by (cases okr) auto
        have rec: "c\<lparr>hc_request := HttpRequest_setReceiveTime t r, hc_state := kExpectHeaders\<rparr> =
            \<lparr>hc_state = kExpectHeaders, hc_request = HttpRequest_setReceiveTime t r\<rparr>"
          by (cases c) simp
        show ?thesis
          using True lr b' okr IH [of "\<lparr>hc_state = kExpectHeaders, hc_request = HttpRequest_setReceiveTime t r\<rparr>"] less.prems(1)
          by (subst parse_loop.simps) (auto simp: http_parse.simps [of t c] http_line_def rec Let_def split: option.splits)
      qed
    next
      case False
      then have st: "hc_state c = kExpectHeaders" using less.prems(2) by simp
      show ?thesis
        using st lr b' IH [of "c\<lparr>hc_request := HttpRequest_addHeader line (std_find (CHR '':'') line) (hc_request c)\<rparr>"]
          std_find_less [of "CHR '':''" line] std_find_le [of "CHR '':''" line]
        by (subst parse_loop.simps) (auto simp: http_parse.simps [of t c] http_line_def Let_def std_find_absent split: option.splits)
    qed
  qed
qed


section \<open>The specification\<close>

lemma take_line_append: "take_line xs = Some (line, rest) \<Longrightarrow> take_line (xs @ ys) = Some (line, rest @ ys)"
proof -
  assume tl: "take_line xs = Some (line, rest)"
  then have i: "std_search kCRLF xs < length xs" by (simp add: take_line_def Let_def split: if_splits)
  with std_search_bound [OF i] tl show ?thesis
    by (auto simp: take_line_def Let_def std_search_append kCRLF_def)
qed

lemma take_line_printed: "CHR 0x0D \<notin> set line \<Longrightarrow> take_line (line @ kCRLF @ rest) = Some (line, rest)"
  using std_search_skip [of kCRLF line rest] by (simp add: take_line_def kCRLF_def Let_def)

text \<open>The states in which the parser may be called.\<close>

definition ctx_ok :: "http_context \<Rightarrow> bool" where
  "ctx_ok c \<longleftrightarrow> hc_state c = kExpectRequestLine \<and> rq_method (hc_request c) = kInvalid \<or> hc_state c = kExpectHeaders"

lemma HttpContext_new_simps [simp]:
  "hc_state HttpContext_new = kExpectRequestLine" "hc_request HttpContext_new = HttpRequest_new"
  by (simp_all add: HttpContext_new_def)

lemma ctx_ok_new [simp]: "ctx_ok HttpContext_new" "ctx_ok (HttpContext_reset c)"
  by (simp_all add: ctx_ok_def HttpContext_new_def HttpContext_reset_def HttpRequest_new_def)

lemma processRequestLine_total:
  "rq_method r = kInvalid \<Longrightarrow> \<exists>ok r'. HttpContext_processRequestLine line r = Some (ok, r')"
  by (auto simp: HttpContext_processRequestLine_def HttpRequest_setMethod_def Let_def)

lemma http_line_total:
  assumes "ctx_ok c"
  shows "\<exists>ok c'. http_line t line c = Some (ok, c') \<and> (ok \<longrightarrow> ctx_ok c' \<or> hc_state c' = kGotAll)"
  using assms processRequestLine_total [of "hc_request c" line] by (auto simp: http_line_def ctx_ok_def)

lemma http_parse_total:
  "ctx_ok c \<Longrightarrow> \<exists>ok c' r. http_parse t c xs = Some (ok, c', r) \<and> (ok \<longrightarrow> ctx_ok c' \<or> hc_state c' = kGotAll)"
proof (induction t c xs rule: http_parse.induct)
  case (1 t c xs)
  have st: "hc_state c = kExpectRequestLine \<or> hc_state c = kExpectHeaders" using 1(2) by (auto simp: ctx_ok_def)
  show ?case
  proof (cases "take_line xs")
    case None
    with st 1(2) show ?thesis by (auto simp: http_parse.simps [of t c])
  next
    case (Some lr)
    then obtain line rest where lr: "take_line xs = Some (line, rest)" by (cases lr) auto
    obtain ok c' where c': "http_line t line c = Some (ok, c')" "ok \<longrightarrow> ctx_ok c' \<or> hc_state c' = kGotAll"
      using http_line_total [OF 1(2)] by blast
    show ?thesis
      using 1(1) [OF st lr _ c'(1)] c' lr st by (auto simp: http_parse.simps [of t c])
  qed
qed

lemma http_parse_more:
  "http_parse t c xs = Some (True, c', r) \<Longrightarrow> hc_state c' \<noteq> kGotAll \<Longrightarrow> http_parse t c (xs @ ys) = http_parse t c' (r @ ys)"
proof (induction t c xs rule: http_parse.induct)
  case (1 t c xs)
  have st: "hc_state c = kExpectRequestLine \<or> hc_state c = kExpectHeaders"
    using 1(2) by (auto simp: http_parse.simps [of t c] split: if_splits)
  show ?case
  proof (cases "take_line xs")
    case None
    with st 1(2) show ?thesis by (simp add: http_parse.simps [of t c xs])
  next
    case (Some lr)
    then obtain line rest where lr: "take_line xs = Some (line, rest)" by (cases lr) auto
    obtain c1 where c1: "http_line t line c = Some (True, c1)" "hc_state c1 \<noteq> kGotAll"
        "http_parse t c1 rest = Some (True, c', r)"
      using 1(2,3) st lr by (auto simp: http_parse.simps [of t c xs] split: option.splits if_splits)
    have "http_parse t c1 (rest @ ys) = http_parse t c' (r @ ys)"
      using 1(1) [OF st lr _ c1(1)] c1(2,3) 1(3) by simp
    then show ?thesis using st c1 take_line_append [OF lr, of ys] by (simp add: http_parse.simps [of t c "xs @ ys"])
  qed
qed

lemma http_parse_done:
  "http_parse t c xs = Some (ok, c', r) \<Longrightarrow> \<not> ok \<or> hc_state c' = kGotAll \<Longrightarrow> http_parse t c (xs @ ys) = Some (ok, c', r @ ys)"
proof (induction t c xs rule: http_parse.induct)
  case (1 t c xs)
  have st: "hc_state c = kExpectRequestLine \<or> hc_state c = kExpectHeaders"
    using 1(2) by (auto simp: http_parse.simps [of t c] split: if_splits)
  then obtain line rest where lr: "take_line xs = Some (line, rest)"
    using 1(2,3) by (cases "take_line xs") (auto simp: http_parse.simps [of t c])
  obtain ok1 c1 where c1: "http_line t line c = Some (ok1, c1)"
    using 1(2) st lr by (auto simp: http_parse.simps [of t c] split: option.splits)
  show ?case
    using 1(1) [OF st lr _ c1] 1(2,3) st lr c1 take_line_append [OF lr, of ys]
    by (simp add: http_parse.simps [of t c xs] http_parse.simps [of t c "xs @ ys"] split: if_splits)
qed

lemma http_line_rejected: "http_line t line c = Some (False, c') \<Longrightarrow> hc_state c' = kExpectRequestLine"
  by (cases "HttpContext_processRequestLine line (hc_request c)") (auto simp: http_line_def split: if_splits)

lemma http_parse_rejected: "http_parse t c xs = Some (False, c', r) \<Longrightarrow> hc_state c' = kExpectRequestLine"
proof (induction t c xs rule: http_parse.induct)
  case (1 t c xs)
  have st: "hc_state c = kExpectRequestLine \<or> hc_state c = kExpectHeaders"
    using 1(2) by (auto simp: http_parse.simps [of t c] split: if_splits)
  then obtain line rest where lr: "take_line xs = Some (line, rest)"
    using 1(2) by (cases "take_line xs") (auto simp: http_parse.simps [of t c])
  obtain ok1 c1 where c1: "http_line t line c = Some (ok1, c1)"
    using 1(2) st lr by (auto simp: http_parse.simps [of t c] split: option.splits)
  show ?case
    using 1(1) [OF st lr _ c1] 1(2) st lr c1 http_line_rejected
    by (auto simp: http_parse.simps [of t c xs] split: if_splits)
qed

text \<open>The arrival times of the pieces only go into the receive time of the request.\<close>

definition untimed :: "http_context \<Rightarrow> http_context" where
  "untimed c = c\<lparr>hc_request := (hc_request c)\<lparr>rq_receiveTime := 0\<rparr>\<rparr>"

lemma untimed_state [simp]: "hc_state (untimed c) = hc_state c"
  by (simp add: untimed_def)

lemma request_target_untimed:
  "request_target target (r\<lparr>rq_receiveTime := x\<rparr>) = (request_target target r)\<lparr>rq_receiveTime := x\<rparr>"
  by (simp add: request_target_def HttpRequest_setPath_def HttpRequest_setQuery_def Let_def)

lemma request_version_untimed:
  "request_version version (r\<lparr>rq_receiveTime := x\<rparr>) =
     (fst (request_version version r), (snd (request_version version r))\<lparr>rq_receiveTime := x\<rparr>)"
  by (simp add: request_version_def HttpRequest_setVersion_def)

lemma setMethod_untimed:
  "HttpRequest_setMethod m (r\<lparr>rq_receiveTime := x\<rparr>) =
     map_option (\<lambda>(ok, r). (ok, r\<lparr>rq_receiveTime := x\<rparr>)) (HttpRequest_setMethod m r)"
  by (cases "rq_method r = kInvalid") (simp_all add: HttpRequest_setMethod_def)

lemma processRequestLine_untimed:
  "HttpContext_processRequestLine line (r\<lparr>rq_receiveTime := x\<rparr>) =
     map_option (\<lambda>(ok, r). (ok, r\<lparr>rq_receiveTime := x\<rparr>)) (HttpContext_processRequestLine line r)"
  by (cases "HttpRequest_setMethod (take (std_find (CHR '' '') line) line) r")
    (simp_all add: HttpContext_processRequestLine_def setMethod_untimed request_version_untimed request_target_untimed
      Let_def case_prod_beta)

lemma http_line_untimed:
  "http_line 0 line (untimed c) = map_option (\<lambda>(ok, c). (ok, untimed c)) (http_line t line c)"
  by (cases "HttpContext_processRequestLine line (hc_request c)")
    (auto simp: http_line_def untimed_def processRequestLine_untimed HttpRequest_setReceiveTime_def HttpRequest_addHeader_def Let_def)

lemma http_parse_untimed:
  "http_parse 0 (untimed c) xs = map_option (\<lambda>(ok, c, r). (ok, untimed c, r)) (http_parse t c xs)"
proof (induction t c xs rule: http_parse.induct)
  case (1 t c xs)
  show ?case
  proof (cases "(hc_state c = kExpectRequestLine \<or> hc_state c = kExpectHeaders) \<and> take_line xs \<noteq> None")
    case False
    then show ?thesis by (cases "take_line xs") (auto simp: http_parse.simps [of t c] http_parse.simps [of 0 "untimed c"])
  next
    case True
    then obtain line rest where lr: "take_line xs = Some (line, rest)" by auto
    show ?thesis
    proof (cases "http_line t line c")
      case None
      with True lr show ?thesis
        by (simp add: http_parse.simps [of t c] http_parse.simps [of 0 "untimed c"] http_line_untimed [of line c t])
    next
      case (Some okc)
      then obtain ok c' where c': "http_line t line c = Some (ok, c')" by (cases okc) auto
      from 1 [OF _ lr _ c'] True lr c' show ?thesis
        by (auto simp: http_parse.simps [of t c] http_parse.simps [of 0 "untimed c"] http_line_untimed [of line c t])
    qed
  qed
qed

section \<open>Feeding a request in pieces\<close>

text \<open>
  What the server does with the pieces of a request as they arrive: each is appended to the input
  buffer and the parser is called, with the arrival time.
\<close>

fun HttpContext_feed :: "(timestamp \<times> string) list \<Rightarrow> http_context \<times> buffer \<Rightarrow> (bool \<times> http_context \<times> buffer) option" where
  "HttpContext_feed [] (c, buf) = Some (True, c, buf)"
| "HttpContext_feed ((t, d) # ds) (c, buf) =
     do {
       buf \<leftarrow> Buffer_append d buf;
       (ok, c, buf) \<leftarrow> HttpContext_parseRequest t c buf;
       if ok then HttpContext_feed ds (c, buf) else Some (False, c, buf) }"

lemma parseRequest_spec:
  assumes "Buffer_inv b" "ctx_ok c"
  obtains ok c' b' where "HttpContext_parseRequest t c b = Some (ok, c', b')" "Buffer_inv b'"
    "http_parse t c (Buffer_content b) = Some (ok, c', Buffer_content b')" "ok \<longrightarrow> ctx_ok c' \<or> hc_state c' = kGotAll"
proof -
  have "hc_state c = kExpectRequestLine \<or> hc_state c = kExpectHeaders" using assms(2) by (auto simp: ctx_ok_def)
  from parse_loop_refines [OF assms(1) this, of t] http_parse_total [OF assms(2), of t "Buffer_content b"]
  show ?thesis by (auto simp: HttpContext_parseRequest_def split: option.splits intro: that)
qed

lemma HttpContext_feed_spec:
  "Buffer_inv b \<Longrightarrow> ctx_ok c \<Longrightarrow> ds \<noteq> [] \<Longrightarrow> \<forall>d \<in> set ds. snd d \<noteq> [] \<Longrightarrow>
   http_parse 0 (untimed c) (Buffer_content b @ concat (map snd ds)) = Some (True, c1, []) \<Longrightarrow> hc_state c1 = kGotAll \<Longrightarrow>
   \<exists>c' b'. HttpContext_feed ds (c, b) = Some (True, c', b') \<and> Buffer_inv b' \<and> Buffer_content b' = [] \<and> untimed c' = c1"
proof (induction ds arbitrary: b c)
  case (Cons td ds)
  obtain t d where td: "td = (t, d)" by fastforce
  obtain b1 where b1: "Buffer_append d b = Some b1" "Buffer_inv b1" "Buffer_content b1 = Buffer_content b @ d"
    using Buffer_append_spec [OF Cons.prems(1)] by blast
  obtain ok c2 b2 where p: "HttpContext_parseRequest t c b1 = Some (ok, c2, b2)" "Buffer_inv b2"
      "http_parse t c (Buffer_content b1) = Some (ok, c2, Buffer_content b2)" "ok \<longrightarrow> ctx_ok c2 \<or> hc_state c2 = kGotAll"
    using parseRequest_spec [OF b1(2) Cons.prems(2)] by blast
  let ?ys = "concat (map snd ds)"
  have all: "map_option (\<lambda>(ok, c, r). (ok, untimed c, r)) (http_parse t c (Buffer_content b1 @ ?ys)) = Some (True, c1, [])"
    using Cons.prems(5) td b1(3) by (simp add: http_parse_untimed [of c _ t])
  show ?case
  proof (cases "\<not> ok \<or> hc_state c2 = kGotAll")
    case True
    with all http_parse_done [OF p(3) True, of ?ys]
    have r: "ok" "untimed c2 = c1" "Buffer_content b2 = []" "?ys = []" by auto
    then have "ds = []" using Cons.prems(4) by (cases ds) auto
    with r b1 p td show ?thesis by simp
  next
    case False
    then have ok: ok and more: "hc_state c2 \<noteq> kGotAll" by auto
    have rest: "http_parse t c (Buffer_content b1 @ ?ys) = http_parse t c2 (Buffer_content b2 @ ?ys)"
      using http_parse_more [of t c "Buffer_content b1" c2 "Buffer_content b2"] p(3) ok more by simp
    have "ds \<noteq> []"
    proof
      assume "ds = []"
      with all p(3) ok more Cons.prems(6) show False by auto
    qed
    moreover have "http_parse 0 (untimed c2) (Buffer_content b2 @ ?ys) = Some (True, c1, [])"
      using all rest by (simp add: http_parse_untimed [of c2 _ t])
    ultimately show ?thesis
      using Cons.IH [OF p(2)] Cons.prems(4,6) p(1,4) ok more b1(1) td by auto
  qed
qed simp

section \<open>Printed requests\<close>

text \<open>The text of a request, and the conditions under which its parts can be told apart.\<close>

fun version_text :: "http_version \<Rightarrow> string" where
  "version_text kHttp10 = ''HTTP/1.0''"
| "version_text kHttp11 = ''HTTP/1.1''"
| "version_text kUnknown = []"

definition request_line :: "http_method \<Rightarrow> string \<Rightarrow> string \<Rightarrow> http_version \<Rightarrow> string" where
  "request_line m path query v = HttpRequest_methodString m @ '' '' @ (path @ query) @ '' '' @ version_text v"

definition header_text :: "string \<times> string \<Rightarrow> string" where
  "header_text fv = fst fv @ '': '' @ snd fv @ kCRLF"

definition request_text :: "http_method \<Rightarrow> string \<Rightarrow> string \<Rightarrow> http_version \<Rightarrow> (string \<times> string) list \<Rightarrow> string" where
  "request_text m path query v hs = request_line m path query v @ kCRLF @ concat (map header_text hs) @ kCRLF"

definition target_ok :: "http_method \<Rightarrow> string \<Rightarrow> string \<Rightarrow> http_version \<Rightarrow> bool" where
  "target_ok m path query v \<longleftrightarrow> m \<noteq> kInvalid \<and> v \<noteq> kUnknown \<and>
     CHR '' '' \<notin> set path \<and> CHR ''?'' \<notin> set path \<and> CHR 0x0D \<notin> set path \<and>
     CHR '' '' \<notin> set query \<and> CHR 0x0D \<notin> set query \<and> (query = [] \<or> hd query = CHR ''?'')"

definition header_ok :: "string \<times> string \<Rightarrow> bool" where
  "header_ok fv \<longleftrightarrow> CHR '':'' \<notin> set (fst fv) \<and> CHR 0x0D \<notin> set (fst fv) \<and> CHR 0x0D \<notin> set (snd fv) \<and>
     (snd fv = [] \<or> \<not> is_space (hd (snd fv)) \<and> \<not> is_space (last (snd fv)))"

lemma setMethod_methodString:
  "m \<noteq> kInvalid \<Longrightarrow> rq_method r = kInvalid \<Longrightarrow>
    HttpRequest_setMethod (HttpRequest_methodString m) r = Some (True, r\<lparr>rq_method := m\<rparr>)"
  by (cases m) (simp_all add: HttpRequest_setMethod_def)

lemma methodString_chars: "m \<noteq> kInvalid \<Longrightarrow> CHR '' '' \<notin> set (HttpRequest_methodString m) \<and> CHR 0x0D \<notin> set (HttpRequest_methodString m)"
  by (cases m) simp_all

lemma request_version_text: "v \<noteq> kUnknown \<Longrightarrow> request_version (version_text v) r = (True, r\<lparr>rq_version := v\<rparr>)"
  by (cases v) (simp_all add: request_version_def HttpRequest_setVersion_def)

lemma request_target_text:
  assumes "CHR ''?'' \<notin> set path" "query = [] \<or> hd query = CHR ''?''" "rq_query r = []"
  shows "request_target (path @ query) r = r\<lparr>rq_path := path, rq_query := query\<rparr>"
proof (cases query)
  case Nil
  with assms show ?thesis
    by (cases r) (simp add: request_target_def std_find_absent HttpRequest_setPath_def)
next
  case (Cons x xs)
  with assms show ?thesis
    by (cases r) (simp add: request_target_def Let_def HttpRequest_setPath_def HttpRequest_setQuery_def)
qed

lemma processRequestLine_text:
  assumes ok: "target_ok m path query v" and r: "rq_method r = kInvalid" "rq_query r = []"
  shows "HttpContext_processRequestLine (request_line m path query v) r =
    Some (True, r\<lparr>rq_method := m, rq_path := path, rq_query := query, rq_version := v\<rparr>)"
proof -
  let ?sp = "CHR '' ''" and ?rest = "(path @ query) @ CHR '' '' # version_text v"
  have line: "request_line m path query v = HttpRequest_methodString m @ ?sp # ?rest" by (simp add: request_line_def)
  have 1: "std_find ?sp (HttpRequest_methodString m @ ?sp # ?rest) = length (HttpRequest_methodString m)"
    by (rule std_find_append) (use ok methodString_chars in \<open>simp add: target_ok_def\<close>)
  have 2: "std_find ?sp ?rest = length (path @ query)"
    by (rule std_find_append) (use ok in \<open>simp add: target_ok_def\<close>)
  have 3: "request_target (path @ query) (r\<lparr>rq_method := m\<rparr>) = r\<lparr>rq_method := m, rq_path := path, rq_query := query\<rparr>"
    using request_target_text [of path query "r\<lparr>rq_method := m\<rparr>"] ok r(2) by (simp add: target_ok_def)
  have 4: "m \<noteq> kInvalid" "v \<noteq> kUnknown" using ok by (simp_all add: target_ok_def)
  show ?thesis
    using 2 3 r(1) 4 unfolding HttpContext_processRequestLine_def line Let_def 1
    by (simp add: setMethod_methodString request_version_text del: append_assoc)
qed

lemma trimmed: "v = [] \<or> \<not> is_space (hd v) \<and> \<not> is_space (last v) \<Longrightarrow>
    rev (dropWhile is_space (rev (dropWhile is_space (CHR '' '' # v)))) = v"
proof -
  assume v: "v = [] \<or> \<not> is_space (hd v) \<and> \<not> is_space (last v)"
  then have 1: "dropWhile is_space (CHR '' '' # v) = v" by (cases v) (auto simp: is_space_def)
  from v have "dropWhile is_space (rev v) = rev v" by (cases v rule: rev_cases) auto
  with 1 show ?thesis by simp
qed

lemma addHeader_text:
  "header_ok fv \<Longrightarrow> HttpRequest_addHeader (fst fv @ '': '' @ snd fv) (length (fst fv)) r =
    r\<lparr>rq_headers := (rq_headers r)(fst fv \<mapsto> snd fv)\<rparr>"
  using trimmed [of "snd fv"] by (simp add: HttpRequest_addHeader_def header_ok_def Let_def)

lemma http_parse_headers:
  "\<forall>fv \<in> set hs. header_ok fv \<Longrightarrow> hc_state c = kExpectHeaders \<Longrightarrow>
   http_parse t c (concat (map header_text hs) @ kCRLF @ rest) =
     Some (True, \<lparr>hc_state = kGotAll, hc_request = (hc_request c)\<lparr>rq_headers := rq_headers (hc_request c) ++ map_of (rev hs)\<rparr>\<rparr>, rest)"
proof (induction hs arbitrary: c)
  case Nil
  have "take_line (kCRLF @ rest) = Some ([], rest)" using take_line_printed [of "[]" rest] by simp
  with Nil show ?case by (cases c) (simp add: http_parse.simps [of t] http_line_def)
next
  case (Cons fv hs)
  let ?line = "fst fv @ '': '' @ snd fv" and ?r = "(hc_request c)\<lparr>rq_headers := (rq_headers (hc_request c))(fst fv \<mapsto> snd fv)\<rparr>"
  have "CHR 0x0D \<notin> set ?line" using Cons.prems(1) by (simp add: header_ok_def)
  from take_line_printed [OF this]
  have tl: "take_line (concat (map header_text (fv # hs)) @ kCRLF @ rest) = Some (?line, concat (map header_text hs) @ kCRLF @ rest)"
    by (simp add: header_text_def)
  have "std_find (CHR '':'') ?line = length (fst fv)" using Cons.prems(1) by (simp add: header_ok_def)
  then have hl: "http_line t ?line c = Some (True, c\<lparr>hc_request := ?r\<rparr>)"
    using Cons.prems addHeader_text [of fv "hc_request c"] by (simp add: http_line_def)
  have mp: "(h(fst fv \<mapsto> snd fv)) ++ map_of (rev hs) = h ++ map_of (rev (fv # hs))" for h :: "string \<Rightarrow> string option"
    by (cases fv) (simp add: map_add_def fun_eq_iff split: option.splits)
  have "http_parse t (c\<lparr>hc_request := ?r\<rparr>) (concat (map header_text hs) @ kCRLF @ rest) =
      Some (True, \<lparr>hc_state = kGotAll, hc_request = (hc_request c)\<lparr>rq_headers := rq_headers (hc_request c) ++ map_of (rev (fv # hs))\<rparr>\<rparr>, rest)"
    unfolding mp [symmetric] using Cons.IH [of "c\<lparr>hc_request := ?r\<rparr>"] Cons.prems by (simp add: fun_upd_def)
  then show ?case
    using Cons.prems(2) tl hl
    by (simp add: http_parse.simps [of t c "concat (map header_text (fv # hs)) @ kCRLF @ rest"] del: concat.simps list.map rev.simps)
qed

lemma http_parse_text:
  assumes "target_ok m path query v" "\<forall>fv \<in> set hs. header_ok fv"
  shows "http_parse t HttpContext_new (request_text m path query v hs @ rest) =
    Some (True, \<lparr>hc_state = kGotAll, hc_request = \<lparr>rq_method = m, rq_version = v, rq_path = path, rq_query = query,
      rq_receiveTime = t, rq_headers = map_of (rev hs)\<rparr>\<rparr>, rest)"
proof -
  let ?c = "\<lparr>hc_state = kExpectHeaders, hc_request = \<lparr>rq_method = m, rq_version = v, rq_path = path, rq_query = query,
      rq_receiveTime = t, rq_headers = Map.empty\<rparr>\<rparr>"
  have "CHR 0x0D \<notin> set (version_text v)" by (cases v) simp_all
  then have "CHR 0x0D \<notin> set (request_line m path query v)"
    using assms(1) methodString_chars [of m] by (simp add: request_line_def target_ok_def)
  from take_line_printed [OF this]
  have tl: "take_line (request_text m path query v hs @ rest) =
      Some (request_line m path query v, concat (map header_text hs) @ kCRLF @ rest)"
    by (simp add: request_text_def)
  have "http_line t (request_line m path query v) HttpContext_new = Some (True, ?c)"
    using processRequestLine_text [OF assms(1), of HttpRequest_new]
    by (simp add: http_line_def HttpContext_new_def HttpRequest_new_def HttpRequest_setReceiveTime_def)
  with tl http_parse_headers [OF assms(2), of ?c t rest] show ?thesis
    by (simp add: http_parse.simps [of t HttpContext_new])
qed

section \<open>Properties\<close>

text \<open>
  C8. A request arrives in any number of pieces, cut anywhere, at any times: the parser accepts
  every piece, reports the request complete exactly with the last one, has then consumed all
  input, and holds the method, path, query, version and headers of the request, the last value
  where a header occurs twice.
\<close>

theorem HttpContext_parses_pieces:
  assumes "target_ok m path query v" "\<forall>fv \<in> set hs. header_ok fv" "Buffer_new n = Some b"
    and "concat (map snd ds) = request_text m path query v hs" "\<forall>d \<in> set ds. snd d \<noteq> []"
  shows "\<exists>c b'. HttpContext_feed ds (HttpContext_new, b) = Some (True, c, b') \<and> HttpContext_gotAll c \<and> Buffer_content b' = [] \<and>
    rq_method (hc_request c) = m \<and> rq_version (hc_request c) = v \<and> rq_path (hc_request c) = path \<and>
    rq_query (hc_request c) = query \<and> rq_headers (hc_request c) = map_of (rev hs)"
proof -
  let ?c1 = "\<lparr>hc_state = kGotAll, hc_request = \<lparr>rq_method = m, rq_version = v, rq_path = path, rq_query = query,
      rq_receiveTime = 0, rq_headers = map_of (rev hs)\<rparr>\<rparr>"
  have b: "Buffer_inv b" "Buffer_content b = []" using assms(3) Buffer_new_spec [of n] by auto
  have new: "untimed HttpContext_new = HttpContext_new"
    by (simp add: untimed_def HttpContext_new_def HttpRequest_new_def Timestamp_invalid_def)
  have "ds \<noteq> []" using assms(4) by (auto simp: request_text_def kCRLF_def)
  moreover have "http_parse 0 (untimed HttpContext_new) (Buffer_content b @ concat (map snd ds)) = Some (True, ?c1, [])"
    using http_parse_text [OF assms(1,2), of 0 "[]"] assms(4) b(2) by (simp add: new)
  ultimately obtain c' b' where "HttpContext_feed ds (HttpContext_new, b) = Some (True, c', b')" "Buffer_content b' = []" "untimed c' = ?c1"
    using HttpContext_feed_spec [OF b(1) ctx_ok_new(1) _ assms(5), of ?c1] by auto
  moreover from this(3) have "hc_state c' = kGotAll" "(hc_request c')\<lparr>rq_receiveTime := 0\<rparr> = hc_request ?c1"
    by (cases c'; simp add: untimed_def)+
  moreover from this(2) have "rq_method (hc_request c') = m" "rq_version (hc_request c') = v" "rq_path (hc_request c') = path"
      "rq_query (hc_request c') = query" "rq_headers (hc_request c') = map_of (rev hs)"
    by (cases "hc_request c'"; simp)+
  ultimately show ?thesis by (simp add: HttpContext_gotAll_def)
qed

definition example_pieces :: "(timestamp \<times> string) list" where
  "example_pieces = [(5, ''GET /a?x=1 HTT''), (6, ''P/1.1'' @ [CHR 0x0D]), (7, [CHR 0x0A] @ ''Host:''), (9, '' h'' @ kCRLF @ kCRLF)]"

theorem HttpContext_parses_pieces_witness:
  "\<exists>b c b'. Buffer_new 10 = Some b \<and> HttpContext_feed example_pieces (HttpContext_new, b) = Some (True, c, b') \<and>
     rq_path (hc_request c) = ''/a'' \<and> rq_headers (hc_request c) ''Host'' = Some ''h''"
proof -
  obtain b where b: "Buffer_new 10 = Some b" using Buffer_new_spec [of 10] by blast
  have 1: "target_ok kGet ''/a'' ''?x=1'' kHttp11" by (simp add: target_ok_def)
  have 2: "\<forall>fv \<in> set [(''Host'', ''h'')]. header_ok fv" by (simp add: header_ok_def is_space_def)
  have 3: "concat (map snd example_pieces) = request_text kGet ''/a'' ''?x=1'' kHttp11 [(''Host'', ''h'')]"
    by (simp add: example_pieces_def request_text_def request_line_def header_text_def kCRLF_def)
  have 4: "\<forall>d \<in> set example_pieces. snd d \<noteq> []" by (simp add: example_pieces_def)
  from HttpContext_parses_pieces [OF 1 2 b 3 4] b show ?thesis by fastforce
qed



lemma processRequestLine_rejected:
  assumes "HttpContext_processRequestLine line r = Some (False, r')" "rq_method r = kInvalid" "rq_method r' \<noteq> kInvalid"
  shows "HttpContext_processRequestLine line r' = None"
  using assms by (auto simp: HttpContext_processRequestLine_def HttpRequest_setMethod_def Let_def split: if_splits)

text \<open>
  C22. A rejected request line is left in the buffer and its method in the request: when the method
  was known, any further data makes \<^verbatim>\<open>parseRequest\<close> look at the same line again and fail the
  assertion of \<^verbatim>\<open>setMethod\<close>, so a malformed request followed by more bytes aborts the server.
\<close>

theorem HttpContext_rejected_then_aborts:
  assumes "Buffer_inv b" "HttpContext_parseRequest t HttpContext_new b = Some (False, c, b')" "rq_method (hc_request c) \<noteq> kInvalid"
    and "Buffer_append data b' = Some b''"
  shows "HttpContext_parseRequest t' c b'' = None"
proof -
  let ?xs = "Buffer_content b"
  have b': "Buffer_inv b'" "http_parse t HttpContext_new ?xs = Some (False, c, Buffer_content b')"
    using parseRequest_spec [OF assms(1) ctx_ok_new(1), of t] assms(2) by auto
  have hdr: "http_parse t d ys \<noteq> Some (False, e, zs)" if "hc_state d = kExpectHeaders" for d ys e zs
    using that
  proof (induction t d ys rule: http_parse.induct)
    case (1 t d ys)
    then show ?case
      by (auto simp: http_parse.simps [of t d] http_line_def split: option.splits if_splits)
  qed
  obtain line rest where lr: "take_line ?xs = Some (line, rest)"
    using b'(2) by (cases "take_line ?xs") (auto simp: http_parse.simps [of t HttpContext_new])
  have new: "hc_state HttpContext_new = kExpectRequestLine" by simp
  obtain ok r where pr: "HttpContext_processRequestLine line HttpRequest_new = Some (ok, r)"
    using processRequestLine_total [of HttpRequest_new line] by (auto simp: HttpRequest_new_def)
  have hl: "http_line t line HttpContext_new =
      Some (ok, if ok then \<lparr>hc_state = kExpectHeaders, hc_request = HttpRequest_setReceiveTime t r\<rparr> else HttpContext_new\<lparr>hc_request := r\<rparr>)"
    using pr by (simp add: http_line_def HttpContext_new_def)
  have rej: "\<not> ok" "c = HttpContext_new\<lparr>hc_request := r\<rparr>" "Buffer_content b' = ?xs"
    using b'(2) new lr hl hdr by (auto simp: http_parse.simps [of t HttpContext_new] split: if_splits)
  have "HttpContext_processRequestLine line r = None"
    using processRequestLine_rejected [of line HttpRequest_new r] pr rej assms(3) by (simp add: HttpRequest_new_def)
  moreover have b'': "Buffer_inv b''" "Buffer_content b'' = ?xs @ data"
    using Buffer_append_spec [OF b'(1), of data] assms(4) rej(3) by auto
  ultimately have "http_parse t' c (Buffer_content b'') = None"
    using take_line_append [OF lr, of data] rej(2) new
    by (simp add: http_parse.simps [of t' "HttpContext_new\<lparr>hc_request := r\<rparr>"] http_line_def)
  with parse_loop_refines [OF b''(1), of c t'] rej(2) new show ?thesis
    by (auto simp: HttpContext_parseRequest_def split: option.splits)
qed

theorem HttpContext_rejected_then_aborts_witness:
  "\<exists>b b1 c b2 b3. Buffer_new 64 = Some b \<and> Buffer_append (''GET / HTTP/2.0'' @ kCRLF) b = Some b1 \<and>
     HttpContext_parseRequest 3 HttpContext_new b1 = Some (False, c, b2) \<and> Buffer_append ''x'' b2 = Some b3 \<and>
     HttpContext_parseRequest 4 c b3 = None"
proof -
  let ?line = "''GET / HTTP/2.0''"
  obtain b where b: "Buffer_new 64 = Some b" "Buffer_inv b" "Buffer_content b = []" using Buffer_new_spec [of 64] by blast
  obtain b1 where b1: "Buffer_append (?line @ kCRLF) b = Some b1" "Buffer_inv b1" "Buffer_content b1 = ?line @ kCRLF"
    using Buffer_append_spec [OF b(2)] b(3) by fastforce
  have "take_line (?line @ kCRLF) = Some (?line, [])" using take_line_printed [of ?line "[]"] by simp
  then have p: "http_parse 3 HttpContext_new (?line @ kCRLF) =
      Some (False, HttpContext_new\<lparr>hc_request := HttpRequest_new\<lparr>rq_method := kGet, rq_path := ''/''\<rparr>\<rparr>, ?line @ kCRLF)"
    by (simp add: http_parse.simps [of 3 HttpContext_new] http_line_def HttpContext_processRequestLine_def
        HttpRequest_setMethod_def HttpRequest_new_def std_find_def Let_def request_version_def request_target_def HttpRequest_setPath_def)
  obtain ok c b2 where q': "HttpContext_parseRequest 3 HttpContext_new b1 = Some (ok, c, b2)" "Buffer_inv b2"
      "http_parse 3 HttpContext_new (Buffer_content b1) = Some (ok, c, Buffer_content b2)"
    by (rule parseRequest_spec [OF b1(2) ctx_ok_new(1)])
  then have q: "HttpContext_parseRequest 3 HttpContext_new b1 = Some (False, c, b2)" "Buffer_inv b2" "rq_method (hc_request c) = kGet"
    using p b1(3) by auto
  obtain b3 where "Buffer_append ''x'' b2 = Some b3" using Buffer_append_spec [OF q(2)] by blast
  with HttpContext_rejected_then_aborts [OF b1(2) q(1) _ this, of 4] q b b1 show ?thesis by auto
qed

end
