(* ===== verification/HttpServer.thy ===== *)
theory HttpServer
  imports HttpContext TcpConnection
begin

text \<open>
  \<^verbatim>\<open>muduo/net/http/HttpResponse.h\<close>, \<^verbatim>\<open>HttpResponse.cc\<close>, \<^verbatim>\<open>HttpServer.h\<close>, \<^verbatim>\<open>HttpServer.cc\<close>. The state of a
  served connection is the parser's context (the \<^verbatim>\<open>boost::any\<close> of the connection) and the world of
  the connection; the request arrives in its input buffer, the response goes out through
  \<^verbatim>\<open>TcpConnection::send\<close>. The user's \<^verbatim>\<open>HttpCallback\<close> is a function that fills in the response.
\<close>

section \<open>The response\<close>

datatype http_status = kUnknownStatus | k200Ok | k301MovedPermanently | k400BadRequest | k404NotFound

fun status_code :: "http_status \<Rightarrow> int" where
  "status_code kUnknownStatus = 0"
| "status_code k200Ok = 200"
| "status_code k301MovedPermanently = 301"
| "status_code k400BadRequest = 400"
| "status_code k404NotFound = 404"

text \<open>The headers are a \<^verbatim>\<open>std::map\<close>: an association list sorted by key.\<close>

record http_response =
  rs_headers :: "(string \<times> string) list"
  rs_statusCode :: http_status
  rs_statusMessage :: string
  rs_closeConnection :: bool
  rs_body :: string

definition HttpResponse_new :: "bool \<Rightarrow> http_response" where
  "HttpResponse_new close = \<lparr>rs_headers = [], rs_statusCode = kUnknownStatus, rs_statusMessage = [],
     rs_closeConnection = close, rs_body = []\<rparr>"

definition HttpResponse_setStatusCode :: "http_status \<Rightarrow> http_response \<Rightarrow> http_response" where
  "HttpResponse_setStatusCode code r = r\<lparr>rs_statusCode := code\<rparr>"

definition HttpResponse_setStatusMessage :: "string \<Rightarrow> http_response \<Rightarrow> http_response" where
  "HttpResponse_setStatusMessage message r = r\<lparr>rs_statusMessage := message\<rparr>"

definition HttpResponse_setCloseConnection :: "bool \<Rightarrow> http_response \<Rightarrow> http_response" where
  "HttpResponse_setCloseConnection on r = r\<lparr>rs_closeConnection := on\<rparr>"

fun map_assign :: "string \<Rightarrow> string \<Rightarrow> (string \<times> string) list \<Rightarrow> (string \<times> string) list" where
  "map_assign k v [] = [(k, v)]"
| "map_assign k v ((k', v') # xs) =
     (if k < k' then (k, v) # (k', v') # xs else if k = k' then (k, v) # xs else (k', v') # map_assign k v xs)"

definition HttpResponse_addHeader :: "string \<Rightarrow> string \<Rightarrow> http_response \<Rightarrow> http_response" where
  "HttpResponse_addHeader key value r = r\<lparr>rs_headers := map_assign key value (rs_headers r)\<rparr>"

definition HttpResponse_setContentType :: "string \<Rightarrow> http_response \<Rightarrow> http_response" where
  "HttpResponse_setContentType contentType r = HttpResponse_addHeader ''Content-Type'' contentType r"

definition HttpResponse_setBody :: "string \<Rightarrow> http_response \<Rightarrow> http_response" where
  "HttpResponse_setBody body r = r\<lparr>rs_body := body\<rparr>"

text \<open>
  \<open>append_cstr\<close> appends a C string, \<open>append_string\<close> a \<^verbatim>\<open>std::string\<close>.
\<close>

definition append_cstr :: "string \<Rightarrow> buffer \<Rightarrow> buffer option" where
  "append_cstr str b = Buffer_append_piece (StringPiece_cstr (str @ [NUL])) b"

definition append_string :: "string \<Rightarrow> buffer \<Rightarrow> buffer option" where
  "append_string str b = Buffer_append_piece (StringPiece_string str) b"

fun append_headers :: "(string \<times> string) list \<Rightarrow> buffer \<Rightarrow> buffer option" where
  "append_headers [] b = Some b"
| "append_headers ((key, value) # hs) b =
     do {
       b \<leftarrow> append_string key b;
       b \<leftarrow> append_cstr '': '' b;
       b \<leftarrow> append_string value b;
       b \<leftarrow> append_cstr kCRLF b;
       append_headers hs b }"

definition HttpResponse_appendToBuffer :: "http_response \<Rightarrow> buffer \<Rightarrow> buffer option" where
  "HttpResponse_appendToBuffer r output =
     do {
       output \<leftarrow> append_cstr (snprintf 32 (''HTTP/1.1 '' @ show_int (status_code (rs_statusCode r)) @ '' '')) output;
       output \<leftarrow> append_string (rs_statusMessage r) output;
       output \<leftarrow> append_cstr kCRLF output;
       output \<leftarrow>
         (if rs_closeConnection r then append_cstr (''Connection: close'' @ kCRLF) output
          else do {
            output \<leftarrow> append_cstr (snprintf 32 (''Content-Length: '' @ show_nat (length (rs_body r)) @ kCRLF)) output;
            append_cstr (''Connection: Keep-Alive'' @ kCRLF) output });
       output \<leftarrow> append_headers (rs_headers r) output;
       output \<leftarrow> append_cstr kCRLF output;
       append_string (rs_body r) output }"

section \<open>The server\<close>

definition defaultHttpCallback :: "http_request \<Rightarrow> http_response \<Rightarrow> http_response" where
  "defaultHttpCallback req resp =
     HttpResponse_setCloseConnection True (HttpResponse_setStatusMessage ''Not Found'' (HttpResponse_setStatusCode k404NotFound resp))"

definition HttpServer_onConnection :: "http_context \<times> tcpworld \<Rightarrow> http_context \<times> tcpworld" where
  "HttpServer_onConnection h =
     (if tc_state (tw_conn (snd h)) = kConnected then (HttpContext_new, snd h) else h)"

definition wants_to_close :: "http_request \<Rightarrow> bool" where
  "wants_to_close req \<longleftrightarrow>
     (let connection = HttpRequest_getHeader ''Connection'' req
      in connection = ''close'' \<or> rq_version req = kHttp10 \<and> connection \<noteq> ''Keep-Alive'')"

definition HttpServer_onRequest ::
  "epoll_ctl \<Rightarrow> int \<Rightarrow> int + nat \<Rightarrow> (http_request \<Rightarrow> http_response \<Rightarrow> http_response) \<Rightarrow> http_request \<Rightarrow> tcpworld \<Rightarrow> tcpworld option" where
  "HttpServer_onRequest ctl tid w httpCallback req s =
     do {
       let close = wants_to_close req;
       let response = httpCallback req (HttpResponse_new close);
       buf \<leftarrow> Buffer_new kInitialSize;
       buf \<leftarrow> HttpResponse_appendToBuffer response buf;
       (buf, s) \<leftarrow> TcpConnection_send_buffer ctl tid w buf s;
       if rs_closeConnection response then TcpConnection_shutdown tid s else Some s }"

definition bad_request_text :: string where
  "bad_request_text = ''HTTP/1.1 400 Bad Request'' @ kCRLF @ kCRLF"

text \<open>\<open>w1\<close> and \<open>w2\<close> are the results of the writes of the error message and of the response.\<close>

definition HttpServer_onMessage ::
  "epoll_ctl \<Rightarrow> int \<Rightarrow> int + nat \<Rightarrow> int + nat \<Rightarrow> (http_request \<Rightarrow> http_response \<Rightarrow> http_response) \<Rightarrow> timestamp \<Rightarrow>
     http_context \<times> tcpworld \<Rightarrow> (http_context \<times> tcpworld) option" where
  "HttpServer_onMessage ctl tid w1 w2 httpCallback receiveTime h =
     do {
       (ok, context, buf) \<leftarrow> HttpContext_parseRequest receiveTime (fst h) (tc_inputBuffer (tw_conn (snd h)));
       let s = (snd h)\<lparr>tw_conn := (tw_conn (snd h))\<lparr>tc_inputBuffer := buf\<rparr>\<rparr>;
       s \<leftarrow> (if \<not> ok then
               do {
                 s \<leftarrow> TcpConnection_send ctl tid w1 bad_request_text s;
                 TcpConnection_shutdown tid s }
             else Some s);
       if HttpContext_gotAll context then
         do {
           s \<leftarrow> HttpServer_onRequest ctl tid w2 httpCallback (hc_request context) s;
           Some (HttpContext_reset context, s) }
       else Some (context, s) }"

section \<open>What the response looks like\<close>

definition response_text :: "http_response \<Rightarrow> string" where
  "response_text r =
     ''HTTP/1.1 '' @ show_int (status_code (rs_statusCode r)) @ '' '' @ rs_statusMessage r @ kCRLF @
     (if rs_closeConnection r then ''Connection: close'' @ kCRLF
      else ''Content-Length: '' @ show_nat (length (rs_body r)) @ kCRLF @ ''Connection: Keep-Alive'' @ kCRLF) @
     concat (map header_text (rs_headers r)) @ kCRLF @ rs_body r"

text \<open>Every string of the response is shorter than 2 GiB, the range of a \<^verbatim>\<open>StringPiece\<close>.\<close>

definition response_ok :: "http_response \<Rightarrow> bool" where
  "response_ok r \<longleftrightarrow> length (rs_statusMessage r) < 2 ^ 31 \<and> length (rs_body r) < 2 ^ 31 \<and>
     (\<forall>kv \<in> set (rs_headers r). length (fst kv) < 2 ^ 31 \<and> length (snd kv) < 2 ^ 31)"

lemma append_string_spec:
  assumes "Buffer_inv b" "length str < 2 ^ 31"
  shows "\<exists>b'. append_string str b = Some b' \<and> Buffer_inv b' \<and> Buffer_content b' = Buffer_content b @ str"
  using Buffer_append_spec [OF assms(1), of str] assms(2)
  by (simp add: append_string_def Buffer_append_piece_def StringPiece_string_def StringPiece_wf_def to_int32_small)

lemma append_cstr_spec:
  assumes "Buffer_inv b" "length str < 2 ^ 31" "NUL \<notin> set str"
  shows "\<exists>b'. append_cstr str b = Some b' \<and> Buffer_inv b' \<and> Buffer_content b' = Buffer_content b @ str"
  using Buffer_append_spec [OF assms(1), of str] assms(2,3)
  by (simp add: append_cstr_def Buffer_append_piece_def StringPiece_cstr_def StringPiece_wf_def strlen_def to_int32_small)

lemma show_nat_no_NUL: "NUL \<notin> set (show_nat n)"
  using show_nat_digits [of NUL n] by (auto simp: of_char_def)

lemma append_headers_spec:
  "Buffer_inv b \<Longrightarrow> \<forall>kv \<in> set hs. length (fst kv) < 2 ^ 31 \<and> length (snd kv) < 2 ^ 31 \<Longrightarrow>
   \<exists>b'. append_headers hs b = Some b' \<and> Buffer_inv b' \<and> Buffer_content b' = Buffer_content b @ concat (map header_text hs)"
proof (induction hs arbitrary: b)
  case (Cons kv hs)
  obtain k v where kv: "kv = (k, v)" by fastforce
  obtain b1 where b1: "append_string k b = Some b1" "Buffer_inv b1" "Buffer_content b1 = Buffer_content b @ k"
    using append_string_spec [OF Cons.prems(1), of k] Cons.prems(2) kv by auto
  obtain b2 where b2: "append_cstr '': '' b1 = Some b2" "Buffer_inv b2" "Buffer_content b2 = Buffer_content b1 @ '': ''"
    using append_cstr_spec [OF b1(2), of "'': ''"] by auto
  obtain b3 where b3: "append_string v b2 = Some b3" "Buffer_inv b3" "Buffer_content b3 = Buffer_content b2 @ v"
    using append_string_spec [OF b2(2), of v] Cons.prems(2) kv by auto
  obtain b4 where b4: "append_cstr kCRLF b3 = Some b4" "Buffer_inv b4" "Buffer_content b4 = Buffer_content b3 @ kCRLF"
    using append_cstr_spec [OF b3(2), of kCRLF] by (auto simp: kCRLF_def)
  from Cons.IH [OF b4(2)] Cons.prems(2) show ?case
    using kv b1 b2 b3 b4 by (auto simp: header_text_def)
qed simp

lemma status_line_spec:
  assumes "Buffer_inv b"
  shows "\<exists>b'. append_cstr (snprintf 32 (''HTTP/1.1 '' @ show_int (status_code st) @ '' '')) b = Some b' \<and> Buffer_inv b' \<and>
    Buffer_content b' = Buffer_content b @ ''HTTP/1.1 '' @ show_int (status_code st) @ '' ''"
proof -
  obtain n where n: "show_int (status_code st) = show_nat n" "n < 10 ^ 3"
    by (cases st) (auto simp: show_int_def)
  then have "length (show_nat n) \<le> 3" using length_show_nat [of n 3] by simp
  then have "snprintf 32 (''HTTP/1.1 '' @ show_nat n @ '' '') = ''HTTP/1.1 '' @ show_nat n @ '' ''"
    by (simp add: snprintf_def)
  with n append_cstr_spec [OF assms, of "''HTTP/1.1 '' @ show_nat n @ '' ''"] \<open>length (show_nat n) \<le> 3\<close>
  show ?thesis by (auto simp: show_nat_no_NUL)
qed

lemma content_length_spec:
  assumes "Buffer_inv b" "n < 2 ^ 31"
  shows "\<exists>b'. append_cstr (snprintf 32 (''Content-Length: '' @ show_nat n @ kCRLF)) b = Some b' \<and> Buffer_inv b' \<and>
    Buffer_content b' = Buffer_content b @ ''Content-Length: '' @ show_nat n @ kCRLF"
proof -
  have "length (show_nat n) \<le> 10" using length_show_nat [of n 10] assms(2) by simp
  then have "snprintf 32 (''Content-Length: '' @ show_nat n @ kCRLF) = ''Content-Length: '' @ show_nat n @ kCRLF"
    by (simp add: snprintf_def kCRLF_def)
  with append_cstr_spec [OF assms(1), of "''Content-Length: '' @ show_nat n @ kCRLF"] \<open>length (show_nat n) \<le> 10\<close>
  show ?thesis by (auto simp: show_nat_no_NUL kCRLF_def)
qed

lemma HttpResponse_appendToBuffer_spec:
  assumes "Buffer_inv b" "response_ok r"
  shows "\<exists>b'. HttpResponse_appendToBuffer r b = Some b' \<and> Buffer_inv b' \<and> Buffer_content b' = Buffer_content b @ response_text r"
proof -
  obtain b1 where b1: "append_cstr (snprintf 32 (''HTTP/1.1 '' @ show_int (status_code (rs_statusCode r)) @ '' '')) b = Some b1" "Buffer_inv b1"
      "Buffer_content b1 = Buffer_content b @ ''HTTP/1.1 '' @ show_int (status_code (rs_statusCode r)) @ '' ''"
    using status_line_spec [OF assms(1)] by blast
  obtain b2 where b2: "append_string (rs_statusMessage r) b1 = Some b2" "Buffer_inv b2" "Buffer_content b2 = Buffer_content b1 @ rs_statusMessage r"
    using append_string_spec [OF b1(2)] assms(2) by (auto simp: response_ok_def)
  have crlf: "length kCRLF < 2 ^ 31" "NUL \<notin> set kCRLF" by (simp_all add: kCRLF_def)
  obtain b3 where b3: "append_cstr kCRLF b2 = Some b3" "Buffer_inv b3" "Buffer_content b3 = Buffer_content b2 @ kCRLF"
    using append_cstr_spec [OF b2(2) crlf] by blast
  have "\<exists>b4. (if rs_closeConnection r then append_cstr (''Connection: close'' @ kCRLF) b3
      else append_cstr (snprintf 32 (''Content-Length: '' @ show_nat (length (rs_body r)) @ kCRLF)) b3 \<bind>
        append_cstr (''Connection: Keep-Alive'' @ kCRLF)) = Some b4 \<and> Buffer_inv b4 \<and>
      Buffer_content b4 = Buffer_content b3 @ (if rs_closeConnection r then ''Connection: close'' @ kCRLF
      else ''Content-Length: '' @ show_nat (length (rs_body r)) @ kCRLF @ ''Connection: Keep-Alive'' @ kCRLF)"
  proof (cases "rs_closeConnection r")
    case True
    with append_cstr_spec [OF b3(2), of "''Connection: close'' @ kCRLF"] show ?thesis by (simp add: kCRLF_def)
  next
    case False
    obtain c where c: "append_cstr (snprintf 32 (''Content-Length: '' @ show_nat (length (rs_body r)) @ kCRLF)) b3 = Some c" "Buffer_inv c"
        "Buffer_content c = Buffer_content b3 @ ''Content-Length: '' @ show_nat (length (rs_body r)) @ kCRLF"
      using content_length_spec [OF b3(2), of "length (rs_body r)"] assms(2) by (auto simp: response_ok_def)
    with False append_cstr_spec [OF c(2), of "''Connection: Keep-Alive'' @ kCRLF"] show ?thesis by (simp add: kCRLF_def)
  qed
  then obtain b4 where b4: "(if rs_closeConnection r then append_cstr (''Connection: close'' @ kCRLF) b3
      else append_cstr (snprintf 32 (''Content-Length: '' @ show_nat (length (rs_body r)) @ kCRLF)) b3 \<bind>
        append_cstr (''Connection: Keep-Alive'' @ kCRLF)) = Some b4" "Buffer_inv b4"
      "Buffer_content b4 = Buffer_content b3 @ (if rs_closeConnection r then ''Connection: close'' @ kCRLF
      else ''Content-Length: '' @ show_nat (length (rs_body r)) @ kCRLF @ ''Connection: Keep-Alive'' @ kCRLF)"
    by blast
  obtain b5 where b5: "append_headers (rs_headers r) b4 = Some b5" "Buffer_inv b5" "Buffer_content b5 = Buffer_content b4 @ concat (map header_text (rs_headers r))"
    using append_headers_spec [OF b4(2)] assms(2) by (auto simp: response_ok_def)
  obtain b6 where b6: "append_cstr kCRLF b5 = Some b6" "Buffer_inv b6" "Buffer_content b6 = Buffer_content b5 @ kCRLF"
    using append_cstr_spec [OF b5(2) crlf] by blast
  obtain b7 where b7: "append_string (rs_body r) b6 = Some b7" "Buffer_inv b7" "Buffer_content b7 = Buffer_content b6 @ rs_body r"
    using append_string_spec [OF b6(2)] assms(2) by (auto simp: response_ok_def)
  have "Buffer_content b7 = Buffer_content b @ response_text r"
    by (simp add: b7(3) b6(3) b5(3) b4(3) b3(3) b2(3) b1(3) response_text_def)
  moreover have "HttpResponse_appendToBuffer r b = Some b7"
    unfolding HttpResponse_appendToBuffer_def by (simp only: b1(1) b2(1) b3(1) b4(1) b5(1) b6(1) b7(1) Option.bind.bind_lunit)
  ultimately show ?thesis using b7(2) by blast
qed

section \<open>Serving\<close>

lemma tc_queue_conn [simp]: "tw_conn (tc_queue tid f s) = tw_conn s"
  by (simp add: tc_queue_def)

lemma try_write_input: "try_write tid w data ch s = (n, e, s') \<Longrightarrow> tw_conn s' = tw_conn s"
  by (auto simp: try_write_def Let_def split: if_splits sum.splits)

lemma tc_on_loop_conn: "tc_on_loop g s = Some s' \<Longrightarrow> tw_conn s' = tw_conn s"
  by (auto simp: tc_on_loop_def option_bind_iff)

lemma queue_rest_input:
  "queue_rest ctl tid rest ch s = Some s' \<Longrightarrow> tc_inputBuffer (tw_conn s') = tc_inputBuffer (tw_conn s)"
  unfolding queue_rest_def Let_def
  by (cases "Buffer_append rest (tc_outputBuffer (tw_conn s))") (auto dest!: tc_on_loop_conn split: if_splits)

lemma sendInLoop_input:
  "TcpConnection_sendInLoop ctl tid w data s = Some s' \<Longrightarrow> tc_inputBuffer (tw_conn s') = tc_inputBuffer (tw_conn s)"
proof (cases "tc_chan s")
  case None
  moreover assume "TcpConnection_sendInLoop ctl tid w data s = Some s'"
  ultimately show ?thesis by (auto simp: TcpConnection_sendInLoop_def option_bind_iff split: if_splits)
next
  case (Some ch)
  assume sent: "TcpConnection_sendInLoop ctl tid w data s = Some s'"
  obtain n e s1 where w: "try_write tid w data ch s = (n, e, s1)" by (cases "try_write tid w data ch s")
  from sent Some w try_write_input [OF w] show ?thesis
    by (auto simp: TcpConnection_sendInLoop_def option_bind_iff Let_def dest!: queue_rest_input split: if_splits)
qed

lemma shutdown_input:
  "TcpConnection_shutdown tid s = Some s' \<Longrightarrow> tc_inputBuffer (tw_conn s') = tc_inputBuffer (tw_conn s)"
  by (auto simp: TcpConnection_shutdown_def TcpConnection_shutdownInLoop_def TcpConnection_setState_def tc_queue_def option_bind_iff Let_def
      split: if_splits)

lemma TcpConnection_inv_input_buffer: "TcpConnection_inv tid s \<Longrightarrow> Buffer_inv (tc_inputBuffer (tw_conn s))"
  by (auto simp: TcpConnection_inv_def tc_base_def)

text \<open>Answering: what was sent, and the half-close that follows.\<close>

lemma answer_spec:
  assumes "kernel_ok ctl" "TcpConnection_inv tid s" "tc_state (tw_conn s) = kConnected"
    and "write_ok (length str) w" "w \<notin> {Inl EPIPE, Inl ECONNRESET}"
  shows "\<exists>s1. TcpConnection_sendInLoop ctl tid w str s = Some s1 \<and> TcpConnection_inv tid s1 \<and>
    tc_state (tw_conn s1) = kConnected \<and> tw_sent s1 = tw_sent s @ str \<and>
    tc_inputBuffer (tw_conn s1) = tc_inputBuffer (tw_conn s) \<and>
    (\<exists>s2. TcpConnection_shutdown tid s1 = Some s2 \<and> TcpConnection_inv tid s2 \<and> tc_state (tw_conn s2) = kDisconnecting \<and>
      tw_sent s2 = tw_sent s @ str \<and> tc_inputBuffer (tw_conn s2) = tc_inputBuffer (tw_conn s))"
proof -
  obtain s1 where s1: "TcpConnection_sendInLoop ctl tid w str s = Some s1" "TcpConnection_inv tid s1"
      "tc_state (tw_conn s1) = kConnected" "tw_sent s1 = tw_sent s @ str"
    using TcpConnection_sendInLoop_spec [OF assms(1,2,4)] assms(3,5) by auto
  obtain s2 where "TcpConnection_shutdown tid s1 = Some s2" "TcpConnection_inv tid s2" "tc_state (tw_conn s2) = kDisconnecting"
      "tw_sent s2 = tw_sent s1"
    using TcpConnection_shutdown_spec [OF s1(2)] s1(3) by auto
  with s1 sendInLoop_input [OF s1(1)] shutdown_input show ?thesis by metis
qed

lemma HttpServer_onRequest_spec:
  assumes "kernel_ok ctl" "TcpConnection_inv tid s" "tc_state (tw_conn s) = kConnected"
    and r: "r = cb req (HttpResponse_new (wants_to_close req))" "response_ok r"
    and w: "write_ok (length (response_text r)) w" "w \<notin> {Inl EPIPE, Inl ECONNRESET}"
  shows "\<exists>s'. HttpServer_onRequest ctl tid w cb req s = Some s' \<and> TcpConnection_inv tid s' \<and>
    tc_state (tw_conn s') = (if rs_closeConnection r then kDisconnecting else kConnected) \<and>
    tw_sent s' = tw_sent s @ response_text r \<and> tc_inputBuffer (tw_conn s') = tc_inputBuffer (tw_conn s)"
proof -
  obtain b0 where b0: "Buffer_new kInitialSize = Some b0" "Buffer_inv b0" "Buffer_content b0 = []"
    using Buffer_new_spec [of kInitialSize] by blast
  obtain b1 where b1: "HttpResponse_appendToBuffer r b0 = Some b1" "Buffer_inv b1" "Buffer_content b1 = response_text r"
    using HttpResponse_appendToBuffer_spec [OF b0(2) r(2)] b0(3) by auto
  have seg: "segment (Buffer_peek b1) (Buffer_peek b1 + Buffer_readableBytes b1) (buf_vec b1) = response_text r"
    using Buffer_segment_content [OF b1(2), of "Buffer_readableBytes b1"] b1(2,3) by (metis order_refl length_Buffer_content take_all)
  from answer_spec [OF assms(1-3) w] show ?thesis
    using assms(3) TcpConnection_inLoop [OF assms(2)] b0(1) b1(1) r(1)
    by (fastforce simp: HttpServer_onRequest_def TcpConnection_send_buffer_def seg Let_def)
qed

section \<open>Properties\<close>

text \<open>
  C9. One message that holds a whole request, on an open connection with a fresh context: the
  server sends exactly the text of the callback's response, keeps the connection open or begins
  its shutdown as the response says, and is ready for the next request. The bytes behind the
  request stay in the input buffer: a second request that arrived with the first is not looked at
  before more data arrives.
\<close>

theorem HttpServer_serves:
  assumes "kernel_ok ctl" "TcpConnection_inv tid s" "tc_state (tw_conn s) = kConnected"
    and "Buffer_content (tc_inputBuffer (tw_conn s)) = request_text m path query v hs @ rest"
    and "target_ok m path query v" "\<forall>fv \<in> set hs. header_ok fv"
    and "req = \<lparr>rq_method = m, rq_version = v, rq_path = path, rq_query = query, rq_receiveTime = t, rq_headers = map_of (rev hs)\<rparr>"
    and "r = cb req (HttpResponse_new (wants_to_close req))" "response_ok r"
    and "write_ok (length (response_text r)) w" "w \<notin> {Inl EPIPE, Inl ECONNRESET}"
  shows "\<exists>s'. HttpServer_onMessage ctl tid w1 w cb t (HttpContext_new, s) = Some (HttpContext_new, s') \<and>
    TcpConnection_inv tid s' \<and> tw_sent s' = tw_sent s @ response_text r \<and>
    tc_state (tw_conn s') = (if rs_closeConnection r then kDisconnecting else kConnected) \<and>
    Buffer_content (tc_inputBuffer (tw_conn s')) = rest"
proof -
  let ?c = "\<lparr>hc_state = kGotAll, hc_request = req\<rparr>"
  note inb = TcpConnection_inv_input_buffer [OF assms(2)]
  obtain ok c' b' where p: "HttpContext_parseRequest t HttpContext_new (tc_inputBuffer (tw_conn s)) = Some (ok, c', b')" "Buffer_inv b'"
      "http_parse t HttpContext_new (Buffer_content (tc_inputBuffer (tw_conn s))) = Some (ok, c', Buffer_content b')"
    by (rule parseRequest_spec [OF inb ctx_ok_new(1)])
  then have c': "ok" "c' = ?c" "Buffer_content b' = rest"
    using http_parse_text [OF assms(5,6), of t rest] assms(4,7) by auto
  let ?s = "s\<lparr>tw_conn := (tw_conn s)\<lparr>tc_inputBuffer := b'\<rparr>\<rparr>"
  have "TcpConnection_inv tid ?s" by (rule TcpConnection_inv_input [OF assms(2) p(2)])
  from HttpServer_onRequest_spec [of ctl tid ?s r cb req w, OF assms(1) this _ assms(8,9,10,11)] assms(3)
  obtain s' where "HttpServer_onRequest ctl tid w cb req ?s = Some s'" "TcpConnection_inv tid s'"
      "tc_state (tw_conn s') = (if rs_closeConnection r then kDisconnecting else kConnected)"
      "tw_sent s' = tw_sent s @ response_text r" "tc_inputBuffer (tw_conn s') = b'"
    by auto
  with p(1) c' show ?thesis
    by (simp add: HttpServer_onMessage_def HttpContext_gotAll_def HttpContext_reset_def HttpContext_new_def)
qed

lemma example_input:
  "\<exists>s. TcpConnection_inv 7 s \<and> tc_state (tw_conn s) = kConnected \<and> Buffer_content (tc_inputBuffer (tw_conn s)) = str"
proof -
  obtain s where s: "TcpConnection_inv 7 s" "tc_state (tw_conn s) = kConnected" using example_up by blast
  obtain b0 where b0: "Buffer_inv b0" "Buffer_content b0 = []" using Buffer_new_spec [of 0] by blast
  then obtain b where "Buffer_inv b" "Buffer_content b = str" using Buffer_append_spec [of b0 str] by auto
  with TcpConnection_inv_input [OF s(1)] s(2) show ?thesis by fastforce
qed

theorem HttpServer_serves_witness:
  "\<exists>s s'. Buffer_content (tc_inputBuffer (tw_conn s)) =
       request_text kGet ''/a'' [] kHttp11 [] @ request_text kGet ''/b'' [] kHttp11 [] \<and>
     HttpServer_onMessage table_ctl 7 (Inr 0) (Inr 0) defaultHttpCallback 5 (HttpContext_new, s) = Some (HttpContext_new, s') \<and>
     Buffer_content (tc_inputBuffer (tw_conn s')) = request_text kGet ''/b'' [] kHttp11 []"
proof -
  obtain s where s: "TcpConnection_inv 7 s" "tc_state (tw_conn s) = kConnected"
      "Buffer_content (tc_inputBuffer (tw_conn s)) = request_text kGet ''/a'' [] kHttp11 [] @ request_text kGet ''/b'' [] kHttp11 []"
    using example_input by blast
  have t: "target_ok kGet ''/a'' [] kHttp11" "\<forall>fv \<in> set ([] :: (string \<times> string) list). header_ok fv"
    by (simp_all add: target_ok_def)
  have r: "response_ok (defaultHttpCallback req (HttpResponse_new c))" for req c
    by (simp add: response_ok_def defaultHttpCallback_def HttpResponse_new_def HttpResponse_setCloseConnection_def
        HttpResponse_setStatusMessage_def HttpResponse_setStatusCode_def)
  have w: "write_ok n (Inr 0)" "Inr 0 \<notin> {Inl EPIPE, Inl ECONNRESET}" for n by (simp_all add: write_ok_def)
  obtain s' where "HttpServer_onMessage table_ctl 7 (Inr 0) (Inr 0) defaultHttpCallback 5 (HttpContext_new, s) = Some (HttpContext_new, s')"
      "Buffer_content (tc_inputBuffer (tw_conn s')) = request_text kGet ''/b'' [] kHttp11 []"
    using HttpServer_serves [where cb = defaultHttpCallback and t = 5 and ?w1.0 = "Inr 0", OF kernel_ok_table_ctl s t refl refl r w] by blast
  with s(3) show ?thesis by (intro exI conjI)
qed

text \<open>
  C21. A message the parser rejects is answered with the error text and the connection is shut
  down for writing once that text is out; nothing else is sent and the callback is not called.
\<close>

theorem HttpServer_rejects:
  assumes "kernel_ok ctl" "TcpConnection_inv tid s" "tc_state (tw_conn s) = kConnected" "ctx_ok c"
    and "HttpContext_parseRequest t c (tc_inputBuffer (tw_conn s)) = Some (False, c', b')"
    and "write_ok (length bad_request_text) w1" "w1 \<notin> {Inl EPIPE, Inl ECONNRESET}"
  shows "\<exists>s'. HttpServer_onMessage ctl tid w1 w2 cb t (c, s) = Some (c', s') \<and> TcpConnection_inv tid s' \<and>
    tw_sent s' = tw_sent s @ bad_request_text \<and> tc_state (tw_conn s') = kDisconnecting"
proof -
  note inb = TcpConnection_inv_input_buffer [OF assms(2)]
  obtain ok c1 b1 where p: "HttpContext_parseRequest t c (tc_inputBuffer (tw_conn s)) = Some (ok, c1, b1)" "Buffer_inv b1"
      "http_parse t c (Buffer_content (tc_inputBuffer (tw_conn s))) = Some (ok, c1, Buffer_content b1)"
    by (rule parseRequest_spec [OF inb assms(4)])
  then have p': "ok = False" "c1 = c'" "b1 = b'" using assms(5) by auto
  have b': "Buffer_inv b'" "\<not> HttpContext_gotAll c'"
    using p(2) http_parse_rejected [OF p(3) [unfolded p']] by (simp_all add: p' HttpContext_gotAll_def)
  let ?s = "s\<lparr>tw_conn := (tw_conn s)\<lparr>tc_inputBuffer := b'\<rparr>\<rparr>"
  have inv: "TcpConnection_inv tid ?s" by (rule TcpConnection_inv_input [OF assms(2) b'(1)])
  obtain s1 s2 where s2: "TcpConnection_sendInLoop ctl tid w1 bad_request_text ?s = Some s1" "TcpConnection_shutdown tid s1 = Some s2"
      "TcpConnection_inv tid s2" "tc_state (tw_conn s2) = kDisconnecting" "tw_sent s2 = tw_sent ?s @ bad_request_text"
    using answer_spec [OF assms(1) inv _ assms(6,7)] assms(3) by auto
  have "TcpConnection_send ctl tid w1 bad_request_text ?s = Some s1"
    using s2(1) assms(3) TcpConnection_inLoop [OF inv] by (simp add: TcpConnection_send_def)
  with assms(5) b'(2) s2 show ?thesis by (simp add: HttpServer_onMessage_def)
qed

theorem HttpServer_rejects_witness:
  "\<exists>s c' s'. HttpServer_onMessage table_ctl 7 (Inr 0) (Inr 0) defaultHttpCallback 5 (HttpContext_new, s) = Some (c', s') \<and>
     tw_sent s' = tw_sent s @ bad_request_text"
proof -
  obtain s where s: "TcpConnection_inv 7 s" "tc_state (tw_conn s) = kConnected" "Buffer_content (tc_inputBuffer (tw_conn s)) = kCRLF"
    using example_input by blast
  have "take_line kCRLF = Some ([], [])" using take_line_printed [of "[]" "[]"] by simp
  then have p: "http_parse 5 HttpContext_new kCRLF = Some (False, HttpContext_new, kCRLF)"
    by (simp add: http_parse.simps [of 5 HttpContext_new] http_line_def HttpContext_processRequestLine_def std_find_def)
  obtain ok c' b' where q: "HttpContext_parseRequest 5 HttpContext_new (tc_inputBuffer (tw_conn s)) = Some (ok, c', b')"
      "http_parse 5 HttpContext_new (Buffer_content (tc_inputBuffer (tw_conn s))) = Some (ok, c', Buffer_content b')"
    by (rule parseRequest_spec [OF TcpConnection_inv_input_buffer [OF s(1)] ctx_ok_new(1)])
  then have "HttpContext_parseRequest 5 HttpContext_new (tc_inputBuffer (tw_conn s)) = Some (False, c', b')"
    using p s(3) by simp
  from HttpServer_rejects [OF kernel_ok_table_ctl s(1,2) ctx_ok_new(1) this, of "Inr 0"] show ?thesis
    by (fastforce simp: write_ok_def)
qed

end
