(* ===== verification/Date.thy ===== *)
theory Date
  imports Prelude
begin

text \<open>
  \<^verbatim>\<open>muduo/base/Date.h\<close>, \<^verbatim>\<open>Date.cc\<close>: the Gregorian calendar by Julian day numbers. Division is C's, which
  truncates. An \<^verbatim>\<open>int\<close> has 32 bits, and a sum, difference or product that does not fit is undefined: the
  routines have no result then. The specification is the calendar itself: the lengths of the months, leap
  years, and the day that follows a day.
\<close>

record ymd =
  ymd_year :: int
  ymd_month :: int
  ymd_day :: int

type_synonym date = int

text \<open>An operation on \<^verbatim>\<open>int\<close>: undefined when the result does not fit.\<close>

definition int32 :: "int \<Rightarrow> int option" where
  "int32 x = (if - 2147483648 \<le> x \<and> x \<le> 2147483647 then Some x else None)"

definition getJulianDayNumber :: "int \<Rightarrow> int \<Rightarrow> int \<Rightarrow> int option" where
  "getJulianDayNumber year month day =
     do {
       a \<leftarrow> int32 (14 - month);
       let a = a sdiv 12;
       y \<leftarrow> int32 (year + 4800);
       y \<leftarrow> int32 (y - a);
       m \<leftarrow> int32 (12 * a);
       m \<leftarrow> int32 (month + m);
       m \<leftarrow> int32 (m - 3);
       t \<leftarrow> int32 (153 * m);
       t \<leftarrow> int32 (t + 2);
       r \<leftarrow> int32 (day + t sdiv 5);
       t \<leftarrow> int32 (y * 365);
       r \<leftarrow> int32 (r + t);
       r \<leftarrow> int32 (r + y sdiv 4);
       r \<leftarrow> int32 (r - y sdiv 100);
       r \<leftarrow> int32 (r + y sdiv 400);
       int32 (r - 32045) }"

definition getYearMonthDay :: "int \<Rightarrow> ymd option" where
  "getYearMonthDay julianDayNumber =
     do {
       a \<leftarrow> int32 (julianDayNumber + 32044);
       t \<leftarrow> int32 (4 * a);
       t \<leftarrow> int32 (t + 3);
       let b = t sdiv 146097;
       t \<leftarrow> int32 (b * 146097);
       c \<leftarrow> int32 (a - t sdiv 4);
       t \<leftarrow> int32 (4 * c);
       t \<leftarrow> int32 (t + 3);
       let d = t sdiv 1461;
       t \<leftarrow> int32 (1461 * d);
       e \<leftarrow> int32 (c - t sdiv 4);
       t \<leftarrow> int32 (5 * e);
       t \<leftarrow> int32 (t + 2);
       let m = t sdiv 153;
       t \<leftarrow> int32 (153 * m);
       t \<leftarrow> int32 (t + 2);
       day \<leftarrow> int32 (e - t sdiv 5);
       day \<leftarrow> int32 (day + 1);
       month \<leftarrow> int32 (m + 3);
       t \<leftarrow> int32 (12 * (m sdiv 10));
       month \<leftarrow> int32 (month - t);
       year \<leftarrow> int32 (b * 100);
       year \<leftarrow> int32 (year + d);
       year \<leftarrow> int32 (year - 4800);
       year \<leftarrow> int32 (year + m sdiv 10);
       Some \<lparr>ymd_year = year, ymd_month = month, ymd_day = day\<rparr> }"

definition kJulianDayOf1970_01_01 :: int where
  "kJulianDayOf1970_01_01 = the (getJulianDayNumber 1970 1 1)"

definition kDaysPerWeek :: int where "kDaysPerWeek = 7"

definition Date_ymd :: "int \<Rightarrow> int \<Rightarrow> int \<Rightarrow> date option" where
  "Date_ymd y m d = getJulianDayNumber y m d"

definition Date_valid :: "date \<Rightarrow> bool" where
  "Date_valid d \<longleftrightarrow> 0 < d"

definition Date_yearMonthDay :: "date \<Rightarrow> ymd option" where
  "Date_yearMonthDay d = getYearMonthDay d"

definition Date_weekDay :: "date \<Rightarrow> int option" where
  "Date_weekDay d = do { t \<leftarrow> int32 (d + 1); Some (t smod kDaysPerWeek) }"

definition Date_toIsoString :: "date \<Rightarrow> string option" where
  "Date_toIsoString d =
     do {
       ymd \<leftarrow> Date_yearMonthDay d;
       Some (take 31 (show_int_pad 4 (CHR '' '') (ymd_year ymd) @ ''-'' @ show_int_pad 2 (CHR ''0'') (ymd_month ymd) @ ''-'' @
               show_int_pad 2 (CHR ''0'') (ymd_day ymd))) }"

section \<open>The arithmetic without bounds\<close>

text \<open>What the two routines compute as long as no intermediate value overflows.\<close>

definition julian_day :: "int \<Rightarrow> int \<Rightarrow> int \<Rightarrow> int" where
  "julian_day year month day =
     (let a = (14 - month) sdiv 12;
          y = year + 4800 - a;
          m = month + 12 * a - 3
      in day + (153 * m + 2) sdiv 5 + y * 365 + y sdiv 4 - y sdiv 100 + y sdiv 400 - 32045)"

definition calendar_date :: "int \<Rightarrow> ymd" where
  "calendar_date julianDayNumber =
     (let a = julianDayNumber + 32044;
          b = (4 * a + 3) sdiv 146097;
          c = a - ((b * 146097) sdiv 4);
          d = (4 * c + 3) sdiv 1461;
          e = c - ((1461 * d) sdiv 4);
          m = (5 * e + 2) sdiv 153
      in \<lparr>ymd_year = b * 100 + d - 4800 + (m sdiv 10),
          ymd_month = m + 3 - 12 * (m sdiv 10),
          ymd_day = e - ((153 * m + 2) sdiv 5) + 1\<rparr>)"

section \<open>The calendar\<close>

definition leap_year :: "int \<Rightarrow> bool" where
  "leap_year y \<longleftrightarrow> y mod 4 = 0 \<and> (y mod 100 \<noteq> 0 \<or> y mod 400 = 0)"

definition days_in_month :: "int \<Rightarrow> int \<Rightarrow> int" where
  "days_in_month y m =
     (if m = 2 then if leap_year y then 29 else 28
      else if m = 4 \<or> m = 6 \<or> m = 9 \<or> m = 11 then 30 else 31)"

definition ymd_ok :: "ymd \<Rightarrow> bool" where
  "ymd_ok t \<longleftrightarrow> - 4799 \<le> ymd_year t \<and> 1 \<le> ymd_month t \<and> ymd_month t \<le> 12 \<and>
     1 \<le> ymd_day t \<and> ymd_day t \<le> days_in_month (ymd_year t) (ymd_month t)"

definition next_day :: "ymd \<Rightarrow> ymd" where
  "next_day t =
     (if ymd_day t < days_in_month (ymd_year t) (ymd_month t) then t\<lparr>ymd_day := ymd_day t + 1\<rparr>
      else if ymd_month t < 12 then t\<lparr>ymd_month := ymd_month t + 1, ymd_day := 1\<rparr>
      else t\<lparr>ymd_year := ymd_year t + 1, ymd_month := 1, ymd_day := 1\<rparr>)"

definition jdn :: "ymd \<Rightarrow> int" where
  "jdn t = julian_day (ymd_year t) (ymd_month t) (ymd_day t)"

section \<open>Years that begin in March\<close>

text \<open>
  Both routines count years from March, so that the leap day is the last of the year. \<open>y\<close> is
  such a year (shifted by 4800), \<open>m\<close> its month from 0 on, \<open>e\<close> the day of the year.
\<close>

lemma sdiv_pos: "0 \<le> a \<Longrightarrow> 0 < b \<Longrightarrow> a sdiv b = a div (b :: int)"
  by (cases "a = 0") (simp_all add: signed_divide_int_def)

definition march_day :: "int \<Rightarrow> int \<Rightarrow> int" where
  "march_day y e = e + y * 365 + y div 4 - y div 100 + y div 400"

definition march_ok :: "int \<Rightarrow> int \<Rightarrow> bool" where
  "march_ok y e \<longleftrightarrow> 0 \<le> y \<and> 0 \<le> e \<and> e \<le> 365 \<and> (e = 365 \<longrightarrow> leap_year (y + 1))"

lemma leap_year_4800: "leap_year (y + 4800) \<longleftrightarrow> leap_year y"
proof -
  have "(y + 1200 * 4) mod 4 = y mod 4" "(y + 48 * 100) mod 100 = y mod 100" "(y + 12 * 400) mod 400 = y mod 400"
    by (rule mod_mult_self1)+
  moreover have "(1200 * 4 :: int) = 4800" "(48 * 100 :: int) = 4800" "(12 * 400 :: int) = 4800" by simp_all
  ultimately show ?thesis unfolding leap_year_def by (simp only:)
qed

lemma leap_year_century: "leap_year (100 * (B + 1)) \<longleftrightarrow> B mod 4 = 3"
proof -
  have "100 * (B + 1) mod 400 = 100 * ((B + 1) mod 4)" using mod_mult_mult1 [of 100 "B + 1" 4] by simp
  moreover have "100 * (B + 1) mod 4 = 0" using mod_mult_self1_is_0 [of 4 "25 * (B + 1)"] by simp
  ultimately have "leap_year (100 * (B + 1)) \<longleftrightarrow> (B + 1) mod 4 = 0" by (auto simp: leap_year_def)
  also have "\<dots> \<longleftrightarrow> B mod 4 = 3" by presburger
  finally show ?thesis .
qed

lemma leap_year_mod_4: "leap_year (100 * B + D + 1) \<Longrightarrow> D mod 4 = 3"
proof -
  assume "leap_year (100 * B + D + 1)"
  then have "(D + 1 + 25 * B * 4) mod 4 = 0" by (simp add: leap_year_def algebra_simps)
  then have "(D + 1) mod 4 = 0" by (simp only: mod_mult_self1)
  then show ?thesis by presburger
qed

lemma march_split:
  assumes "march_ok y e"
  defines "a \<equiv> march_day y e"
  defines "b \<equiv> (4 * a + 3) div 146097"
  defines "c \<equiv> a - b * 146097 div 4"
  defines "d \<equiv> (4 * c + 3) div 1461"
  shows "b = y div 100" "d = y mod 100" "c - 1461 * d div 4 = e" "0 \<le> a" "0 \<le> c"
proof -
  define B where "B = y div 100"
  define D where "D = y mod 100"
  have y: "y = 100 * B + D" "0 \<le> D" "D < 100" "0 \<le> B" using assms(1) by (auto simp: B_def D_def march_ok_def)
  have e: "0 \<le> e" "e \<le> 365" "e = 365 \<longrightarrow> leap_year (100 * B + D + 1)" using assms(1) y(1) by (auto simp: march_ok_def)
  have "100 * B + D = D + 25 * B * 4" by simp
  then have q: "y div 4 = 25 * B + D div 4" unfolding y(1) by (simp only: div_mult_self1)
  have q2: "y div 400 = B div 4" using zdiv_zmult2_eq [of 4 y 100] by (simp add: B_def)
  have q3: "B * 146097 div 4 = 36524 * B + B div 4" "1461 * D div 4 = 365 * D + D div 4"
    using div_mult_self1 [of 4 B "36524 * B"] div_mult_self1 [of 4 D "365 * D"] by (simp_all add: algebra_simps)
  have q4: "y div 100 = B" by (simp add: B_def)
  have a: "a = 36524 * B + B div 4 + (365 * D + D div 4 + e)"
    unfolding a_def march_day_def q q2 q4 unfolding y(1) by simp
  have leap1: "e = 365 \<and> D = 99 \<longrightarrow> B mod 4 = 3" using e(3) leap_year_century [of B] by (auto simp: algebra_simps)
  have leap2: "e = 365 \<longrightarrow> D mod 4 = 3" using e(3) leap_year_mod_4 by blast
  let ?c = "365 * D + D div 4 + e"
  have c0: "0 \<le> ?c" using e y by simp
  have bm: "0 \<le> B mod 4" "B mod 4 < 4" "4 * (B div 4) = B - B mod 4" by presburger+
  have dm: "0 \<le> D mod 4" "D mod 4 < 4" "4 * (D div 4) = D - D mod 4" by presburger+
  have c1: "4 * ?c + 3 - B mod 4 < 146097"
  proof (cases "D = 99")
    case True
    then have "D div 4 = 24" by simp
    with True e leap1 bm show ?thesis by (cases "e = 365") simp_all
  next
    case False
    with y(3) have "D \<le> 98" by simp
    then have "4 * (365 * D) \<le> 143080" "4 * (D div 4) \<le> 98" using dm by simp_all
    with e(2) bm(1) show ?thesis by (simp add: distrib_left)
  qed
  have "4 * a + 3 = 146097 * B + (4 * ?c + 3 - B mod 4)" using a bm by simp
  moreover have "0 \<le> 4 * ?c + 3 - B mod 4" using c0 bm by simp
  ultimately have "(4 * a + 3) div 146097 = B" using c1 by (intro int_div_pos_eq) auto
  then show b: "b = y div 100" by (simp add: b_def B_def)
  then have c: "c = ?c" using a q3(1) by (simp add: c_def B_def)
  have "4 * c + 3 = 1461 * D + (4 * e + 3 - D mod 4)" using c dm by simp
  moreover have "0 \<le> 4 * e + 3 - D mod 4" "4 * e + 3 - D mod 4 < 1461" using e leap2 dm by auto
  ultimately have "(4 * c + 3) div 1461 = D" by (intro int_div_pos_eq) auto
  then show d: "d = y mod 100" by (simp add: d_def D_def)
  then show "c - 1461 * d div 4 = e" using c q3(2) by (simp add: D_def)
  show "0 \<le> a" using a y e by (simp add: a)
  show "0 \<le> c" using c c0 by simp
qed

definition march_month :: "int \<Rightarrow> int" where
  "march_month m = (153 * m + 2) div 5"

definition march_length :: "int \<Rightarrow> int" where
  "march_length m = (if m = 11 then 29 else if m = 1 \<or> m = 3 \<or> m = 6 \<or> m = 8 then 30 else 31)"

lemma march_month_table:
  "march_month 0 = 0" "march_month 1 = 31" "march_month 2 = 61" "march_month 3 = 92" "march_month 4 = 122" "march_month 5 = 153"
  "march_month 6 = 184" "march_month 7 = 214" "march_month 8 = 245" "march_month 9 = 275" "march_month 10 = 306" "march_month 11 = 337"
  by (simp_all add: march_month_def)

lemma twelve_cases:
  "0 \<le> m \<Longrightarrow> m \<le> 11 \<Longrightarrow> m \<in> {0, 1, 2, 3, 4, 5, 6, 7, 8, 9, 10, 11 :: int}"
proof -
  assume "0 \<le> m" "m \<le> 11"
  then have "m \<in> set [0..11]" by simp
  then show ?thesis by (simp add: upto.simps del: set_upto)
qed

lemma march_month_split:
  assumes "0 \<le> m" "m \<le> 11" "1 \<le> d" "d \<le> march_length m"
  shows "(5 * (march_month m + d - 1) + 2) div 153 = m"
proof -
  have "5 * (march_month m + d - 1) + 2 = 153 * m + (5 * march_month m - 153 * m + 5 * d - 3)" by simp
  moreover have "0 \<le> 5 * march_month m - 153 * m + 5 * d - 3" "5 * march_month m - 153 * m + 5 * d - 3 < 153"
    using twelve_cases [OF assms(1,2)] assms(3,4) by (auto simp: march_month_table march_length_def)
  ultimately show ?thesis by (rule int_div_pos_eq)
qed

text \<open>A date in terms of its March year.\<close>

definition march_year :: "ymd \<Rightarrow> int" where
  "march_year t = ymd_year t + 4800 - (if ymd_month t \<le> 2 then 1 else 0)"

definition march_index :: "ymd \<Rightarrow> int" where
  "march_index t = (if ymd_month t \<le> 2 then ymd_month t + 9 else ymd_month t - 3)"

definition march_doy :: "ymd \<Rightarrow> int" where
  "march_doy t = march_month (march_index t) + ymd_day t - 1"

lemma ymd_cases: "ymd_ok t \<Longrightarrow> ymd_month t \<in> {1, 2, 3, 4, 5, 6, 7, 8, 9, 10, 11, 12}"
proof -
  assume "ymd_ok t"
  then have "ymd_month t \<in> set [1..12]" by (simp add: ymd_ok_def)
  then show ?thesis by (simp add: upto.simps del: set_upto)
qed

lemma march_index_bounds:
  assumes "ymd_ok t"
  shows "0 \<le> march_index t" "march_index t \<le> 11" "1 \<le> ymd_day t" "ymd_day t \<le> march_length (march_index t)" "0 \<le> march_year t"
  by (insert ymd_cases [OF assms] assms, elim insertE emptyE; auto simp: ymd_ok_def march_index_def march_length_def march_year_def days_in_month_def split: if_splits)+

lemma march_ok_date:
  assumes "ymd_ok t"
  shows "march_ok (march_year t) (march_doy t)"
proof -
  have "leap_year (march_year t + 1)" if "march_doy t = 365"
  proof -
    have "ymd_month t = 2 \<and> ymd_day t = 29"
      using that
      by (insert ymd_cases [OF assms] assms, elim insertE emptyE; auto simp: march_doy_def march_index_def march_month_table ymd_ok_def days_in_month_def split: if_splits)+
    with assms have "leap_year (ymd_year t)" by (simp add: ymd_ok_def days_in_month_def split: if_splits)
    with \<open>ymd_month t = 2 \<and> ymd_day t = 29\<close> leap_year_4800 [of "ymd_year t"] show ?thesis by (simp add: march_year_def add.commute)
  qed
  moreover have "0 \<le> march_doy t" "march_doy t \<le> 365"
    by (insert ymd_cases [OF assms] assms, elim insertE emptyE; auto simp: march_doy_def march_index_def march_month_table ymd_ok_def days_in_month_def split: if_splits)+
  ultimately show ?thesis using march_index_bounds(5) [OF assms] by (simp add: march_ok_def)
qed

lemma jdn_march:
  assumes "ymd_ok t"
  shows "jdn t = march_day (march_year t) (march_doy t) - 32044"
proof -
  have "(14 - ymd_month t) sdiv 12 = (if ymd_month t \<le> 2 then 1 else 0)"
    using ymd_cases [OF assms] by (auto simp: sdiv_pos)
  moreover have "(153 * march_index t + 2) sdiv 5 = march_month (march_index t)"
    using march_index_bounds(1) [OF assms] by (simp add: sdiv_pos march_month_def)
  moreover have "march_index t = ymd_month t + 12 * (if ymd_month t \<le> 2 then 1 else 0) - 3" by (simp add: march_index_def)
  ultimately show ?thesis
    using march_index_bounds(5) [OF assms]
    by (simp add: jdn_def julian_day_def Let_def march_day_def march_doy_def march_year_def sdiv_pos del: if_split)
qed

lemma calendar_date_march:
  assumes "march_ok y e"
  shows "calendar_date (march_day y e - 32044) =
    (let m = (5 * e + 2) div 153
     in \<lparr>ymd_year = y - 4800 + m div 10, ymd_month = m + 3 - 12 * (m div 10), ymd_day = e - march_month m + 1\<rparr>)"
proof -
  note sp = march_split [OF assms]
  have y: "0 \<le> y" "0 \<le> e" using assms by (simp_all add: march_ok_def)
  have b: "(4 * march_day y e + 3) sdiv 146097 = y div 100" using sp(1,4) by (simp add: sdiv_pos)
  have c: "(y div 100 * 146097) sdiv 4 = y div 100 * 146097 div 4" using y by (simp add: sdiv_pos)
  have d: "(4 * (march_day y e - y div 100 * 146097 div 4) + 3) sdiv 1461 = y mod 100"
    using sdiv_pos [of "4 * (march_day y e - y div 100 * 146097 div 4) + 3" 1461] sp(2,5) [unfolded sp(1)] by linarith
  have e: "(1461 * (y mod 100)) sdiv 4 = 1461 * (y mod 100) div 4" using y by (simp add: sdiv_pos)
  have e': "march_day y e - y div 100 * 146097 div 4 - 1461 * (y mod 100) div 4 = e"
    using sp(3) [unfolded sp(2)] unfolding sp(1) .
  have m: "(5 * e + 2) sdiv 153 = (5 * e + 2) div 153" "0 \<le> (5 * e + 2) div 153" using y by (simp_all add: sdiv_pos)
  have y': "y div 100 * 100 + y mod 100 - 4800 = y - 4800" by simp
  define m' where "m' = (5 * e + 2) div 153"
  have m': "m' sdiv 10 = m' div 10" "(153 * m' + 2) sdiv 5 = march_month m'"
    using m(2) by (simp_all add: m'_def [symmetric] sdiv_pos march_month_def)
  have "march_day y e - 32044 + 32044 = march_day y e" by simp
  then show ?thesis
    unfolding calendar_date_def Let_def by (simp only: b c d e e' m(1) m'_def [symmetric] m' y')
qed

lemma calendar_date_jdn:
  assumes "ymd_ok t"
  shows "calendar_date (jdn t) = t"
proof -
  have "(5 * march_doy t + 2) div 153 = march_index t"
    using march_month_split [OF march_index_bounds(1-4) [OF assms]] by (simp add: march_doy_def)
  then show ?thesis
    using calendar_date_march [OF march_ok_date [OF assms]] ymd_cases [OF assms]
    unfolding jdn_march [OF assms] by (cases t) (auto simp: Let_def march_doy_def march_index_def march_year_def)
qed

section \<open>Consecutive days\<close>

lemma div_next: "0 \<le> y \<Longrightarrow> 0 < k \<Longrightarrow> (y + 1) div k = y div k + (if (y + 1) mod k = 0 then 1 else 0 :: int)"
proof -
  assume "0 \<le> y" "0 < k"
  then obtain n j where nj: "y = int n" "k = int j" using nonneg_int_cases zero_less_imp_eq_int by metis
  have "(y + 1) div k = int (Suc n div j)" "y div k = int (n div j)" "(y + 1) mod k = int (Suc n mod j)"
    unfolding nj zdiv_int zmod_int by (simp_all add: add.commute)
  with div_Suc [of n j] show ?thesis by simp
qed

lemma leap_count:
  "(P400 \<Longrightarrow> P100) \<Longrightarrow> (P100 \<Longrightarrow> P4) \<Longrightarrow>
   (if P4 \<and> (\<not> P100 \<or> P400) then 1 else 0) = (if P4 then 1 else 0) - (if P100 then 1 else 0) + (if P400 then 1 else (0 :: int))"
  by (cases P4; cases P100; cases P400; simp)

lemma march_day_next_year:
  assumes "0 \<le> y"
  shows "march_day (y + 1) 0 = march_day y (365 + (if leap_year (y + 1) then 1 else 0))"
proof -
  have 1: "(y + 1) mod 100 = 0" if "(y + 1) mod 400 = 0"
    using mod_mod_cancel [of 100 400 "y + 1"] unfolding that by simp
  have 2: "(y + 1) mod 4 = 0" if "(y + 1) mod 100 = 0"
    using mod_mod_cancel [of 4 100 "y + 1"] unfolding that by simp
  have leap: "(if leap_year (y + 1) then 1 else 0) =
      (if (y + 1) mod 4 = 0 then 1 else 0) - (if (y + 1) mod 100 = 0 then 1 else 0) + (if (y + 1) mod 400 = 0 then 1 else 0 :: int)"
    unfolding leap_year_def by (rule leap_count [OF 1 2])
  have d4: "(y + 1) div 4 = y div 4 + (if (y + 1) mod 4 = 0 then 1 else 0)" by (rule div_next [OF assms]) simp
  have d100: "(y + 1) div 100 = y div 100 + (if (y + 1) mod 100 = 0 then 1 else 0)" by (rule div_next [OF assms]) simp
  have d400: "(y + 1) div 400 = y div 400 + (if (y + 1) mod 400 = 0 then 1 else 0)" by (rule div_next [OF assms]) simp
  have "0 + (y + 1) * 365 + (a + p) - (b + q) + (c + r) = 365 + (p - q + r) + y * 365 + a - b + c" for a b c p q r :: int by simp
  then show ?thesis unfolding march_day_def leap d4 d100 d400 .
qed

lemma next_day_jdn:
  assumes "ymd_ok t"
  shows "ymd_ok (next_day t)" "jdn (next_day t) = jdn t + 1"
proof -
  show ok: "ymd_ok (next_day t)"
    by (insert ymd_cases [OF assms] assms, elim insertE emptyE; auto simp: next_day_def ymd_ok_def days_in_month_def split: if_splits)+
  show "jdn (next_day t) = jdn t + 1"
  proof (cases "ymd_month t = 2 \<and> ymd_day t = days_in_month (ymd_year t) 2")
    case False
    then have "march_year (next_day t) = march_year t" "march_doy (next_day t) = march_doy t + 1"
      by (insert ymd_cases [OF assms] assms, elim insertE emptyE; auto simp: next_day_def ymd_ok_def march_year_def march_doy_def march_index_def march_month_table days_in_month_def split: if_splits)+
    then show ?thesis by (simp add: jdn_march [OF assms] jdn_march [OF ok] march_day_def)
  next
    case True
    then have "march_year (next_day t) = march_year t + 1" "march_doy (next_day t) = 0"
        "march_doy t = 364 + (if leap_year (march_year t + 1) then 1 else 0)"
      using assms leap_year_4800 [of "ymd_year t"]
      by (auto simp: add.commute [of _ 4800] next_day_def ymd_ok_def march_year_def march_doy_def march_index_def march_month_table days_in_month_def)
    then show ?thesis
      using march_day_next_year [OF march_index_bounds(5) [OF assms]]
      by (simp add: jdn_march [OF assms] jdn_march [OF ok] march_day_def)
  qed
qed

definition first_day :: ymd where
  "first_day = \<lparr>ymd_year = - 4799, ymd_month = 1, ymd_day = 1\<rparr>"

lemma jdn_onto: "jdn first_day \<le> j \<Longrightarrow> \<exists>t. ymd_ok t \<and> jdn t = j"
proof (induction j rule: int_ge_induct)
  case base
  then show ?case by (intro exI [of _ first_day]) (simp add: ymd_ok_def first_day_def days_in_month_def)
next
  case (step j)
  then show ?case using next_day_jdn by metis
qed

lemma calendar_date_ok:
  assumes "jdn first_day \<le> j"
  shows "ymd_ok (calendar_date j)" "jdn (calendar_date j) = j"
  using jdn_onto [OF assms] calendar_date_jdn by auto

lemma jdn_first_day: "jdn first_day = - 31738"
  by (simp add: jdn_march ymd_ok_def first_day_def days_in_month_def march_day_def march_doy_def march_year_def march_index_def march_month_table)

section \<open>Within the range of int\<close>

lemma int32_eq: "- 2147483648 \<le> x \<Longrightarrow> x \<le> 2147483647 \<Longrightarrow> int32 x = Some x"
  by (simp add: int32_def)

lemma sdiv_bounds:
  assumes "0 \<le> n" "0 < k"
  shows "0 \<le> n sdiv k" "k * (n sdiv k) \<le> n" "n < k * (n sdiv k) + k" "n sdiv k \<le> (n :: int)"
proof -
  have *: "n = k * (n div k) + n mod k" "0 \<le> n mod k" "n mod k < k" "0 \<le> n div k" using assms by (simp_all add: pos_imp_zdiv_nonneg_iff)
  moreover have "1 * (n div k) \<le> k * (n div k)" using assms(2) *(4) by (intro mult_right_mono) auto
  ultimately show "0 \<le> n sdiv k" "k * (n sdiv k) \<le> n" "n < k * (n sdiv k) + k" "n sdiv k \<le> n"
    unfolding sdiv_pos [OF assms] by linarith+
qed

lemma getJulianDayNumber_eq:
  assumes "- 4799 \<le> year" "year \<le> 5000000" "1 \<le> month" "month \<le> 12" "1 \<le> day" "day \<le> 31"
  shows "getJulianDayNumber year month day = Some (julian_day year month day)"
proof -
  define a where "a = (14 - month) sdiv 12"
  define y where "y = year + 4800 - a"
  define m where "m = month + 12 * a - 3"
  define q where "q = (153 * m + 2) sdiv 5"
  define q4 where "q4 = y sdiv 4"
  define q100 where "q100 = y sdiv 100"
  define q400 where "q400 = y sdiv 400"
  have "a = (14 - month) div 12" unfolding a_def using assms(4) by (simp add: sdiv_pos)
  then have a: "0 \<le> a" "a \<le> 1" "12 * a \<le> 14 - month" "14 - month < 12 * a + 12" using assms(3,4) by presburger+
  have y: "0 \<le> y" "y \<le> 5004800" using assms(1,2) a by (simp_all add: y_def)
  have m: "0 \<le> m" "m \<le> 11" using assms(3,4) a by (simp_all add: m_def)
  have q: "0 \<le> q" "q \<le> 338" using m by (simp_all add: q_def sdiv_pos)
  have qs: "0 \<le> q4" "q4 \<le> y" "0 \<le> q100" "q100 \<le> y" "0 \<le> q400" "q400 \<le> y"
    using sdiv_bounds [of y 4] sdiv_bounds [of y 100] sdiv_bounds [of y 400] y by (simp_all add: q4_def q100_def q400_def)
  have "getJulianDayNumber year month day = Some (day + q + y * 365 + q4 - q100 + q400 - 32045)"
    unfolding getJulianDayNumber_def Let_def
    using assms a y m q qs
    by (simp add: int32_eq a_def [symmetric] y_def [symmetric] m_def [symmetric] q_def [symmetric] q4_def [symmetric]
        q100_def [symmetric] q400_def [symmetric])
  then show ?thesis
    by (simp only: julian_day_def Let_def a_def [symmetric] y_def [symmetric] m_def [symmetric] q_def [symmetric] q4_def [symmetric]
        q100_def [symmetric] q400_def [symmetric])
qed

lemma getYearMonthDay_eq:
  assumes "- 31738 \<le> j" "j \<le> 536838867"
  shows "getYearMonthDay j = Some (calendar_date j)" "ymd_year (calendar_date j) \<le> 1469999"
proof -
  define a where "a = j + 32044"
  define b where "b = (4 * a + 3) sdiv 146097"
  define b4 where "b4 = (b * 146097) sdiv 4"
  define c where "c = a - b4"
  define d where "d = (4 * c + 3) sdiv 1461"
  define d4 where "d4 = (1461 * d) sdiv 4"
  define e where "e = c - d4"
  define m where "m = (5 * e + 2) sdiv 153"
  define m5 where "m5 = (153 * m + 2) sdiv 5"
  define m10 where "m10 = m sdiv 10"
  note folds = a_def [symmetric] b_def [symmetric] b4_def [symmetric] c_def [symmetric] d_def [symmetric] d4_def [symmetric]
    e_def [symmetric] m_def [symmetric] m5_def [symmetric] m10_def [symmetric]
  have a: "306 \<le> a" "a \<le> 536870911" using assms by (simp_all add: a_def)
  then have b: "0 \<le> b" "146097 * b \<le> 4 * a + 3" "4 * a + 3 < 146097 * b + 146097" "b \<le> 14699"
    using sdiv_bounds [of "4 * a + 3" 146097] by (simp_all add: b_def)
  then have b4: "4 * b4 \<le> b * 146097" "b * 146097 < 4 * b4 + 4" "0 \<le> b4"
    using sdiv_bounds [of "b * 146097" 4] by (simp_all add: b4_def)
  have c: "0 \<le> c" "c \<le> 36524" using b b4 by (simp_all add: c_def)
  then have d: "0 \<le> d" "1461 * d \<le> 4 * c + 3" "4 * c + 3 < 1461 * d + 1461" "d \<le> 100"
    using sdiv_bounds [of "4 * c + 3" 1461] by (simp_all add: d_def)
  then have d4: "4 * d4 \<le> 1461 * d" "1461 * d < 4 * d4 + 4" "0 \<le> d4"
    using sdiv_bounds [of "1461 * d" 4] by (simp_all add: d4_def)
  have e: "0 \<le> e" "e \<le> 366" using d d4 by (simp_all add: e_def)
  then have m: "0 \<le> m" "m \<le> 11" using sdiv_bounds [of "5 * e + 2" 153] by (simp_all add: m_def)
  then have m5: "0 \<le> m5" "m5 \<le> 337" "0 \<le> m10" "m10 \<le> 1"
    using sdiv_bounds [of "153 * m + 2" 5] sdiv_bounds [of m 10] by (simp_all add: m5_def m10_def)
  have j: "calendar_date j = \<lparr>ymd_year = b * 100 + d - 4800 + m10, ymd_month = m + 3 - 12 * m10, ymd_day = e - m5 + 1\<rparr>"
    unfolding calendar_date_def Let_def by (simp only: folds)
  show "ymd_year (calendar_date j) \<le> 1469999" unfolding j using b(4) d(4) m5(4) by simp
  note bounds = a b b4 c d d4 e m m5
  have "getYearMonthDay j = Some \<lparr>ymd_year = b * 100 + d - 4800 + m10, ymd_month = m + 3 - 12 * m10, ymd_day = e - m5 + 1\<rparr>"
    unfolding getYearMonthDay_def Let_def using bounds
    by (simp add: int32_eq folds)
  then show "getYearMonthDay j = Some (calendar_date j)" unfolding j .
qed

lemma getYearMonthDay_overflow: "536838867 < j \<Longrightarrow> getYearMonthDay j = None"
  by (simp add: getYearMonthDay_def int32_def)

lemma epoch_day: "getJulianDayNumber 1970 1 1 = Some 2440588" "kJulianDayOf1970_01_01 = 2440588"
  by (simp_all add: kJulianDayOf1970_01_01_def getJulianDayNumber_def int32_def sdiv_pos)

lemma jdn_computed:
  assumes "ymd_ok t" "ymd_year t \<le> 1469999"
  shows "getJulianDayNumber (ymd_year t) (ymd_month t) (ymd_day t) = Some (jdn t)"
proof -
  have "ymd_day t \<le> 31" using assms(1) by (auto simp: ymd_ok_def days_in_month_def split: if_splits)
  with assms show ?thesis unfolding jdn_def by (intro getJulianDayNumber_eq) (simp_all add: ymd_ok_def)
qed

lemma jdn_bounds:
  assumes "ymd_ok t" "ymd_year t \<le> 1469999"
  shows "- 32044 \<le> jdn t" "jdn t \<le> 600000000"
proof -
  define y where "y = march_year t"
  define e where "e = march_doy t"
  have "march_ok y e" unfolding y_def e_def by (rule march_ok_date [OF assms(1)])
  then have b: "0 \<le> y" "0 \<le> e" "e \<le> 365" "0 \<le> march_day y e"
    using march_split(4) by (simp_all add: march_ok_def)
  have "y \<le> 1474799" using assms(2) by (simp add: y_def march_year_def)
  moreover have "4 * (y div 4) \<le> y" "0 \<le> y div 100" "400 * (y div 400) \<le> y" using b(1) by simp_all
  ultimately have "march_day y e \<le> 600000000" using b(3) unfolding march_day_def by linarith
  then show "- 32044 \<le> jdn t" "jdn t \<le> 600000000"
    using jdn_march [OF assms(1)] b(4) by (simp_all add: y_def e_def)
qed

lemma jdn_range:
  assumes "ymd_ok t" "ymd_year t \<le> 1465000"
  shows "- 31738 \<le> jdn t" "jdn t \<le> 536838867"
proof -
  define y where "y = march_year t"
  define e where "e = march_doy t"
  have "march_ok y e" unfolding y_def e_def by (rule march_ok_date [OF assms(1)])
  then have b: "0 \<le> y" "0 \<le> e" "e \<le> 365" by (simp_all add: march_ok_def)
  have "y \<le> 1469800" using assms(2) by (simp add: y_def march_year_def)
  moreover have "4 * (y div 4) \<le> y" "y < 100 * (y div 100) + 100" "400 * (y div 400) \<le> y"
     "0 \<le> y div 4" "0 \<le> y div 400" using b(1) by simp_all
  ultimately have "march_day y e \<le> 536870911" using b(3) unfolding march_day_def by linarith
  then show "jdn t \<le> 536838867" using jdn_march [OF assms(1)] by (simp add: y_def e_def)
  have "306 \<le> march_day y e"
  proof (cases "y = 0")
    case True
    then have "ymd_month t \<le> 2" using assms(1) by (auto simp: y_def march_year_def ymd_ok_def split: if_splits)
    then have "306 \<le> e" using ymd_cases [OF assms(1)] march_index_bounds(3) [OF assms(1)]
      by (auto simp: e_def march_doy_def march_index_def march_month_table)
    with True show ?thesis by (simp add: march_day_def)
  next
    case False
    with b(1) have "1 \<le> y" by simp
    moreover have "y div 100 \<le> y div 4" using b(1) by (simp add: zdiv_mono2)
    moreover have "0 \<le> y div 400" using b(1) by simp
    ultimately show ?thesis using b(2) unfolding march_day_def by linarith
  qed
  then show "- 31738 \<le> jdn t" using jdn_march [OF assms(1)] by (simp add: y_def e_def)
qed

section \<open>Properties\<close>

text \<open>
  C12. The two conversions are inverse to each other: a day of the calendar from the year -4799 to the
  year 1465000 is recovered from its day number, and every day number from -31738 to 536838867 is the
  number of exactly one day of the calendar, which the conversion finds, with the leap years of the
  Gregorian calendar. No intermediate value leaves the 32 bits of an \<^verbatim>\<open>int\<close> there; above 536838867 the
  conversion of a day number to a day overflows.
\<close>

theorem Date_bijection:
  "(ymd_ok t \<and> ymd_year t \<le> 1465000 \<longrightarrow>
     (\<exists>d. Date_ymd (ymd_year t) (ymd_month t) (ymd_day t) = Some d \<and> Date_yearMonthDay d = Some t)) \<and>
   (- 31738 \<le> j \<and> j \<le> 536838867 \<longrightarrow>
     (\<exists>t. Date_yearMonthDay j = Some t \<and> ymd_ok t \<and> Date_ymd (ymd_year t) (ymd_month t) (ymd_day t) = Some j)) \<and>
   (536838867 < j \<longrightarrow> Date_yearMonthDay j = None)"
proof (intro conjI impI)
  assume t: "ymd_ok t \<and> ymd_year t \<le> 1465000"
  then have "getYearMonthDay (jdn t) = Some t"
    using getYearMonthDay_eq(1) [OF jdn_range] calendar_date_jdn [of t] by simp
  with t show "\<exists>d. Date_ymd (ymd_year t) (ymd_month t) (ymd_day t) = Some d \<and> Date_yearMonthDay d = Some t"
    using jdn_computed [of t] by (simp add: Date_ymd_def Date_yearMonthDay_def)
next
  assume j: "- 31738 \<le> j \<and> j \<le> 536838867"
  then have t: "ymd_ok (calendar_date j)" "jdn (calendar_date j) = j"
    using calendar_date_ok [of j] by (simp_all add: jdn_first_day)
  with j show "\<exists>t. Date_yearMonthDay j = Some t \<and> ymd_ok t \<and> Date_ymd (ymd_year t) (ymd_month t) (ymd_day t) = Some j"
    using getYearMonthDay_eq [of j] jdn_computed [of "calendar_date j"] by (simp add: Date_ymd_def Date_yearMonthDay_def)
qed (simp add: Date_yearMonthDay_def getYearMonthDay_overflow)

theorem Date_bijection_witness:
  "(\<exists>d. Date_ymd 2024 2 29 = Some d \<and> Date_yearMonthDay d = Some \<lparr>ymd_year = 2024, ymd_month = 2, ymd_day = 29\<rparr>) \<and>
   (\<exists>t. Date_yearMonthDay 2440588 = Some t \<and> ymd_ok t) \<and> Date_yearMonthDay 600000000 = None"
  using Date_bijection [of "\<lparr>ymd_year = 2024, ymd_month = 2, ymd_day = 29\<rparr>" 2440588] Date_bijection [of undefined 600000000]
  by (auto simp: ymd_ok_def days_in_month_def leap_year_def)

text \<open>
  The day after a day of the calendar has the next number and the next day of the week, from
  Saturday on to Sunday; day 2440588 is Thursday, 1 January 1970.
\<close>

lemma Date_next_day:
  assumes "ymd_ok t" "0 \<le> jdn t" "jdn t \<le> 536838867"
  shows "jdn (next_day t) = jdn t + 1 \<and>
    (\<exists>w. Date_weekDay (jdn t) = Some w \<and> Date_weekDay (jdn (next_day t)) = Some ((w + 1) mod 7)) \<and>
    Date_weekDay kJulianDayOf1970_01_01 = Some 4"
proof -
  have wd: "Date_weekDay d = Some ((d + 1) mod 7)" if "0 \<le> d" "d \<le> 536838868" for d
    using that by (simp add: Date_weekDay_def kDaysPerWeek_def int32_def signed_modulo_int_def)
  have "(jdn t + 1 + 1) mod 7 = ((jdn t + 1) mod 7 + 1) mod 7" by (simp only: mod_add_left_eq)
  then show ?thesis
    unfolding epoch_day using next_day_jdn(2) [OF assms(1)] wd [of 2440588] wd [of "jdn t"] wd [of "jdn t + 1"] assms(2,3) by simp
qed

end
