(* ===== verification/TimeZone.thy ===== *)
theory TimeZone
  imports Date Endian
begin

text \<open>
  \<^verbatim>\<open>muduo/base/TimeZone.h\<close>, \<^verbatim>\<open>TimeZone.cc\<close>: reading a zone file, finding the rule in force at a time, and
  the conversions between seconds since the epoch and calendar time. A zone file is the string of
  its bytes, or \<^term>\<open>None\<close> when it cannot be opened. A reader of the file returns the exception it
  throws (\<^term>\<open>Inl\<close>) or a value and the rest of the file; it has no result where the code's behaviour
  is undefined. \<^verbatim>\<open>time_t\<close> is unbounded (it has 64 bits); the operations on \<^verbatim>\<open>int\<close> have no result when they
  overflow, as in theory \<open>Date\<close>.
\<close>

section \<open>Reading a zone file\<close>

record transition =
  tr_gmttime :: int
  tr_localtime :: int
  tr_localtimeIdx :: nat

record localtime =
  lt_gmtOffset :: int
  lt_isDst :: bool
  lt_arrbIdx :: nat

record tzdata =
  tz_transitions :: "transition list"
  tz_localtimes :: "localtime list"
  tz_abbreviation :: string

definition tzdata_empty :: tzdata where
  "tzdata_empty = \<lparr>tz_transitions = [], tz_localtimes = [], tz_abbreviation = []\<rparr>"

type_synonym 'a reader = "string \<Rightarrow> string + 'a \<times> string"

definition File_readBytes :: "nat \<Rightarrow> string reader" where
  "File_readBytes n f =
     (let buf = take n f
      in if length buf \<noteq> n then Inl ''no enough data'' else Inr (buf, drop n f))"

definition File_readInt32 :: "int reader" where
  "File_readInt32 f =
     (let buf = take 4 f
      in if length buf \<noteq> 4 then Inl ''bad int32_t data''
         else Inr (sint (networkToHost32 (mem_word buf)), drop 4 f))"

definition File_readUInt8 :: "nat reader" where
  "File_readUInt8 f = (case f of [] \<Rightarrow> Inl ''bad uint8_t data'' | c # f \<Rightarrow> Inr (of_char c, f))"

definition tz_bind :: "'a reader \<Rightarrow> ('a \<Rightarrow> 'b reader) \<Rightarrow> 'b reader" where
  "tz_bind r g f = (case r f of Inl e \<Rightarrow> Inl e | Inr (a, f) \<Rightarrow> g a f)"

fun read_n :: "nat \<Rightarrow> 'a reader \<Rightarrow> 'a list reader" where
  "read_n 0 r f = Inr ([], f)"
| "read_n (Suc n) r f = tz_bind r (\<lambda>a. tz_bind (read_n n r) (\<lambda>as f. Inr (a # as, f))) f"

record tzhead =
  th_timecnt :: int
  th_typecnt :: int
  th_charcnt :: int
  th_trans :: "int list"
  th_localtimes :: "nat list"

text \<open>
  The counts and the two tables at the front of the file. \<^verbatim>\<open>reserve\<close> with a negative count throws
  \<^verbatim>\<open>std::length_error\<close>, which is a \<^verbatim>\<open>logic_error\<close>.
\<close>

definition read_head :: "tzhead reader" where
  "read_head =
     tz_bind (File_readBytes 4) (\<lambda>head.
     if head \<noteq> ''TZif'' then (\<lambda>f. Inl ''bad head'') else
     tz_bind (File_readBytes 1) (\<lambda>version.
     tz_bind (File_readBytes 15) (\<lambda>_.
     tz_bind File_readInt32 (\<lambda>isgmtcnt.
     tz_bind File_readInt32 (\<lambda>isstdcnt.
     tz_bind File_readInt32 (\<lambda>leapcnt.
     tz_bind File_readInt32 (\<lambda>timecnt.
     tz_bind File_readInt32 (\<lambda>typecnt.
     tz_bind File_readInt32 (\<lambda>charcnt.
     if timecnt < 0 then (\<lambda>f. Inl ''vector::reserve'') else
     tz_bind (read_n (nat timecnt) File_readInt32) (\<lambda>trans.
     tz_bind (read_n (nat timecnt) File_readUInt8) (\<lambda>localtimes f.
     Inr (\<lparr>th_timecnt = timecnt, th_typecnt = typecnt, th_charcnt = charcnt, th_trans = trans,
           th_localtimes = localtimes\<rparr>, f))))))))))))"

definition read_type :: "localtime reader" where
  "read_type =
     tz_bind File_readInt32 (\<lambda>gmtoff.
     tz_bind File_readUInt8 (\<lambda>isdst.
     tz_bind File_readUInt8 (\<lambda>abbrind f.
     Inr (\<lparr>lt_gmtOffset = gmtoff, lt_isDst = (isdst \<noteq> 0), lt_arrbIdx = abbrind\<rparr>, f))))"

text \<open>The types are pushed as they are read: an exception leaves those read so far.\<close>

fun read_types :: "nat \<Rightarrow> tzdata \<Rightarrow> string \<Rightarrow> tzdata \<times> (string + string)" where
  "read_types 0 data f = (data, Inr f)"
| "read_types (Suc n) data f =
     (case read_type f of
        Inl e \<Rightarrow> (data, Inl e)
      | Inr (t, f) \<Rightarrow> read_types n (data\<lparr>tz_localtimes := tz_localtimes data @ [t]\<rparr>) f)"

fun push_transitions :: "(int \<times> nat) list \<Rightarrow> tzdata \<Rightarrow> tzdata option" where
  "push_transitions [] data = Some data"
| "push_transitions ((t, localIdx) # ts) data =
     (if localIdx < length (tz_localtimes data) then
        push_transitions ts
          (data\<lparr>tz_transitions := tz_transitions data @
             [\<lparr>tr_gmttime = t, tr_localtime = t + lt_gmtOffset (tz_localtimes data ! localIdx), tr_localtimeIdx = localIdx\<rparr>]\<rparr>)
      else None)"

definition readTimeZoneFile :: "string option \<Rightarrow> tzdata \<Rightarrow> (bool \<times> tzdata) option" where
  "readTimeZoneFile zonefile data =
     (case zonefile of
        None \<Rightarrow> Some (True, data)
      | Some f \<Rightarrow>
          (case read_head f of
             Inl e \<Rightarrow> Some (True, data)
           | Inr (h, f) \<Rightarrow>
               (case read_types (nat (th_typecnt h)) data f of
                  (data, Inl e) \<Rightarrow> Some (True, data)
                | (data, Inr f) \<Rightarrow>
                    do {
                      data \<leftarrow> push_transitions (zip (th_trans h) (th_localtimes h)) data;
                      assert_that (0 \<le> th_charcnt h);
                      Some (True, case File_readBytes (nat (th_charcnt h)) f of
                                    Inl e \<Rightarrow> data
                                  | Inr (s, _) \<Rightarrow> data\<lparr>tz_abbreviation := s\<rparr>) })))"

text \<open>A zone is its data, or \<^term>\<open>None\<close> for the null pointer.\<close>

definition TimeZone_file :: "string option \<Rightarrow> tzdata option option" where
  "TimeZone_file zonefile =
     do {
       (ok, data) \<leftarrow> readTimeZoneFile zonefile tzdata_empty;
       Some (if \<not> ok then None else Some data) }"

definition TimeZone_fixed :: "int \<Rightarrow> string \<Rightarrow> tzdata option" where
  "TimeZone_fixed eastOfUtc name =
     Some \<lparr>tz_transitions = [], tz_localtimes = [\<lparr>lt_gmtOffset = eastOfUtc, lt_isDst = False, lt_arrbIdx = 0\<rparr>],
           tz_abbreviation = name\<rparr>"

definition TimeZone_valid :: "tzdata option \<Rightarrow> bool" where
  "TimeZone_valid z \<longleftrightarrow> z \<noteq> None"

section \<open>The rule in force\<close>

definition Comp_less :: "bool \<Rightarrow> transition \<Rightarrow> transition \<Rightarrow> bool" where
  "Comp_less compareGmt lhs rhs \<longleftrightarrow>
     (if compareGmt then tr_gmttime lhs < tr_gmttime rhs else tr_localtime lhs < tr_localtime rhs)"

definition Comp_equal :: "bool \<Rightarrow> transition \<Rightarrow> transition \<Rightarrow> bool" where
  "Comp_equal compareGmt lhs rhs \<longleftrightarrow>
     (if compareGmt then tr_gmttime lhs = tr_gmttime rhs else tr_localtime lhs = tr_localtime rhs)"

text \<open>\<^verbatim>\<open>std::lower_bound\<close>: the binary search of the C++ library.\<close>

function lower_bound :: "('a \<Rightarrow> 'b \<Rightarrow> bool) \<Rightarrow> 'a list \<Rightarrow> 'b \<Rightarrow> nat \<Rightarrow> nat \<Rightarrow> nat" where
  "lower_bound cmp xs v first len =
     (if len = 0 then first
      else let half = len div 2; middle = first + half
           in if cmp (xs ! middle) v then lower_bound cmp xs v (middle + 1) (len - half - 1)
              else lower_bound cmp xs v first half)"
  by pat_completeness auto
termination by (relation "measure (\<lambda>(cmp, xs, v, first, len). len)") auto

declare lower_bound.simps [simp del]

definition nth_local :: "tzdata \<Rightarrow> nat \<Rightarrow> localtime option" where
  "nth_local data i = (if i < length (tz_localtimes data) then Some (tz_localtimes data ! i) else None)"

definition findLocaltime :: "tzdata \<Rightarrow> transition \<Rightarrow> bool \<Rightarrow> localtime option" where
  "findLocaltime data sentry gmt =
     (let ts = tz_transitions data
      in if ts = [] \<or> Comp_less gmt sentry (hd ts) then nth_local data 0
         else
           let transI = lower_bound (Comp_less gmt) ts sentry 0 (length ts)
           in if transI \<noteq> length ts then
                (if \<not> Comp_equal gmt sentry (ts ! transI) then
                   do {
                     assert_that (transI \<noteq> 0);
                     nth_local data (tr_localtimeIdx (ts ! (transI - 1))) }
                 else nth_local data (tr_localtimeIdx (ts ! transI)))
              else nth_local data (tr_localtimeIdx (last ts)))"

section \<open>Conversions\<close>

record tm =
  tm_sec :: int
  tm_min :: int
  tm_hour :: int
  tm_mday :: int
  tm_mon :: int
  tm_year :: int
  tm_wday :: int
  tm_yday :: int
  tm_isdst :: bool
  tm_gmtoff :: int
  tm_zone :: string

definition tm_zero :: tm where
  "tm_zero = \<lparr>tm_sec = 0, tm_min = 0, tm_hour = 0, tm_mday = 0, tm_mon = 0, tm_year = 0, tm_wday = 0, tm_yday = 0,
     tm_isdst = False, tm_gmtoff = 0, tm_zone = []\<rparr>"

definition kSecondsPerDay :: int where "kSecondsPerDay = 24 * 60 * 60"

definition fillHMS :: "int \<Rightarrow> tm \<Rightarrow> tm" where
  "fillHMS seconds utc =
     (let minutes = seconds div 60
      in utc\<lparr>tm_sec := seconds mod 60, tm_min := minutes mod 60, tm_hour := minutes div 60\<rparr>)"

text \<open>The conversion of a wider integer to \<^verbatim>\<open>int\<close> keeps the low 32 bits.\<close>

definition to_int32 :: "int \<Rightarrow> int" where
  "to_int32 x = sint (word_of_int x :: 32 word)"

definition toUtcTime :: "int \<Rightarrow> bool \<Rightarrow> tm option" where
  "toUtcTime secondsSinceEpoch yday =
     do {
       let utc = tm_zero\<lparr>tm_zone := ''GMT''\<rparr>;
       let seconds = to_int32 (secondsSinceEpoch smod kSecondsPerDay);
       let days = to_int32 (secondsSinceEpoch sdiv kSecondsPerDay);
       (seconds, days) \<leftarrow>
         (if seconds < 0 then
            do {
              seconds \<leftarrow> int32 (seconds + kSecondsPerDay);
              days \<leftarrow> int32 (days - 1);
              Some (seconds, days) }
          else Some (seconds, days));
       let utc = fillHMS seconds utc;
       date \<leftarrow> int32 (days + kJulianDayOf1970_01_01);
       ymd \<leftarrow> Date_yearMonthDay date;
       year \<leftarrow> int32 (ymd_year ymd - 1900);
       mon \<leftarrow> int32 (ymd_month ymd - 1);
       wday \<leftarrow> Date_weekDay date;
       let utc = utc\<lparr>tm_year := year, tm_mon := mon, tm_mday := ymd_day ymd, tm_wday := wday\<rparr>;
       if yday then
         do {
           startOfYear \<leftarrow> Date_ymd (ymd_year ymd) 1 1;
           yd \<leftarrow> int32 (date - startOfYear);
           Some (utc\<lparr>tm_yday := yd\<rparr>) }
       else Some utc }"

definition fromUtcTime :: "int \<Rightarrow> int \<Rightarrow> int \<Rightarrow> int \<Rightarrow> int \<Rightarrow> int \<Rightarrow> int option" where
  "fromUtcTime year month day hour minute seconds =
     do {
       date \<leftarrow> Date_ymd year month day;
       h \<leftarrow> int32 (hour * 3600);
       m \<leftarrow> int32 (minute * 60);
       t \<leftarrow> int32 (h + m);
       secondsInDay \<leftarrow> int32 (t + seconds);
       days \<leftarrow> int32 (date - kJulianDayOf1970_01_01);
       Some (days * kSecondsPerDay + secondsInDay) }"

definition fromUtcTime_tm :: "tm \<Rightarrow> int option" where
  "fromUtcTime_tm utc =
     do {
       year \<leftarrow> int32 (tm_year utc + 1900);
       month \<leftarrow> int32 (tm_mon utc + 1);
       fromUtcTime year month (tm_mday utc) (tm_hour utc) (tm_min utc) (tm_sec utc) }"

text \<open>
  \<^verbatim>\<open>gmtime_r(3)\<close> and \<^verbatim>\<open>timegm(3)\<close> of the C library: UTC in the Gregorian calendar, computed on 64 bits.
  \<open>utc_calendar\<close> and \<open>utc_seconds\<close> are the same conversions as the two above, without the limits of \<^verbatim>\<open>int\<close>.
\<close>

definition utc_calendar :: "int \<Rightarrow> bool \<Rightarrow> tm" where
  "utc_calendar s yday =
     (let date = s div 86400 + 2440588;
          utc = fillHMS (s mod 86400) (tm_zero\<lparr>tm_zone := ''GMT''\<rparr>);
          ymd = calendar_date date;
          utc = utc\<lparr>tm_year := ymd_year ymd - 1900, tm_mon := ymd_month ymd - 1, tm_mday := ymd_day ymd,
                    tm_wday := (date + 1) smod 7\<rparr>
      in if yday then utc\<lparr>tm_yday := date - julian_day (ymd_year ymd) 1 1\<rparr> else utc)"

definition utc_seconds :: "tm \<Rightarrow> int" where
  "utc_seconds t =
     (julian_day (tm_year t + 1900) (tm_mon t + 1) (tm_mday t) - 2440588) * 86400 +
     (tm_hour t * 3600 + tm_min t * 60 + tm_sec t)"

definition gmtime_r :: "int \<Rightarrow> tm" where "gmtime_r t = utc_calendar t True"

definition timegm :: "tm \<Rightarrow> int" where "timegm t = utc_seconds t"

definition TimeZone_toLocalTime :: "tzdata option \<Rightarrow> int \<Rightarrow> tm option" where
  "TimeZone_toLocalTime z seconds =
     do {
       data \<leftarrow> z;
       local \<leftarrow> findLocaltime data \<lparr>tr_gmttime = seconds, tr_localtime = 0, tr_localtimeIdx = 0\<rparr> True;
       let localSeconds = seconds + lt_gmtOffset local;
       assert_that (lt_arrbIdx local \<le> length (tz_abbreviation data));
       Some ((gmtime_r localSeconds)\<lparr>tm_isdst := lt_isDst local, tm_gmtoff := lt_gmtOffset local,
               tm_zone := takeWhile (\<lambda>c. c \<noteq> CHR 0x00) (drop (lt_arrbIdx local) (tz_abbreviation data))\<rparr>) }"

definition TimeZone_fromLocalTime :: "tzdata option \<Rightarrow> tm \<Rightarrow> int option" where
  "TimeZone_fromLocalTime z localTm =
     do {
       data \<leftarrow> z;
       let seconds = timegm localTm;
       local \<leftarrow> findLocaltime data \<lparr>tr_gmttime = 0, tr_localtime = seconds, tr_localtimeIdx = 0\<rparr> False;
       seconds \<leftarrow>
         (if tm_isdst localTm then
            do {
              tryTm \<leftarrow> TimeZone_toLocalTime z (seconds - lt_gmtOffset local);
              Some (if \<not> tm_isdst tryTm \<and> tm_hour tryTm = tm_hour localTm \<and> tm_min tryTm = tm_min localTm
                    then seconds - 3600 else seconds) }
          else Some seconds);
       Some (seconds - lt_gmtOffset local) }"

section \<open>The binary search\<close>

lemma lower_bound_partition:
  assumes "\<forall>i < length xs. cmp (xs ! i) v \<longleftrightarrow> i < k"
  shows "first \<le> k \<Longrightarrow> k \<le> first + len \<Longrightarrow> first + len \<le> length xs \<Longrightarrow> lower_bound cmp xs v first len = k"
proof (induction len arbitrary: first rule: less_induct)
  case (less len)
  show ?case
  proof (cases "len = 0")
    case True
    with less.prems show ?thesis by (simp add: lower_bound.simps [of cmp xs v first])
  next
    case False
    let ?half = "len div 2" and ?mid = "first + len div 2"
    have mid: "?mid < first + len" "?mid < length xs" "?half < len" using False less.prems by auto
    have "cmp (xs ! ?mid) v \<longleftrightarrow> ?mid < k" using assms mid(2) by blast
    moreover have "lower_bound cmp xs v (?mid + 1) (len - ?half - 1) = k" if "?mid < k"
      by (rule less.IH) (use that mid less.prems in auto)
    moreover have "lower_bound cmp xs v first ?half = k" if "\<not> ?mid < k"
      by (rule less.IH) (use that mid less.prems in auto)
    ultimately show ?thesis using False by (simp add: lower_bound.simps [of cmp xs v first] Let_def)
  qed
qed

lemma sorted_partition:
  assumes "sorted_wrt (\<lambda>x y. f x < (f y :: int)) ts" "i < length ts"
  shows "f (ts ! i) < s \<longleftrightarrow> i < length (filter (\<lambda>t. f t < s) ts)"
  using assms
proof (induction ts arbitrary: i)
  case (Cons t ts)
  show ?case
  proof (cases "f t < s")
    case True
    with Cons show ?thesis by (cases i) auto
  next
    case False
    then have "filter (\<lambda>t. f t < s) (t # ts) = []" using Cons.prems(1) by (force simp: filter_empty_conv)
    moreover have "\<not> f ((t # ts) ! i) < s" using False Cons.prems by (cases i) (auto simp: dest!: bspec [OF _ nth_mem])
    ultimately show ?thesis by simp
  qed
qed simp

text \<open>The time a comparison looks at, and the rule that is in force: that of the last transition not after it.\<close>

definition tr_key :: "bool \<Rightarrow> transition \<Rightarrow> int" where
  "tr_key gmt t = (if gmt then tr_gmttime t else tr_localtime t)"

definition in_force :: "tzdata \<Rightarrow> int \<Rightarrow> bool \<Rightarrow> localtime option" where
  "in_force data s gmt =
     (let past = filter (\<lambda>t. tr_key gmt t \<le> s) (tz_transitions data)
      in nth_local data (if past = [] then 0 else tr_localtimeIdx (last past)))"

lemma filter_le_less:
  assumes "sorted_wrt (\<lambda>x y. f x < (f y :: int)) ts" "k = length (filter (\<lambda>t. f t < s) ts)"
  shows "filter (\<lambda>t. f t \<le> s) ts = (if k < length ts \<and> f (ts ! k) = s then take (Suc k) ts else take k ts)"
  using assms(1) unfolding assms(2)
proof (induction ts)
  case (Cons t ts)
  show ?case
  proof (cases "f t < s")
    case True
    with Cons show ?thesis by auto
  next
    case False
    then have "filter (\<lambda>t. f t < s) (t # ts) = []" "filter (\<lambda>t. f t \<le> s) ts = []"
      using Cons.prems by (force simp: filter_empty_conv)+
    with False show ?thesis by auto
  qed
qed simp

lemma findLocaltime_in_force:
  assumes "sorted_wrt (\<lambda>x y. tr_key gmt x < tr_key gmt y) (tz_transitions data)" "tr_key gmt sentry = s"
  shows "findLocaltime data sentry gmt = in_force data s gmt"
proof -
  define ts where "ts = tz_transitions data"
  define k where "k = length (filter (\<lambda>t. tr_key gmt t < s) ts)"
  have srt: "sorted_wrt (\<lambda>x y. tr_key gmt x < tr_key gmt y) ts" using assms(1) by (simp add: ts_def)
  have less: "Comp_less gmt x y \<longleftrightarrow> tr_key gmt x < tr_key gmt y" "Comp_equal gmt x y \<longleftrightarrow> tr_key gmt x = tr_key gmt y" for x y
    by (simp_all add: Comp_less_def Comp_equal_def tr_key_def)
  have k: "k \<le> length ts" by (simp add: k_def)
  have part: "\<forall>i < length ts. Comp_less gmt (ts ! i) sentry \<longleftrightarrow> i < k"
    using sorted_partition [OF srt] assms(2) by (simp add: less k_def)
  then have lb: "lower_bound (Comp_less gmt) ts sentry 0 (length ts) = k"
    using lower_bound_partition [of ts "Comp_less gmt" sentry k 0 "length ts"] k by simp
  have le: "filter (\<lambda>t. tr_key gmt t \<le> s) ts = (if k < length ts \<and> tr_key gmt (ts ! k) = s then take (Suc k) ts else take k ts)"
    by (rule filter_le_less [OF srt k_def])
  show ?thesis
  proof (cases "ts = [] \<or> s < tr_key gmt (hd ts)")
    case True
    then have "filter (\<lambda>t. tr_key gmt t \<le> s) ts = []"
      using srt by (cases ts) (force simp: filter_empty_conv)+
    with True show ?thesis using assms(2) by (simp add: findLocaltime_def in_force_def ts_def [symmetric] less Let_def)
  next
    case False
    then have ne: "ts \<noteq> []" and hd: "tr_key gmt (ts ! 0) \<le> s" by (auto simp: hd_conv_nth)
    have "last (take k ts) = ts ! (k - 1)" "take k ts \<noteq> []" if "k \<noteq> 0"
      using that k ne by (auto simp: last_conv_nth min_def)
    moreover have "last (take (Suc k) ts) = ts ! k" "take (Suc k) ts \<noteq> []" if "k < length ts"
      using that by (auto simp: last_conv_nth min_def take_Suc_conv_app_nth)
    moreover have "tr_key gmt (ts ! 0) = s" if "k = 0"
      using part hd that ne assms(2) by (auto simp: less)
    moreover have "last ts = ts ! (length ts - 1)" using ne by (simp add: last_conv_nth)
    ultimately show ?thesis
      using False k ne assms(2)
      by (auto simp: findLocaltime_def in_force_def ts_def [symmetric] less lb le Let_def hd_conv_nth)
  qed
qed

section \<open>Calendar time\<close>

text \<open>The instants from the day with Julian day number 0 to the last day before the overflow.\<close>

definition epoch_ok :: "int \<Rightarrow> bool" where
  "epoch_ok s \<longleftrightarrow> - 2440588 * 86400 \<le> s \<and> s < 534398280 * 86400"

definition tm_ok :: "tm \<Rightarrow> bool" where
  "tm_ok t \<longleftrightarrow> 0 \<le> tm_sec t \<and> tm_sec t < 60 \<and> 0 \<le> tm_min t \<and> tm_min t < 60 \<and> 0 \<le> tm_hour t \<and> tm_hour t < 24 \<and>
     ymd_ok \<lparr>ymd_year = tm_year t + 1900, ymd_month = tm_mon t + 1, ymd_day = tm_mday t\<rparr> \<and> 0 \<le> tm_wday t \<and> tm_wday t < 7"

text \<open>C's truncating division corrected for negative remainders is the mathematical one.\<close>

lemma floor_split:
  "(if s smod 86400 < 0 then (s smod 86400 + 86400, s sdiv 86400 - 1) else (s smod 86400, s sdiv 86400)) = (s mod 86400, s div 86400 :: int)"
proof (cases "0 \<le> s")
  case True
  then show ?thesis by (cases "s = 0") (simp_all add: signed_modulo_int_def sdiv_pos)
next
  case False
  define n where "n = - s"
  have n: "0 < n" "s = - n" using False by (simp_all add: n_def)
  define q where "q = n div 86400"
  define r where "r = n mod 86400"
  have sd: "s sdiv 86400 = - q" "s smod 86400 = - r"
    using n by (simp_all add: q_def r_def signed_divide_int_def signed_modulo_int_def)
  have nn: "n = 86400 * q + r" "0 \<le> r" "r < 86400" by (simp_all add: q_def r_def)
  show ?thesis
  proof (cases "r = 0")
    case True
    then have "s = - q * 86400" using n nn(1) by simp
    then have "s div 86400 = - q" "s mod 86400 = 0" by simp_all
    with True sd show ?thesis by simp
  next
    case False
    have eq: "s = 86400 * (- q - 1) + (86400 - r)" using n(2) nn(1) by simp
    have r: "0 \<le> 86400 - r" "86400 - r < 86400" using nn False by simp_all
    have "s div 86400 = - q - 1" "s mod 86400 = 86400 - r"
      using int_div_pos_eq [OF eq r] int_mod_pos_eq [OF eq r] by simp_all
    with False sd nn show ?thesis by simp
  qed
qed

lemma utc_calendar_fields:
  fixes s
  defines "date \<equiv> s div 86400 + 2440588"
  shows "utc_calendar s yday = tm_zero\<lparr>tm_zone := ''GMT'', tm_sec := s mod 86400 mod 60, tm_min := s mod 86400 div 60 mod 60,
    tm_hour := s mod 86400 div 60 div 60, tm_year := ymd_year (calendar_date date) - 1900,
    tm_mon := ymd_month (calendar_date date) - 1, tm_mday := ymd_day (calendar_date date), tm_wday := (date + 1) smod 7,
    tm_yday := (if yday then date - julian_day (ymd_year (calendar_date date)) 1 1 else 0)\<rparr>"
  unfolding utc_calendar_def Let_def fillHMS_def date_def by (simp add: tm_zero_def)

lemma day_parts: "0 \<le> r \<Longrightarrow> r < 86400 \<Longrightarrow> r div 60 div 60 * 3600 + r div 60 mod 60 * 60 + r mod 60 = (r :: int) \<and> r div 60 div 60 < 24"
proof -
  assume r: "0 \<le> r" "r < 86400"
  define q where "q = r div 60"
  define h where "h = q div 60"
  have "r = q * 60 + r mod 60" "q = h * 60 + q mod 60" "0 \<le> r mod 60" "0 \<le> q mod 60" unfolding h_def q_def by simp_all
  moreover from this r(2) have "h < 24" by linarith
  ultimately show ?thesis unfolding q_def [symmetric] h_def [symmetric] by linarith
qed

lemma epoch_days: "epoch_ok s \<Longrightarrow> 0 \<le> s div 86400 + 2440588" "epoch_ok s \<Longrightarrow> s div 86400 + 2440588 \<le> 536838867"
proof -
  assume s: "epoch_ok s"
  define q where "q = s div 86400"
  define r where "r = s mod 86400"
  have "s = 86400 * q + r" "0 \<le> r" "r < 86400" by (simp_all add: q_def r_def)
  with s show "0 \<le> s div 86400 + 2440588" "s div 86400 + 2440588 \<le> 536838867"
    unfolding q_def [symmetric] epoch_ok_def by linarith+
qed

lemma utc_calendar_spec:
  assumes "epoch_ok s"
  shows "tm_ok (utc_calendar s yday)" "utc_seconds (utc_calendar s yday) = s"
proof -
  let ?date = "s div 86400 + 2440588" and ?r = "s mod 86400"
  have date: "0 \<le> ?date" by (rule epoch_days [OF assms])
  have ymd: "ymd_ok (calendar_date ?date)" "jdn (calendar_date ?date) = ?date"
    using calendar_date_ok [of ?date] date by (simp_all add: jdn_first_day)
  have r: "0 \<le> ?r" "?r < 86400" by simp_all
  have wd: "0 \<le> (?date + 1) smod 7" "(?date + 1) smod 7 < 7"
    using date by (simp_all add: signed_modulo_int_def)
  show "tm_ok (utc_calendar s yday)"
    unfolding utc_calendar_fields tm_ok_def using ymd(1) wd day_parts [OF r] r
    by (simp add: ymd_ok_def)
  show "utc_seconds (utc_calendar s yday) = s"
    using ymd(2) day_parts [OF r] unfolding utc_calendar_fields utc_seconds_def jdn_def by simp
qed

lemma utc_seconds_split:
  assumes "tm_ok t" "jdn \<lparr>ymd_year = tm_year t + 1900, ymd_month = tm_mon t + 1, ymd_day = tm_mday t\<rparr> = j"
  defines "r \<equiv> tm_hour t * 3600 + tm_min t * 60 + tm_sec t"
  shows "utc_seconds t div 86400 + 2440588 = j" "utc_seconds t mod 86400 = r"
    "r mod 60 = tm_sec t" "r div 60 mod 60 = tm_min t" "r div 60 div 60 = tm_hour t"
proof -
  have t: "0 \<le> tm_sec t" "tm_sec t < 60" "0 \<le> tm_min t" "tm_min t < 60" "0 \<le> tm_hour t" "tm_hour t < 24"
    using assms(1) by (simp_all add: tm_ok_def)
  then have r: "0 \<le> r" "r < 86400" by (simp_all add: r_def)
  have s: "utc_seconds t = 86400 * (j - 2440588) + r"
    using assms(2) by (simp add: utc_seconds_def jdn_def r_def)
  show "utc_seconds t div 86400 + 2440588 = j" "utc_seconds t mod 86400 = r"
    using int_div_pos_eq [OF s r] int_mod_pos_eq [OF s r] by simp_all
  have q: "r = 60 * (tm_hour t * 60 + tm_min t) + tm_sec t" by (simp add: r_def)
  show sec: "r mod 60 = tm_sec t" by (rule int_mod_pos_eq [OF q t(1,2)])
  have d: "r div 60 = 60 * tm_hour t + tm_min t" using int_div_pos_eq [OF q t(1,2)] by simp
  show "r div 60 mod 60 = tm_min t" "r div 60 div 60 = tm_hour t"
    using int_mod_pos_eq [OF d t(3,4)] int_div_pos_eq [OF d t(3,4)] by simp_all
qed

text \<open>The two conversions of the class compute the same where the day number is in the range of \<open>Date_bijection\<close>.\<close>

lemma to_int32_eq: "- 2147483648 \<le> x \<Longrightarrow> x \<le> 2147483647 \<Longrightarrow> to_int32 x = x"
  by (simp add: to_int32_def signed_of_int signed_take_bit_int_eq_self_iff)

lemma smod_range: "- 86400 < s smod (86400 :: int)" "s smod (86400 :: int) < 86400"
proof -
  have "0 \<le> n mod 86400 \<and> n mod 86400 < 86400" for n :: int by simp
  from this [of s] this [of "- s"] show "- 86400 < s smod (86400 :: int)" "s smod (86400 :: int) < 86400"
    unfolding signed_modulo_int_def by (auto simp: sgn_if)
qed

lemma julian_day_year:
  assumes "- 4799 \<le> year" "year \<le> 1469999"
  shows "Date_ymd year 1 1 = Some (julian_day year 1 1)" "- 32044 \<le> julian_day year 1 1" "julian_day year 1 1 \<le> 600000000"
proof -
  let ?t = "\<lparr>ymd_year = year, ymd_month = 1, ymd_day = 1\<rparr>"
  have ok: "ymd_ok ?t" using assms by (simp add: ymd_ok_def days_in_month_def)
  show "Date_ymd year 1 1 = Some (julian_day year 1 1)" "- 32044 \<le> julian_day year 1 1" "julian_day year 1 1 \<le> 600000000"
    using jdn_computed [OF ok] jdn_bounds [OF ok] assms(2) by (simp_all add: Date_ymd_def jdn_def)
qed

lemma toUtcTime_split:
  assumes "- 31738 \<le> s div 86400 + 2440588" "s div 86400 + 2440588 \<le> 536838867"
  defines "seconds \<equiv> to_int32 (s smod 86400)" and "days \<equiv> to_int32 (s sdiv 86400)"
  shows "(if seconds < 0 then
      do { seconds \<leftarrow> int32 (seconds + 86400); days \<leftarrow> int32 (days - 1); Some (seconds, days) }
    else Some (seconds, days)) = Some (s mod 86400, s div 86400)"
proof -
  have sec: "seconds = s smod 86400" using smod_range [of s] by (simp add: seconds_def to_int32_eq)
  have b: "s div 86400 \<le> s sdiv 86400" "s sdiv 86400 \<le> s div 86400 + 1"
    using floor_split [of s] by (auto split: if_splits)
  then have day: "days = s sdiv 86400" unfolding days_def by (intro to_int32_eq) (use assms(1,2) in linarith)+
  show ?thesis
    using floor_split [of s] smod_range [of s] assms(1,2) by (auto simp: sec day int32_def split: if_splits)
qed

lemma toUtcTime_eq:
  assumes "- 31738 \<le> s div 86400 + 2440588" "s div 86400 + 2440588 \<le> 536838867"
  shows "toUtcTime s yday = Some (utc_calendar s yday)"
proof -
  define date where "date = s div 86400 + 2440588"
  define t where "t = calendar_date date"
  have date: "- 31738 \<le> date" "date \<le> 536838867" using assms by (simp_all add: date_def)
  have t: "Date_yearMonthDay date = Some t" "ymd_year t \<le> 1469999"
    using getYearMonthDay_eq [OF date] by (simp_all add: t_def Date_yearMonthDay_def)
  have "ymd_ok t" using calendar_date_ok [of date] date by (simp add: t_def jdn_first_day)
  then have m: "- 4799 \<le> ymd_year t" "1 \<le> ymd_month t" "ymd_month t \<le> 12" by (simp_all add: ymd_ok_def)
  have k: "kSecondsPerDay = 86400" by (simp add: kSecondsPerDay_def)
  have wd: "Date_weekDay date = Some ((date + 1) smod 7)" using date by (simp add: Date_weekDay_def kDaysPerWeek_def int32_eq)
  note split = toUtcTime_split [OF assms]
  note start = julian_day_year [OF m(1) t(2)]
  have i: "int32 date = Some date" "int32 (ymd_year t - 1900) = Some (ymd_year t - 1900)" "int32 (ymd_month t - 1) = Some (ymd_month t - 1)"
      "int32 (date - julian_day (ymd_year t) 1 1) = Some (date - julian_day (ymd_year t) 1 1)"
    using date m t(2) start(2,3) by (simp_all add: int32_eq)
  show ?thesis
    unfolding toUtcTime_def utc_calendar_def Let_def k split epoch_day
    by (simp add: date_def [symmetric] t_def [symmetric] i t(1) wd start(1))
qed

lemma fromUtcTime_tm_eq:
  assumes "tm_ok t" "tm_year t + 1900 \<le> 1469999"
  shows "fromUtcTime_tm t = Some (utc_seconds t)"
proof -
  let ?d = "\<lparr>ymd_year = tm_year t + 1900, ymd_month = tm_mon t + 1, ymd_day = tm_mday t\<rparr>"
  have ok: "ymd_ok ?d" using assms(1) by (simp add: tm_ok_def)
  have date: "Date_ymd (tm_year t + 1900) (tm_mon t + 1) (tm_mday t) = Some (jdn ?d)"
    using jdn_computed [OF ok] assms(2) by (simp add: Date_ymd_def)
  have j: "- 32044 \<le> jdn ?d" "jdn ?d \<le> 600000000" using jdn_bounds [OF ok] assms(2) by simp_all
  have f: "0 \<le> tm_sec t" "tm_sec t < 60" "0 \<le> tm_min t" "tm_min t < 60" "0 \<le> tm_hour t" "tm_hour t < 24"
      "- 4799 \<le> tm_year t + 1900" "1 \<le> tm_mon t + 1" "tm_mon t + 1 \<le> 12"
    using assms(1) by (simp_all add: tm_ok_def ymd_ok_def)
  show ?thesis
    unfolding fromUtcTime_tm_def fromUtcTime_def epoch_day utc_seconds_def kSecondsPerDay_def
    using f j assms(2) date by (simp add: int32_eq jdn_def)
qed

section \<open>Fixed zones\<close>

lemma fixed_zone:
  assumes "TimeZone_fixed off name = z"
  shows "TimeZone_toLocalTime z s = Some ((gmtime_r (s + off))\<lparr>tm_isdst := False, tm_gmtoff := off,
      tm_zone := takeWhile (\<lambda>c. c \<noteq> CHR 0x00) name\<rparr>)"
    "\<not> tm_isdst t \<Longrightarrow> TimeZone_fromLocalTime z t = Some (timegm t - off)"
  using assms
  by (auto simp: TimeZone_toLocalTime_def TimeZone_fromLocalTime_def TimeZone_fixed_def findLocaltime_def nth_local_def Let_def)

section \<open>Zone files\<close>

text \<open>
  The bytes of a zone file: the magic number, the version, 15 reserved bytes, six counts, the
  transition times, the index of the rule of each, the rules, the abbreviations. What follows
  them is \<open>tail_bytes\<close>: the leap seconds and the indicators whose numbers are the first three counts \<open>cnt\<close>, and the
  second block of a file of a later version.
\<close>

definition int32_bytes :: "32 word \<Rightarrow> string" where
  "int32_bytes w = mem_bytes (hostToNetwork32 w)"

definition type_bytes :: "32 word \<times> bool \<times> nat \<Rightarrow> string" where
  "type_bytes t = (case t of (off, dst, ab) \<Rightarrow> int32_bytes off @ [char_of (if dst then 1 else 0 :: nat), char_of ab])"

definition zone_text ::
  "char \<Rightarrow> string \<Rightarrow> 32 word \<times> 32 word \<times> 32 word \<Rightarrow>
   (32 word \<times> nat) list \<Rightarrow> (32 word \<times> bool \<times> nat) list \<Rightarrow> string \<Rightarrow> string \<Rightarrow> string" where
  "zone_text version reserved cnt trs types abbrev tail_bytes =
     ''TZif'' @ [version] @ reserved @
     int32_bytes (fst cnt) @ int32_bytes (fst (snd cnt)) @ int32_bytes (snd (snd cnt)) @
     int32_bytes (of_nat (length trs)) @ int32_bytes (of_nat (length types)) @ int32_bytes (of_nat (length abbrev)) @
     concat (map (int32_bytes \<circ> fst) trs) @ map (char_of \<circ> snd) trs @ concat (map type_bytes types) @ abbrev @ tail_bytes"

definition zone_ok :: "(32 word \<times> nat) list \<Rightarrow> (32 word \<times> bool \<times> nat) list \<Rightarrow> string \<Rightarrow> bool" where
  "zone_ok trs types abbrev \<longleftrightarrow> length trs < 2 ^ 31 \<and> length types < 2 ^ 31 \<and> length abbrev < 2 ^ 31 \<and>
     (\<forall>(t, i) \<in> set trs. i < length types \<and> i < 256) \<and> (\<forall>(off, dst, ab) \<in> set types. ab < 256)"

definition zone_type :: "32 word \<times> bool \<times> nat \<Rightarrow> localtime" where
  "zone_type t = (case t of (off, dst, ab) \<Rightarrow> \<lparr>lt_gmtOffset = sint off, lt_isDst = dst, lt_arrbIdx = ab\<rparr>)"

definition zone_transition :: "(32 word \<times> bool \<times> nat) list \<Rightarrow> 32 word \<times> nat \<Rightarrow> transition" where
  "zone_transition types t =
     \<lparr>tr_gmttime = sint (fst t), tr_localtime = sint (fst t) + sint (fst (types ! snd t)), tr_localtimeIdx = snd t\<rparr>"

lemma readInt32_bytes [simp]: "File_readInt32 (int32_bytes w @ f) = Inr (sint w, f)"
  by (simp add: File_readInt32_def int32_bytes_def endian_defs byteswap_byteswap mem_word_bytes)

lemma readUInt8_bytes: "n < 256 \<Longrightarrow> File_readUInt8 (char_of n # f) = Inr (n, f)"
  by (simp add: File_readUInt8_def)

lemma readBytes_append: "length s = n \<Longrightarrow> File_readBytes n (s @ f) = Inr (s, f)"
  by (simp add: File_readBytes_def)

lemma read_n_concat:
  "(\<And>x f. x \<in> set xs \<Longrightarrow> r (enc x @ f) = Inr (dec x, f)) \<Longrightarrow>
   read_n (length xs) r (concat (map enc xs) @ f) = Inr (map dec xs, f)"
  by (induction xs) (simp_all add: tz_bind_def)

lemma read_types_concat:
  "\<forall>(off, dst, ab) \<in> set ts. ab < 256 \<Longrightarrow>
   read_types (length ts) data (concat (map type_bytes ts) @ f) =
     (data\<lparr>tz_localtimes := tz_localtimes data @ map zone_type ts\<rparr>, Inr f)"
proof (induction ts arbitrary: data)
  case (Cons t ts)
  obtain off dst ab where t: "t = (off, dst, ab)" by (cases t)
  have "read_type (type_bytes t @ g) = Inr (zone_type t, g)" for g
    using Cons.prems t
    by (simp add: read_type_def type_bytes_def zone_type_def tz_bind_def readUInt8_bytes)
  with Cons show ?case by simp
qed simp

lemma push_transitions_map:
  "tz_localtimes data = map zone_type types \<Longrightarrow> \<forall>(t, i) \<in> set ts. i < length types \<Longrightarrow>
   push_transitions (map (\<lambda>t. (sint (fst t), snd t)) ts) data =
     Some (data\<lparr>tz_transitions := tz_transitions data @ map (zone_transition types) ts\<rparr>)"
proof (induction ts arbitrary: data)
  case (Cons t ts)
  then show ?case
    by (cases t; cases "types ! snd t") (auto simp: zone_transition_def zone_type_def)
qed simp

lemma sint_small: "n < 2 ^ 31 \<Longrightarrow> sint (of_nat n :: 32 word) = int n"
  by (simp add: signed_take_bit_int_eq_self_iff signed_of_nat)

lemma read_head_text:
  assumes "zone_ok trs types abbrev" "length reserved = 15"
  shows "read_head (zone_text version reserved cnt trs types abbrev tail_bytes) =
    Inr (\<lparr>th_timecnt = int (length trs), th_typecnt = int (length types), th_charcnt = int (length abbrev),
          th_trans = map (sint \<circ> fst) trs, th_localtimes = map snd trs\<rparr>, concat (map type_bytes types) @ abbrev @ tail_bytes)"
proof -
  have len: "length trs < 2 ^ 31" "length types < 2 ^ 31" "length abbrev < 2 ^ 31" using assms by (simp_all add: zone_ok_def)
  have idx: "\<And>x. x \<in> set trs \<Longrightarrow> snd x < 256" using assms by (auto simp: zone_ok_def)
  have t: "read_n (length trs) File_readInt32 (concat (map (int32_bytes \<circ> fst) trs) @ f) = Inr (map (sint \<circ> fst) trs, f)" for f
    using read_n_concat [of trs File_readInt32 "int32_bytes \<circ> fst" "sint \<circ> fst" f] by simp
  have "map (char_of \<circ> snd) trs = concat (map (\<lambda>x. [char_of (snd x)]) trs)" by (induction trs) auto
  then have i: "read_n (length trs) File_readUInt8 (map (char_of \<circ> snd) trs @ f) = Inr (map snd trs, f)" for f
    using read_n_concat [of trs File_readUInt8 "\<lambda>x. [char_of (snd x)]" snd f] idx by (simp add: readUInt8_bytes comp_def)
  have head: "File_readBytes 4 (''TZif'' @ f) = Inr (''TZif'', f)" "File_readBytes 1 ([version] @ f) = Inr ([version], f)"
      "File_readBytes 15 (reserved @ f) = Inr (reserved, f)" for f
    by (rule readBytes_append; simp add: assms(2))+
  show ?thesis
    unfolding read_head_def zone_text_def
    by (simp only: tz_bind_def head readInt32_bytes sum.case prod.case simp_thms if_False t i nat_int of_nat_less_0_iff
        sint_small [OF len(1)] sint_small [OF len(2)] sint_small [OF len(3)])
qed

lemma readTimeZoneFile_text:
  assumes "zone_ok trs types abbrev" "length reserved = 15"
  shows "readTimeZoneFile (Some (zone_text version reserved cnt trs types abbrev tail_bytes)) tzdata_empty =
    Some (True, \<lparr>tz_transitions = map (zone_transition types) trs, tz_localtimes = map zone_type types, tz_abbreviation = abbrev\<rparr>)"
proof -
  have ab: "\<forall>(off, dst, ab) \<in> set types. ab < 256" and idx: "\<forall>(t, i) \<in> set trs. i < length types"
    using assms by (auto simp: zone_ok_def)
  have z: "zip (map (sint \<circ> fst) trs) (map snd trs) = map (\<lambda>t. (sint (fst t), snd t)) trs" by (induction trs) auto
  have "File_readBytes (length abbrev) (abbrev @ tail_bytes) = Inr (abbrev, tail_bytes)" by (simp add: readBytes_append)
  then show ?thesis
    using read_types_concat [OF ab, of tzdata_empty "abbrev @ tail_bytes"] push_transitions_map [OF _ idx, of "tzdata_empty\<lparr>tz_localtimes := map zone_type types\<rparr>"]
    by (simp add: readTimeZoneFile_def read_head_text [OF assms] z tzdata_empty_def)
qed

section \<open>Properties\<close>

text \<open>
  C13. \<^verbatim>\<open>toUtcTime\<close> and \<^verbatim>\<open>fromUtcTime\<close> are inverse to each other, also before 1970: seconds from the day with
  Julian day number 0 (in 4714 BC) up to the year 1465102 are turned, without overflow, into calendar
  time with fields in their ranges, which turns back into the same seconds; and calendar time with
  fields in their ranges, from the year -4799 to the year 1465000, is recovered field by field.
\<close>

theorem TimeZone_utc_roundtrip:
  "(epoch_ok s \<longrightarrow> (\<exists>u. toUtcTime s yday = Some u \<and> tm_ok u \<and> fromUtcTime_tm u = Some s)) \<and>
   (tm_ok t \<and> tm_year t + 1900 \<le> 1465000 \<longrightarrow>
     (\<exists>s u. fromUtcTime_tm t = Some s \<and> toUtcTime s yday = Some u \<and>
         tm_sec u = tm_sec t \<and> tm_min u = tm_min t \<and> tm_hour u = tm_hour t \<and>
         tm_mday u = tm_mday t \<and> tm_mon u = tm_mon t \<and> tm_year u = tm_year t))"
proof (intro conjI impI)
  assume s: "epoch_ok s"
  note d = epoch_days [OF this]
  have "tm_year (utc_calendar s yday) + 1900 \<le> 1469999"
    using getYearMonthDay_eq(2) [of "s div 86400 + 2440588"] d by (simp add: utc_calendar_fields)
  then show "\<exists>u. toUtcTime s yday = Some u \<and> tm_ok u \<and> fromUtcTime_tm u = Some s"
    using toUtcTime_eq [of s yday] d fromUtcTime_tm_eq utc_calendar_spec [OF s] by simp
next
  assume t: "tm_ok t \<and> tm_year t + 1900 \<le> 1465000"
  let ?d = "\<lparr>ymd_year = tm_year t + 1900, ymd_month = tm_mon t + 1, ymd_day = tm_mday t\<rparr>"
  have d: "ymd_ok ?d" "ymd_year ?d \<le> 1465000" using t by (simp_all add: tm_ok_def)
  have day: "calendar_date (jdn ?d) = ?d" by (rule calendar_date_jdn [OF d(1)])
  have "tm_ok t" using t by simp
  note split = utc_seconds_split [OF this refl]
  have "toUtcTime (utc_seconds t) yday = Some (utc_calendar (utc_seconds t) yday)"
    using jdn_range [OF d] by (intro toUtcTime_eq) (simp_all only: split)
  moreover have "fromUtcTime_tm t = Some (utc_seconds t)" using t by (intro fromUtcTime_tm_eq) simp_all
  moreover have "let u = utc_calendar (utc_seconds t) yday in tm_sec u = tm_sec t \<and> tm_min u = tm_min t \<and> tm_hour u = tm_hour t \<and>
      tm_mday u = tm_mday t \<and> tm_mon u = tm_mon t \<and> tm_year u = tm_year t"
    unfolding utc_calendar_fields Let_def split day by simp
  ultimately show "\<exists>s u. fromUtcTime_tm t = Some s \<and> toUtcTime s yday = Some u \<and>
         tm_sec u = tm_sec t \<and> tm_min u = tm_min t \<and> tm_hour u = tm_hour t \<and>
         tm_mday u = tm_mday t \<and> tm_mon u = tm_mon t \<and> tm_year u = tm_year t"
    unfolding Let_def by blast
qed

theorem TimeZone_utc_roundtrip_witness:
  "(\<exists>u. toUtcTime (- 1) True = Some u \<and> tm_ok u \<and> fromUtcTime_tm u = Some (- 1)) \<and>
   (\<exists>s u. fromUtcTime_tm (tm_zero\<lparr>tm_mday := 29, tm_mon := 1, tm_year := 100, tm_hour := 23, tm_sec := 59\<rparr>) = Some s \<and>
      toUtcTime s True = Some u \<and> tm_sec u = 59 \<and> tm_mday u = 29)"
proof -
  let ?t = "tm_zero\<lparr>tm_mday := 29, tm_mon := 1, tm_year := 100, tm_hour := 23, tm_sec := 59\<rparr>"
  have t: "tm_ok ?t \<and> tm_year ?t + 1900 \<le> 1465000" "tm_sec ?t = 59" "tm_mday ?t = 29"
    by (simp_all add: tm_ok_def tm_zero_def ymd_ok_def days_in_month_def leap_year_def)
  have "epoch_ok (- 1)" by (simp add: epoch_ok_def)
  with t TimeZone_utc_roundtrip [of "- 1" True ?t] show ?thesis by metis
qed

text \<open>
  C11. The binary search over the transitions finds the rule in force: that of the last transition at
  or before the given time, and the first rule of the file before every transition.
\<close>

theorem findLocaltime_correct:
  assumes "sorted_wrt (\<lambda>x y. tr_key gmt x < tr_key gmt y) (tz_transitions data)"
  shows "findLocaltime data sentry gmt = in_force data (tr_key gmt sentry) gmt"
  by (rule findLocaltime_in_force [OF assms refl])

definition example_zone :: tzdata where
  "example_zone = \<lparr>tz_transitions = [\<lparr>tr_gmttime = 100, tr_localtime = 3700, tr_localtimeIdx = 1\<rparr>,
       \<lparr>tr_gmttime = 200, tr_localtime = 200, tr_localtimeIdx = 0\<rparr>],
     tz_localtimes = [\<lparr>lt_gmtOffset = 0, lt_isDst = False, lt_arrbIdx = 0\<rparr>, \<lparr>lt_gmtOffset = 3600, lt_isDst = True, lt_arrbIdx = 0\<rparr>],
     tz_abbreviation = ''A''\<rparr>"

theorem findLocaltime_correct_witness:
  "findLocaltime example_zone \<lparr>tr_gmttime = 150, tr_localtime = 0, tr_localtimeIdx = 0\<rparr> True =
     Some \<lparr>lt_gmtOffset = 3600, lt_isDst = True, lt_arrbIdx = 0\<rparr>"
  using findLocaltime_correct [of True example_zone "\<lparr>tr_gmttime = 150, tr_localtime = 0, tr_localtimeIdx = 0\<rparr>"]
  by (simp add: example_zone_def tr_key_def in_force_def nth_local_def)

text \<open>
  C14. A well-formed zone file is read back: the reader returns the transitions with their UTC and
  local times, the rules and the abbreviations of the first block of the file. This holds for any
  version byte, any reserved bytes, any number of leap seconds and of indicators, and whatever
  follows the abbreviations; all of that is ignored.
\<close>

theorem TimeZone_file_roundtrip:
  assumes "zone_ok trs types abbrev" "length reserved = 15"
  shows "TimeZone_file (Some (zone_text version reserved cnt trs types abbrev tail_bytes)) =
    Some (Some \<lparr>tz_transitions = map (zone_transition types) trs, tz_localtimes = map zone_type types, tz_abbreviation = abbrev\<rparr>)"
  by (simp add: TimeZone_file_def readTimeZoneFile_text [OF assms])

theorem TimeZone_file_roundtrip_witness:
  "TimeZone_file (Some (zone_text CHR ''2'' (replicate 15 (CHR 0x00)) (2, 2, 27)
       [(100, 1)] [(0, False, 0), (3600, True, 0)] ''A'' ''the rest'')) =
     Some (Some \<lparr>tz_transitions = [\<lparr>tr_gmttime = 100, tr_localtime = 3700, tr_localtimeIdx = 1\<rparr>],
       tz_localtimes = [\<lparr>lt_gmtOffset = 0, lt_isDst = False, lt_arrbIdx = 0\<rparr>, \<lparr>lt_gmtOffset = 3600, lt_isDst = True, lt_arrbIdx = 0\<rparr>],
       tz_abbreviation = ''A''\<rparr>)"
  using TimeZone_file_roundtrip [of "[(100, 1)]" "[(0, False, 0), (3600, True, 0)]" "''A''" "replicate 15 (CHR 0x00)"]
  by (simp add: zone_ok_def zone_transition_def zone_type_def)

text \<open>
  C23. A zone file that cannot be opened or does not begin with the magic number still gives a zone
  that calls itself valid; converting any time with it reads the front of an empty vector.
\<close>

theorem TimeZone_unreadable_is_valid:
  assumes "f = None \<or> (\<exists>s. f = Some s \<and> take 4 s \<noteq> ''TZif'')"
  shows "\<exists>z. TimeZone_file f = Some z \<and> TimeZone_valid z \<and> TimeZone_toLocalTime z seconds = None"
proof -
  have "TimeZone_file f = Some (Some tzdata_empty)"
    using assms by (auto simp: TimeZone_file_def readTimeZoneFile_def read_head_def tz_bind_def File_readBytes_def Let_def)
  then show ?thesis
    by (simp add: TimeZone_valid_def TimeZone_toLocalTime_def findLocaltime_def tzdata_empty_def nth_local_def)
qed

theorem TimeZone_unreadable_is_valid_witness:
  "\<exists>z. TimeZone_file (Some ''no zone'') = Some z \<and> TimeZone_valid z \<and> TimeZone_toLocalTime z 0 = None"
  using TimeZone_unreadable_is_valid [of "Some ''no zone''" 0] by simp

text \<open>
  In a zone with a fixed offset, local time is UTC of the shifted time, marked with the offset
  and the name of the zone, and converting it back gives the same time.
\<close>

lemma TimeZone_fixed_roundtrip:
  assumes "epoch_ok (s + off)"
  shows "\<exists>t. TimeZone_toLocalTime (TimeZone_fixed off name) s = Some t \<and> tm_gmtoff t = off \<and> tm_hour t = tm_hour (gmtime_r (s + off)) \<and>
    TimeZone_fromLocalTime (TimeZone_fixed off name) t = Some s"
proof -
  let ?t = "(gmtime_r (s + off))\<lparr>tm_isdst := False, tm_gmtoff := off, tm_zone := takeWhile (\<lambda>c. c \<noteq> CHR 0x00) name\<rparr>"
  have "timegm ?t = s + off"
    using utc_calendar_spec(2) [OF assms, of True] by (simp add: timegm_def gmtime_r_def utc_seconds_def)
  then show ?thesis
    using fixed_zone(1) [of off name _ s] fixed_zone(2) [of off name _ ?t] by (simp add: gmtime_r_def)
qed

lemma TimeZone_fixed_roundtrip_witness:
  "\<exists>t. TimeZone_toLocalTime (TimeZone_fixed 28800 ''CST'') 0 = Some t \<and> TimeZone_fromLocalTime (TimeZone_fixed 28800 ''CST'') t = Some 0"
  using TimeZone_fixed_roundtrip [of 0 28800 "''CST''"] by (auto simp: epoch_ok_def)

end
