(* ===== verification/Units.thy ===== *)
theory Units
  imports Double
begin

text \<open>
  \<^verbatim>\<open>formatSI\<close> and \<^verbatim>\<open>formatIEC\<close> of \<^verbatim>\<open>muduo/base/LogStream.cc\<close>, with every conversion, product and quotient
  rounded by \<open>to_double\<close>, whose range \<open>{0} \<union> [1/2, 2^64)\<close> holds every value computed here. \<open>printf_f\<close>
  prints as \<^verbatim>\<open>%.<d>f\<close> does, rounding the exact value to nearest with ties to even.
\<close>

definition printf_f :: "nat \<Rightarrow> rat \<Rightarrow> string" where
  "printf_f d x =
     (let r = nat (round_even (x * 10 ^ d))
      in show_nat (r div 10 ^ d) @
         (if d = 0 then [] else CHR ''.'' # pad_left d CHR ''0'' (show_nat (r mod 10 ^ d))))"

section \<open>Formatting\<close>

definition formatSI :: "int \<Rightarrow> string" where
  "formatSI s =
     (let n = to_double (of_int s)
      in if s < 1000 then show_int s
         else if s < 9995 then printf_f 2 (to_double (n / 10 ^ 3)) @ ''k''
         else if s < 99950 then printf_f 1 (to_double (n / 10 ^ 3)) @ ''k''
         else if s < 999500 then printf_f 0 (to_double (n / 10 ^ 3)) @ ''k''
         else if s < 9995000 then printf_f 2 (to_double (n / 10 ^ 6)) @ ''M''
         else if s < 99950000 then printf_f 1 (to_double (n / 10 ^ 6)) @ ''M''
         else if s < 999500000 then printf_f 0 (to_double (n / 10 ^ 6)) @ ''M''
         else if s < 9995000000 then printf_f 2 (to_double (n / 10 ^ 9)) @ ''G''
         else if s < 99950000000 then printf_f 1 (to_double (n / 10 ^ 9)) @ ''G''
         else if s < 999500000000 then printf_f 0 (to_double (n / 10 ^ 9)) @ ''G''
         else if s < 9995000000000 then printf_f 2 (to_double (n / 10 ^ 12)) @ ''T''
         else if s < 99950000000000 then printf_f 1 (to_double (n / 10 ^ 12)) @ ''T''
         else if s < 999500000000000 then printf_f 0 (to_double (n / 10 ^ 12)) @ ''T''
         else if s < 9995000000000000 then printf_f 2 (to_double (n / 10 ^ 15)) @ ''P''
         else if s < 99950000000000000 then printf_f 1 (to_double (n / 10 ^ 15)) @ ''P''
         else if s < 999500000000000000 then printf_f 0 (to_double (n / 10 ^ 15)) @ ''P''
         else printf_f 2 (to_double (n / 10 ^ 18)) @ ''E'')"

definition formatIEC :: "int \<Rightarrow> string" where
  "formatIEC s =
     (let n = to_double (of_int s);
          Ki = 1024;
          Mi = to_double (Ki * 1024);
          Gi = to_double (Mi * 1024);
          Ti = to_double (Gi * 1024);
          Pi = to_double (Ti * 1024);
          Ei = to_double (Pi * 1024);
          k9 = to_double (9995 / 1000);
          k99 = to_double (9995 / 100);
          k1023 = to_double (10235 / 10)
      in if n < Ki then show_int s
         else if n < to_double (Ki * k9) then printf_f 2 (to_double (n / Ki)) @ ''Ki''
         else if n < to_double (Ki * k99) then printf_f 1 (to_double (n / Ki)) @ ''Ki''
         else if n < to_double (Ki * k1023) then printf_f 0 (to_double (n / Ki)) @ ''Ki''
         else if n < to_double (Mi * k9) then printf_f 2 (to_double (n / Mi)) @ ''Mi''
         else if n < to_double (Mi * k99) then printf_f 1 (to_double (n / Mi)) @ ''Mi''
         else if n < to_double (Mi * k1023) then printf_f 0 (to_double (n / Mi)) @ ''Mi''
         else if n < to_double (Gi * k9) then printf_f 2 (to_double (n / Gi)) @ ''Gi''
         else if n < to_double (Gi * k99) then printf_f 1 (to_double (n / Gi)) @ ''Gi''
         else if n < to_double (Gi * k1023) then printf_f 0 (to_double (n / Gi)) @ ''Gi''
         else if n < to_double (Ti * k9) then printf_f 2 (to_double (n / Ti)) @ ''Ti''
         else if n < to_double (Ti * k99) then printf_f 1 (to_double (n / Ti)) @ ''Ti''
         else if n < to_double (Ti * k1023) then printf_f 0 (to_double (n / Ti)) @ ''Ti''
         else if n < to_double (Pi * k9) then printf_f 2 (to_double (n / Pi)) @ ''Pi''
         else if n < to_double (Pi * k99) then printf_f 1 (to_double (n / Pi)) @ ''Pi''
         else if n < to_double (Pi * k1023) then printf_f 0 (to_double (n / Pi)) @ ''Pi''
         else if n < to_double (Ei * k9) then printf_f 2 (to_double (n / Ei)) @ ''Ei''
         else printf_f 1 (to_double (n / Ei)) @ ''Ei'')"

section \<open>The length of the output\<close>

lemma length_printf_f:
  assumes "round_even (x * 10 ^ d) < 10 ^ (d + k)" "0 < k"
  shows "length (printf_f d x) \<le> k + (if d = 0 then 0 else d + 1)"
proof -
  let ?r = "nat (round_even (x * 10 ^ d))"
  have "?r < 10 ^ (d + k)" using assms(1) by (simp add: nat_less_iff)
  then have "?r div 10 ^ d < 10 ^ k" by (simp add: less_mult_imp_div_less power_add mult.commute)
  then have "length (show_nat (?r div 10 ^ d)) \<le> k" using assms(2) by (rule length_show_nat)
  moreover have "length (show_nat (?r mod 10 ^ d)) \<le> d" if "d \<noteq> 0"
    using that by (intro length_show_nat) simp_all
  ultimately show ?thesis by (cases "d = 0") (auto simp: printf_f_def Let_def pad_left_def)
qed

text \<open>The three precisions: below 9.995, 99.95 and 999.5 the number takes four, four and three characters.\<close>

lemma length_printf_f_2: "x < 9995 / 1000 \<Longrightarrow> length (printf_f 2 x) \<le> 4"
  using length_printf_f [of x 2 1] round_even_less [of "x * 10 ^ 2" 1000] by simp

lemma length_printf_f_1: "x < 9995 / 100 \<Longrightarrow> length (printf_f 1 x) \<le> 4"
  using length_printf_f [of x 1 2] round_even_less [of "x * 10 ^ 1" 1000] by simp

lemma length_printf_f_0: "x < 19995 / 2 \<Longrightarrow> length (printf_f 0 x) \<le> 4"
  using length_printf_f [of x 0 4] round_even_less [of "x * 10 ^ 0" 10000] by simp

lemma length_printf_f_00: "x < 9995 / 10 \<Longrightarrow> length (printf_f 0 x) \<le> 3"
  using length_printf_f [of x 0 3] round_even_less [of "x * 10 ^ 0" 1000] by simp

lemmas length_printf_fs = length_printf_f_2 length_printf_f_1 length_printf_f_0

text \<open>Below \<open>2^53\<close> the integer is exact and the error of the division is too small to reach the threshold.\<close>

lemma SI_small:
  assumes "s < S" "S \<le> 2 ^ 53" "0 < D" "of_int D \<le> 2 * (of_int s :: rat)"
  shows "to_double (to_double (of_int s) / of_int D) < of_int S / of_int D"
proof -
  have s: "0 < s" using assms(3,4)
    by (metis mult_pos_pos not_le of_int_0_less_iff order_less_le_trans zero_less_mult_pos zero_less_numeral)
  then have n: "to_double (of_int s) = of_int s" using assms by (intro to_double_of_int) auto
  define y :: rat where "y = of_int s / of_int D"
  have S: "(of_int s :: rat) \<le> of_int S - 1" "(of_int S :: rat) \<le> 2 ^ 53" "(0 :: rat) < of_int D"
    using assms(1-3) by (linarith, metis of_int_le_iff of_int_numeral of_int_power, simp)
  have "y \<le> of_int s" unfolding y_def using s assms(3)
    by (simp add: divide_le_eq mult_le_cancel_left1)
  then have y: "1 / 2 \<le> y" "y < 2 ^ 64"
    using S assms(4) by (simp_all add: y_def field_simps)
  have "of_int s * (1 + 1 / 2 ^ 53) \<le> (of_int S - 1) * (1 + 1 / 2 ^ 53 :: rat)"
    using S(1) by (intro mult_right_mono) simp_all
  also have "\<dots> < of_int S" using S(2) by (simp add: field_simps)
  finally have "y * (1 + 1 / 2 ^ 53) < of_int S / of_int D"
    unfolding y_def using S(3) by (simp add: field_simps)
  with to_double_error [OF y] n show ?thesis by (simp add: y_def)
qed

lemma round_even_eq:
  assumes "\<bar>x - of_int m\<bar> < 1 / 2 \<or> even m \<and> \<bar>x - of_int m\<bar> = 1 / 2"
  shows "round_even x = m"
proof (cases "of_int m \<le> x")
  case True
  with assms have "\<lfloor>x\<rfloor> = m" by (auto simp: floor_eq_iff abs_if split: if_splits)
  with assms True show ?thesis by (auto simp: round_even_def)
next
  case False
  with assms have "\<lfloor>x\<rfloor> = m - 1" by (auto simp: floor_eq_iff abs_if split: if_splits)
  with assms False show ?thesis by (auto simp: round_even_def Let_def abs_if)
qed

lemma to_double_eval:
  assumes "x < 2 ^ e" "2 ^ (e - 1) \<le> x" "e \<le> 64" "y = x / (2 ^ e / 2 ^ 53)"
    "\<bar>y - of_int m\<bar> < 1 / 2 \<or> even m \<and> \<bar>y - of_int m\<bar> = 1 / 2"
  shows "to_double x = of_int m * (2 ^ e / 2 ^ 53)"
proof -
  have "ulp x = 2 ^ e / 2 ^ 53" using assms(1-3) by (intro ulp_eq) auto
  with round_even_eq [OF assms(5)] assms(4) show ?thesis by (simp only: to_double_ulp)
qed

lemma double_P1: "to_double (9994999999999999) = 9995000000000000"
  using to_double_eval [of "9994999999999999" 54 _ 4997500000000000, OF _ _ _ refl] by (simp add: abs_if)

lemma double_P2: "to_double (99949999999999991) = 99949999999999984"
  using to_double_eval [of "99949999999999991" 57 _ 6246874999999999, OF _ _ _ refl] by (simp add: abs_if)

lemma double_P2_low: "to_double (99949999999999992) = 99950000000000000"
  using to_double_eval [of "99949999999999992" 57 _ 6246875000000000, OF _ _ _ refl] by (simp add: abs_if)

lemma double_P2_high: "to_double (99949999999999999) = 99950000000000000"
  using to_double_eval [of "99949999999999999" 57 _ 6246875000000000, OF _ _ _ refl] by (simp add: abs_if)

lemma double_P3: "to_double (999499999999999999) = 999500000000000000"
  using to_double_eval [of "999499999999999999" 60 _ 7808593750000000, OF _ _ _ refl] by (simp add: abs_if)

lemma double_E: "to_double (9223372036854775807) = 9223372036854775808"
  using to_double_eval [of "9223372036854775807" 63 _ 9007199254740992, OF _ _ _ refl] by (simp add: abs_if)

lemma double_9_995: "to_double (1999 / 200) = 5626684784446013 / 562949953421312"
  using to_double_eval [of "1999 / 200" 4 _ 5626684784446013, OF _ _ _ refl] by (simp add: abs_if)

lemma double_99_95: "to_double (1999 / 20) = 7033355980557517 / 70368744177664"
  using to_double_eval [of "1999 / 20" 7 _ 7033355980557517, OF _ _ _ refl] by (simp add: abs_if)

lemma double_999_5: "to_double (1999 / 2) = 1999 / 2"
  using to_double_eval [of "1999 / 2" 10 _ 8791694975696896, OF _ _ _ refl] by (simp add: abs_if)

lemma SI_small_length:
  assumes "s < S" "S \<le> 2 ^ 53" "10 ^ k \<le> 2 * s" "0 \<le> s"
  shows "S = 9995 * 10 ^ k div 1000 \<Longrightarrow> 10 ^ k mod 1000 = (0 :: int) \<Longrightarrow>
      length (printf_f 2 (to_double (to_double (of_int s) / 10 ^ k))) \<le> 4"
    and "S = 9995 * 10 ^ k div 100 \<Longrightarrow> 10 ^ k mod 100 = (0 :: int) \<Longrightarrow>
      length (printf_f 1 (to_double (to_double (of_int s) / 10 ^ k))) \<le> 4"
    and "S = 9995 * 10 ^ k div 10 \<Longrightarrow> 10 ^ k mod 10 = (0 :: int) \<Longrightarrow>
      length (printf_f 0 (to_double (to_double (of_int s) / 10 ^ k))) \<le> 4"
proof -
  let ?q = "to_double (to_double (of_int s) / 10 ^ k)"
  have D: "of_int (10 ^ k) \<le> 2 * (of_int s :: rat)"
    using assms(3) by (metis of_int_le_iff of_int_mult of_int_numeral)
  have "?q < of_int S / of_int (10 ^ k)" using SI_small [OF assms(1,2) _ D] by simp
  moreover have "(of_int S :: rat) / of_int (10 ^ k) = 9995 / of_int c"
    if "S = 9995 * 10 ^ k div c" "10 ^ k mod c = 0" "0 < c" for c
  proof -
    from that(2) obtain j where "10 ^ k = c * j" by auto
    with that(1,3) have S: "S = 9995 * j" "(of_int (10 ^ k) :: rat) = of_int c * of_int j" "j \<noteq> 0"
      by (auto simp: algebra_simps)
    then show ?thesis using that(3) unfolding S by simp
  qed
  ultimately have q: "?q < 9995 / of_int c"
    if "S = 9995 * 10 ^ k div c" "10 ^ k mod c = 0" "0 < c" for c using that by metis
  show "S = 9995 * 10 ^ k div 1000 \<Longrightarrow> 10 ^ k mod 1000 = (0 :: int) \<Longrightarrow> length (printf_f 2 ?q) \<le> 4"
    using q [of 1000] by (simp add: length_printf_f_2)
  show "S = 9995 * 10 ^ k div 100 \<Longrightarrow> 10 ^ k mod 100 = (0 :: int) \<Longrightarrow> length (printf_f 1 ?q) \<le> 4"
    using q [of 100] by (intro length_printf_f_1) simp
  show "S = 9995 * 10 ^ k div 10 \<Longrightarrow> 10 ^ k mod 10 = (0 :: int) \<Longrightarrow> length (printf_f 0 ?q) \<le> 4"
    using q [of 10] by (simp add: length_printf_f_0)
qed

lemma double_quotient_le:
  assumes "s \<le> t" "t < 2 ^ 63" "0 < D" "to_double (of_int t) = n" "n / D < 2 ^ 64"
  shows "to_double (to_double (of_int s) / D) \<le> to_double (n / D)"
proof -
  have "(of_int t :: rat) < 2 ^ 63" using assms(2) by (metis of_int_less_iff of_int_numeral of_int_power)
  then have "to_double (of_int s) \<le> n" using assms(1) unfolding assms(4) [symmetric]
    by (intro to_double_mono) simp_all
  then have "to_double (of_int s) / D \<le> n / D" using assms(3) by (simp add: divide_right_mono)
  then show ?thesis using assms(5) by (rule to_double_mono)
qed

lemma SI_P1: "s < 9995000000000000 \<Longrightarrow> length (printf_f 2 (to_double (to_double (of_int s) / 10 ^ 15))) \<le> 4"
  using double_quotient_le [of s 9994999999999999 "10 ^ 15" 9995000000000000]
  by (intro length_printf_f_2) (simp add: double_P1 double_9_995)

lemma SI_P2: "s \<le> 99949999999999991 \<Longrightarrow> length (printf_f 1 (to_double (to_double (of_int s) / 10 ^ 15))) \<le> 4"
  using double_quotient_le [of s 99949999999999991 "10 ^ 15" 99949999999999984]
    to_double_error [of "99949999999999984 / 10 ^ 15"]
  by (intro length_printf_f_1) (simp add: double_P2)

lemma SI_P3: "s < 999500000000000000 \<Longrightarrow> length (printf_f 0 (to_double (to_double (of_int s) / 10 ^ 15))) \<le> 4"
  using double_quotient_le [of s 999499999999999999 "10 ^ 15" 999500000000000000]
  by (intro length_printf_f_0) (simp add: double_P3 double_999_5)

lemma SI_E: "s < 2 ^ 63 \<Longrightarrow> length (printf_f 2 (to_double (to_double (of_int s) / 10 ^ 18))) \<le> 4"
  using double_quotient_le [of s 9223372036854775807 "10 ^ 18" 9223372036854775808]
    to_double_error [of "9223372036854775808 / 10 ^ 18"]
  by (intro length_printf_f_2) (simp add: double_E)

lemma show_100: "show_nat 100 = ''100''" "show_nat 0 = ''0''"
  by code_simp+

lemma SI_P2_wide:
  assumes "99949999999999992 \<le> s" "s \<le> 99949999999999999"
  shows "printf_f 1 (to_double (to_double (of_int s) / 10 ^ 15)) = ''100.0''"
proof -
  have "(99949999999999992 :: rat) \<le> of_int s" "(of_int s :: rat) \<le> 99949999999999999"
    using assms by (metis of_int_le_iff of_int_numeral)+
  then have "to_double (of_int s) = 99950000000000000"
    using to_double_mono [of 99949999999999992 "of_int s"] to_double_mono [of "of_int s" 99949999999999999]
    by (simp add: double_P2_low double_P2_high)
  moreover have "round_even (7033355980557517 / 70368744177664 * 10) = 1000"
    by (rule round_even_eq) (simp add: abs_if)
  ultimately show ?thesis
    by (simp add: double_99_95 printf_f_def pad_left_def show_100)
qed

lemma formatSI_small: "0 \<le> s \<Longrightarrow> s < 1000 \<Longrightarrow> length (show_int s) \<le> 3"
  using length_show_nat [of "nat s" 3] by (simp add: show_int_def nat_less_iff)

lemma length_if:
  "(c \<Longrightarrow> length a \<le> n) \<Longrightarrow> (\<not> c \<Longrightarrow> length b \<le> n) \<Longrightarrow> length (if c then a else b) \<le> n"
  by simp

lemma formatSI_length_le:
  assumes "0 \<le> s" "s < 2 ^ 63" "s < 99949999999999992 \<or> 99949999999999999 < s"
  shows "length (formatSI s) \<le> 5"
  unfolding formatSI_def Let_def using assms(1,2)
  apply (intro length_if)
  subgoal using formatSI_small [of s] by simp
  subgoal using SI_small_length(1) [of s "9995 * 10 ^ 0" 3] by simp
  subgoal using SI_small_length(2) [of s "9995 * 10 ^ 1" 3] by simp
  subgoal using SI_small_length(3) [of s "9995 * 10 ^ 2" 3] by simp
  subgoal using SI_small_length(1) [of s "9995 * 10 ^ 3" 6] by simp
  subgoal using SI_small_length(2) [of s "9995 * 10 ^ 4" 6] by simp
  subgoal using SI_small_length(3) [of s "9995 * 10 ^ 5" 6] by simp
  subgoal using SI_small_length(1) [of s "9995 * 10 ^ 6" 9] by simp
  subgoal using SI_small_length(2) [of s "9995 * 10 ^ 7" 9] by simp
  subgoal using SI_small_length(3) [of s "9995 * 10 ^ 8" 9] by simp
  subgoal using SI_small_length(1) [of s "9995 * 10 ^ 9" 12] by simp
  subgoal using SI_small_length(2) [of s "9995 * 10 ^ 10" 12] by simp
  subgoal using SI_small_length(3) [of s "9995 * 10 ^ 11" 12] by simp
  subgoal using SI_P1 [of s] by simp
  subgoal using SI_P2 [of s] assms(3) by simp
  subgoal using SI_P3 [of s] by simp
  subgoal using SI_E [of s] by simp
  done

text \<open>
  C25. The text of a quantity in SI units is longer than the documented five characters exactly for
  the eight quantities from 99949999999999992 to 99949999999999999: their conversion to
  \<^verbatim>\<open>double\<close> rounds up to the threshold that the integer comparison has just excluded, and they print
  as \<^verbatim>\<open>100.0P\<close>.
\<close>

theorem formatSI_length:
  assumes "0 \<le> s" "s < 2 ^ 63"
  shows "5 < length (formatSI s) \<longleftrightarrow> 99949999999999992 \<le> s \<and> s \<le> 99949999999999999"
proof (cases "99949999999999992 \<le> s \<and> s \<le> 99949999999999999")
  case True
  then have "formatSI s = ''100.0P''" using SI_P2_wide [of s] by (simp add: formatSI_def Let_def)
  with True show ?thesis by simp
next
  case False
  with formatSI_length_le [OF assms] show ?thesis by auto
qed

theorem formatSI_length_witness:
  "5 < length (formatSI 99949999999999999) \<and> \<not> 5 < length (formatSI 999499)"
  using formatSI_length [of 99949999999999999] formatSI_length [of 999499] by simp

lemma double_2_63: "to_double 9223372036854775808 = 9223372036854775808"
  using to_double_eval [of "2 ^ 63" 64 _ "2 ^ 52", OF _ _ _ refl] by simp

lemma to_double_bounds:
  assumes "1 / 2 \<le> x" "x \<le> 2 ^ 63"
  shows "1 / 2 \<le> to_double x" "to_double x \<le> 2 ^ 63"
proof -
  have "to_double (1 / 2) = 1 / 2"
  proof -
    have "ulp (1 / 2) = 2 ^ 0 / 2 ^ 53" by (rule ulp_eq) simp_all
    then have "1 / 2 = of_int (2 ^ 52) * ulp (1 / 2)" by simp
    then show ?thesis by (rule to_double_exact)
  qed
  with to_double_mono [of "1 / 2" x] assms show "1 / 2 \<le> to_double x" by simp
  from to_double_mono [of x "2 ^ 63"] assms show "to_double x \<le> 2 ^ 63" by (simp add: double_2_63)
qed

text \<open>A class of \<^verbatim>\<open>formatIEC\<close>: below its threshold the quotient, which is exact, is below the decimal constant.\<close>

lemma IEC_class:
  assumes s: "0 < s" "s < 2 ^ 63" and n: "n = to_double (of_int s)" "2 ^ k / 2 \<le> n" "n < to_double (2 ^ k * to_double T)"
    and T: "1 / 2 \<le> T" "T \<le> 2 ^ 63" "2 ^ k * to_double T < 2 ^ 64"
  shows "to_double (n / 2 ^ k) < T"
proof (rule ccontr)
  assume "\<not> to_double (n / 2 ^ k) < T"
  have s': "1 / 2 \<le> (of_int s :: rat)" "(of_int s :: rat) \<le> 2 ^ 63"
  proof -
    have "(1 :: rat) \<le> of_int s" using s(1) by simp
    then show "1 / 2 \<le> (of_int s :: rat)" by linarith
    show "(of_int s :: rat) \<le> 2 ^ 63" using s(2) by (metis less_imp_le of_int_le_iff of_int_numeral of_int_power)
  qed
  from to_double_bounds [OF s'] have "1 / 2 \<le> n" "n \<le> 2 ^ 63" by (simp_all only: n(1))
  have "to_double n = n" unfolding n(1) by (rule to_double_idem [OF s'])
  then have q: "to_double (n / 2 ^ k) = n / 2 ^ k"
    using to_double_scale [OF n(2)] \<open>n \<le> 2 ^ 63\<close> by simp
  have T': "1 / 2 \<le> to_double T" by (rule to_double_bounds [OF T(1,2)])
  have "n / 2 ^ k \<le> n / 1" using \<open>1 / 2 \<le> n\<close> by (intro divide_left_mono) simp_all
  then have "n / 2 ^ k < 2 ^ 64" using \<open>n \<le> 2 ^ 63\<close> by simp
  moreover have "T \<le> n / 2 ^ k" using q \<open>\<not> to_double (n / 2 ^ k) < T\<close> by simp
  ultimately have "to_double T \<le> n / 2 ^ k" using to_double_mono [of T "n / 2 ^ k"] q by simp
  then have "2 ^ k * to_double T \<le> n" by (simp add: field_simps)
  moreover have "to_double (2 ^ k * to_double T) = 2 ^ k * to_double T"
    using to_double_scale [of k "2 ^ k * to_double T"] T(3) T' to_double_idem [OF T(1,2)] by (simp add: field_simps)
  ultimately show False using n(3) by simp
qed

lemma double_Mi: "to_double (2 ^ 10 * 2 ^ 10) = 2 ^ 20"
  using to_double_eval [of "2 ^ 20" 21 _ "2 ^ 52", OF _ _ _ refl] by simp

lemma double_Gi: "to_double (2 ^ 20 * 2 ^ 10) = 2 ^ 30"
  using to_double_eval [of "2 ^ 30" 31 _ "2 ^ 52", OF _ _ _ refl] by simp

lemma double_Ti: "to_double (2 ^ 30 * 2 ^ 10) = 2 ^ 40"
  using to_double_eval [of "2 ^ 40" 41 _ "2 ^ 52", OF _ _ _ refl] by simp

lemma double_Pi: "to_double (2 ^ 40 * 2 ^ 10) = 2 ^ 50"
  using to_double_eval [of "2 ^ 50" 51 _ "2 ^ 52", OF _ _ _ refl] by simp

lemma double_Ei: "to_double (2 ^ 50 * 2 ^ 10) = 2 ^ 60"
  using to_double_eval [of "2 ^ 60" 61 _ "2 ^ 52", OF _ _ _ refl] by simp

lemma double_1023_5: "to_double (2047 / 2) = 2047 / 2"
  using to_double_eval [of "2047 / 2" 10 _ "2047 * 2 ^ 42", OF _ _ _ refl] by simp

lemmas double_thresholds = double_9_995 double_99_95 double_1023_5

lemmas double_units = double_Mi double_Gi double_Ti double_Pi double_Ei

lemma formatIEC_eq:
  "formatIEC s =
     (let n = to_double (of_int s)
      in if n < 2 ^ 10 then show_int s
         else if n < to_double (2 ^ 10 * to_double (9995 / 1000)) then printf_f 2 (to_double (n / 2 ^ 10)) @ ''Ki''
         else if n < to_double (2 ^ 10 * to_double (9995 / 100)) then printf_f 1 (to_double (n / 2 ^ 10)) @ ''Ki''
         else if n < to_double (2 ^ 10 * to_double (10235 / 10)) then printf_f 0 (to_double (n / 2 ^ 10)) @ ''Ki''
         else if n < to_double (2 ^ 20 * to_double (9995 / 1000)) then printf_f 2 (to_double (n / 2 ^ 20)) @ ''Mi''
         else if n < to_double (2 ^ 20 * to_double (9995 / 100)) then printf_f 1 (to_double (n / 2 ^ 20)) @ ''Mi''
         else if n < to_double (2 ^ 20 * to_double (10235 / 10)) then printf_f 0 (to_double (n / 2 ^ 20)) @ ''Mi''
         else if n < to_double (2 ^ 30 * to_double (9995 / 1000)) then printf_f 2 (to_double (n / 2 ^ 30)) @ ''Gi''
         else if n < to_double (2 ^ 30 * to_double (9995 / 100)) then printf_f 1 (to_double (n / 2 ^ 30)) @ ''Gi''
         else if n < to_double (2 ^ 30 * to_double (10235 / 10)) then printf_f 0 (to_double (n / 2 ^ 30)) @ ''Gi''
         else if n < to_double (2 ^ 40 * to_double (9995 / 1000)) then printf_f 2 (to_double (n / 2 ^ 40)) @ ''Ti''
         else if n < to_double (2 ^ 40 * to_double (9995 / 100)) then printf_f 1 (to_double (n / 2 ^ 40)) @ ''Ti''
         else if n < to_double (2 ^ 40 * to_double (10235 / 10)) then printf_f 0 (to_double (n / 2 ^ 40)) @ ''Ti''
         else if n < to_double (2 ^ 50 * to_double (9995 / 1000)) then printf_f 2 (to_double (n / 2 ^ 50)) @ ''Pi''
         else if n < to_double (2 ^ 50 * to_double (9995 / 100)) then printf_f 1 (to_double (n / 2 ^ 50)) @ ''Pi''
         else if n < to_double (2 ^ 50 * to_double (10235 / 10)) then printf_f 0 (to_double (n / 2 ^ 50)) @ ''Pi''
         else if n < to_double (2 ^ 60 * to_double (9995 / 1000)) then printf_f 2 (to_double (n / 2 ^ 60)) @ ''Ei''
         else printf_f 1 (to_double (n / 2 ^ 60)) @ ''Ei'')"
proof -
  have "(1024 :: rat) = 2 ^ 10" by simp
  then show ?thesis unfolding formatIEC_def Let_def by (simp only: double_units)
qed

lemma to_double_threshold:
  assumes "1 / 2 \<le> T" "T \<le> 2 ^ 63" "2 ^ k * to_double T < 2 ^ 64"
  shows "to_double (2 ^ k * to_double T) = 2 ^ k * to_double T"
  using to_double_scale [of k "2 ^ k * to_double T"] assms(3) to_double_bounds [OF assms(1,2)]
    to_double_idem [OF assms(1,2)] by (simp add: field_simps)

text \<open>
  C26. The text of a quantity in IEC units has at most the documented six characters, for every
  quantity that is not negative: its classes are separated by comparing doubles, so that rounding
  cannot carry a quantity over a threshold.
\<close>

theorem formatIEC_length:
  assumes "0 \<le> s" "s < 2 ^ 63"
  shows "length (formatIEC s) \<le> 6"
proof -
  define n where "n = to_double (of_int s)"
  have l: "2 ^ j / 2 \<le> n" if "\<not> n < to_double (2 ^ k * to_double (10235 / 10))" "j = k + 10" "k \<le> 50" for j k
  proof -
    have e: "(10235 / 10 :: rat) = 2047 / 2" by simp
    have "(2 :: rat) ^ k \<le> 2 ^ 50" using that(3) by (intro power_increasing) simp_all
    then have "2 ^ k * to_double (2047 / 2 :: rat) < 2 ^ 64" unfolding double_1023_5 by simp
    then have "to_double (2 ^ k * to_double (2047 / 2)) = 2 ^ k * (2047 / 2)"
      using to_double_threshold [of "2047 / 2" k] by (simp only: double_1023_5) simp
    with that(1) have "2 ^ k * (2047 / 2) \<le> n" unfolding e by simp
    then show ?thesis unfolding that(2) by (simp add: power_add) (use zero_less_power [of "2 :: rat" k] in linarith)
  qed
  have c: "to_double (n / 2 ^ k) < T"
    if "2 ^ k / 2 \<le> n" "n < to_double (2 ^ k * to_double T)" "1 / 2 \<le> T" "T \<le> 2 ^ 63"
      "2 ^ k * to_double T < 2 ^ 64" for k T
  proof (rule IEC_class [OF _ assms(2) n_def that])
    have "to_double (of_int 0) = 0" using to_double_of_int [of 0] by simp
    moreover have "0 < n" using that(1) by (rule less_le_trans [rotated]) simp
    ultimately have "s \<noteq> 0" by (auto simp: n_def)
    with assms(1) show "0 < s" by simp
  qed
  have len: "to_double (n / 2 ^ k) < 9995 / 1000 \<Longrightarrow> length (printf_f 2 (to_double (n / 2 ^ k)) @ [a, b]) \<le> 6"
    "to_double (n / 2 ^ k) < 9995 / 100 \<Longrightarrow> length (printf_f 1 (to_double (n / 2 ^ k)) @ [a, b]) \<le> 6"
    "to_double (n / 2 ^ k) < 10235 / 10 \<Longrightarrow> length (printf_f 0 (to_double (n / 2 ^ k)) @ [a, b]) \<le> 6" for k a b
    using length_printf_f_2 [of "to_double (n / 2 ^ k)"] length_printf_f_1 [of "to_double (n / 2 ^ k)"]
      length_printf_f_0 [of "to_double (n / 2 ^ k)"] by simp_all
  have le: "(of_int s :: rat) \<le> 2 ^ 63"
    using assms(2) by (metis less_imp_le of_int_le_iff of_int_numeral of_int_power)
  have small: "length (show_int s) \<le> 4" if "n < 2 ^ 10"
  proof -
    have "s < 1024"
    proof (rule ccontr)
      assume "\<not> s < 1024"
      then have "(of_int 1024 :: rat) \<le> of_int s" by simp
      then show False using to_double_mono [of "of_int 1024" "of_int s"] to_double_of_int [of 1024] that le
        by (simp add: n_def)
    qed
    then show ?thesis using assms(1) length_show_nat [of "nat s" 4] by (simp add: show_int_def nat_less_iff)
  qed
  have large: "n < to_double (2 ^ 60 * to_double (9995 / 1000))"
  proof -
    have "n \<le> 2 ^ 63"
      using to_double_mono [OF le] by (simp add: n_def double_2_63)
    then show ?thesis using to_double_threshold [of "1999 / 200" 60] by (simp add: double_thresholds)
  qed
  show ?thesis
    unfolding formatIEC_eq Let_def n_def [symmetric]
    apply (intro length_if)
    subgoal using small by simp
    subgoal by (rule len(1) [OF c]) (assumption | simp add: double_thresholds)+
    subgoal by (rule len(2) [OF c]) (assumption | simp add: double_thresholds)+
    subgoal by (rule len(3) [OF c]) (assumption | simp add: double_thresholds)+
    subgoal by (rule len(1) [OF c [OF l [of 10 _]]]) (assumption | simp add: double_thresholds)+
    subgoal by (rule len(2) [OF c [OF l [of 10 _]]]) (assumption | simp add: double_thresholds)+
    subgoal by (rule len(3) [OF c [OF l [of 10 _]]]) (assumption | simp add: double_thresholds)+
    subgoal by (rule len(1) [OF c [OF l [of 20 _]]]) (assumption | simp add: double_thresholds)+
    subgoal by (rule len(2) [OF c [OF l [of 20 _]]]) (assumption | simp add: double_thresholds)+
    subgoal by (rule len(3) [OF c [OF l [of 20 _]]]) (assumption | simp add: double_thresholds)+
    subgoal by (rule len(1) [OF c [OF l [of 30 _]]]) (assumption | simp add: double_thresholds)+
    subgoal by (rule len(2) [OF c [OF l [of 30 _]]]) (assumption | simp add: double_thresholds)+
    subgoal by (rule len(3) [OF c [OF l [of 30 _]]]) (assumption | simp add: double_thresholds)+
    subgoal by (rule len(1) [OF c [OF l [of 40 _]]]) (assumption | simp add: double_thresholds)+
    subgoal by (rule len(2) [OF c [OF l [of 40 _]]]) (assumption | simp add: double_thresholds)+
    subgoal by (rule len(3) [OF c [OF l [of 40 _]]]) (assumption | simp add: double_thresholds)+
    subgoal by (rule len(1) [OF c [OF l [of 50 _]]]) (assumption | simp add: double_thresholds)+
    subgoal using large by (simp add: not_less)
    done
qed

theorem formatIEC_length_witness: "length (formatIEC 10480517) \<le> 6"
  by (rule formatIEC_length) simp_all

end
