(* ===== verification/LogStream.thy ===== *)
theory LogStream
  imports StringPiece
begin

text \<open>
  \<^verbatim>\<open>muduo/base/LogStream.h\<close>, \<^verbatim>\<open>LogStream.cc\<close>: integer to text conversion, the fixed buffer that one log
  line is built in, and the formatting of quantities with SI and IEC units. A buffer is the array
  of its bytes and the index \<^verbatim>\<open>cur_\<close>; writing outside the array has no result. Integers are
  unbounded: the conversion is the same code for every width.
\<close>

section \<open>Integers as text\<close>

definition digits :: string where "digits = ''9876543210123456789''"

definition zero_digit :: "int \<Rightarrow> char" where
  "zero_digit lsd = digits ! nat (9 + lsd)"

lemma sdiv_10_less: "i sdiv 10 \<noteq> 0 \<Longrightarrow> nat \<bar>i sdiv 10\<bar> < nat \<bar>i :: int\<bar>"
proof -
  assume "i sdiv 10 \<noteq> 0"
  then have "\<bar>i\<bar> div 10 \<noteq> 0" "\<bar>i sdiv 10\<bar> = \<bar>i\<bar> div 10"
    by (auto simp: signed_divide_int_def abs_mult split: if_splits)
  then show ?thesis by linarith
qed

function convert_loop :: "int \<Rightarrow> string" where
  "convert_loop i =
     (let lsd = i smod 10; i = i sdiv 10
      in zero_digit lsd # (if i \<noteq> 0 then convert_loop i else []))"
  by pat_completeness auto

termination
  by (relation "measure (\<lambda>i. nat \<bar>i\<bar>)") (use sdiv_10_less in \<open>auto simp del: zless_nat_conj\<close>)

declare convert_loop.simps [simp del]

definition convert :: "int \<Rightarrow> string" where
  "convert value =
     (let p = convert_loop value;
          p = (if value < 0 then p @ ''-'' else p)
      in rev p)"

definition digitsHex :: string where "digitsHex = ''0123456789ABCDEF''"

function convertHex_loop :: "nat \<Rightarrow> string" where
  "convertHex_loop i =
     (let lsd = i mod 16; i = i div 16
      in digitsHex ! lsd # (if i \<noteq> 0 then convertHex_loop i else []))"
  by pat_completeness auto
termination by (relation "measure id") auto

declare convertHex_loop.simps [simp del]

definition convertHex :: "64 word \<Rightarrow> string" where
  "convertHex value = rev (convertHex_loop (unat value))"

section \<open>The fixed buffer\<close>

record fixedbuffer =
  fb_data :: "char list"
  fb_cur :: nat

definition kSmallBuffer :: nat where "kSmallBuffer = 4000"
definition kLargeBuffer :: nat where "kLargeBuffer = 4000 * 1000"

definition FixedBuffer_new :: "nat \<Rightarrow> fixedbuffer" where
  "FixedBuffer_new SIZE = \<lparr>fb_data = replicate SIZE NUL, fb_cur = 0\<rparr>"

definition FixedBuffer_avail :: "fixedbuffer \<Rightarrow> nat" where
  "FixedBuffer_avail b = length (fb_data b) - fb_cur b"

definition FixedBuffer_length :: "fixedbuffer \<Rightarrow> nat" where
  "FixedBuffer_length b = fb_cur b"

text \<open>A write into the array from \<^verbatim>\<open>cur_\<close> on.\<close>

definition fb_write :: "string \<Rightarrow> fixedbuffer \<Rightarrow> fixedbuffer option" where
  "fb_write s b =
     do {
       assert_that (fb_cur b + length s \<le> length (fb_data b));
       Some (b\<lparr>fb_data := overwrite (fb_cur b) s (fb_data b)\<rparr>) }"

definition FixedBuffer_add :: "nat \<Rightarrow> fixedbuffer \<Rightarrow> fixedbuffer" where
  "FixedBuffer_add len b = b\<lparr>fb_cur := fb_cur b + len\<rparr>"

definition FixedBuffer_append :: "string \<Rightarrow> fixedbuffer \<Rightarrow> fixedbuffer option" where
  "FixedBuffer_append buf b =
     (if length buf < FixedBuffer_avail b then
        do { b \<leftarrow> fb_write buf b; Some (FixedBuffer_add (length buf) b) }
      else Some b)"

definition FixedBuffer_reset :: "fixedbuffer \<Rightarrow> fixedbuffer" where
  "FixedBuffer_reset b = b\<lparr>fb_cur := 0\<rparr>"

definition FixedBuffer_bzero :: "fixedbuffer \<Rightarrow> fixedbuffer" where
  "FixedBuffer_bzero b = b\<lparr>fb_data := replicate (length (fb_data b)) NUL\<rparr>"

definition FixedBuffer_debugString :: "fixedbuffer \<Rightarrow> (string \<times> fixedbuffer) option" where
  "FixedBuffer_debugString b =
     do {
       b \<leftarrow> fb_write [NUL] b;
       Some (takeWhile (\<lambda>c. c \<noteq> NUL) (fb_data b), b) }"

definition FixedBuffer_toString :: "fixedbuffer \<Rightarrow> string" where
  "FixedBuffer_toString b = take (fb_cur b) (fb_data b)"

section \<open>The stream\<close>

definition kMaxNumericSize :: nat where "kMaxNumericSize = 32"

text \<open>The conversions write the digits and a terminating zero at \<^verbatim>\<open>current()\<close>.\<close>

definition LogStream_formatInteger :: "int \<Rightarrow> fixedbuffer \<Rightarrow> fixedbuffer option" where
  "LogStream_formatInteger v b =
     (if kMaxNumericSize \<le> FixedBuffer_avail b then
        do {
          b \<leftarrow> fb_write (convert v @ [NUL]) b;
          Some (FixedBuffer_add (length (convert v)) b) }
      else Some b)"

definition LogStream_pointer :: "64 word \<Rightarrow> fixedbuffer \<Rightarrow> fixedbuffer option" where
  "LogStream_pointer v b =
     (if kMaxNumericSize \<le> FixedBuffer_avail b then
        do {
          b \<leftarrow> fb_write (''0x'' @ convertHex v @ [NUL]) b;
          Some (FixedBuffer_add (length (convertHex v) + 2) b) }
      else Some b)"

text \<open>A \<^verbatim>\<open>double\<close>, with the text that \<^verbatim>\<open>snprintf\<close> makes of it under \<^verbatim>\<open>%.12g\<close>.\<close>

definition LogStream_double :: "string \<Rightarrow> fixedbuffer \<Rightarrow> fixedbuffer option" where
  "LogStream_double formatted b =
     (if kMaxNumericSize \<le> FixedBuffer_avail b then
        do {
          b \<leftarrow> fb_write (take (kMaxNumericSize - 1) formatted @ [NUL]) b;
          Some (FixedBuffer_add (length formatted) b) }
      else Some b)"

definition LogStream_bool :: "bool \<Rightarrow> fixedbuffer \<Rightarrow> fixedbuffer option" where
  "LogStream_bool v b = FixedBuffer_append (if v then ''1'' else ''0'') b"

definition LogStream_char :: "char \<Rightarrow> fixedbuffer \<Rightarrow> fixedbuffer option" where
  "LogStream_char v b = FixedBuffer_append [v] b"

text \<open>A C string is the memory from its first character on; \<^term>\<open>None\<close> is the null pointer.\<close>

definition LogStream_cstr :: "string option \<Rightarrow> fixedbuffer \<Rightarrow> fixedbuffer option" where
  "LogStream_cstr str b =
     (case str of
        Some s \<Rightarrow>
          do {
            assert_that (NUL \<in> set s);
            FixedBuffer_append (take (strlen s) s) b }
      | None \<Rightarrow> FixedBuffer_append ''(null)'' b)"

definition LogStream_string :: "string \<Rightarrow> fixedbuffer \<Rightarrow> fixedbuffer option" where
  "LogStream_string v b = FixedBuffer_append v b"

definition LogStream_piece :: "stringpiece \<Rightarrow> fixedbuffer \<Rightarrow> fixedbuffer option" where
  "LogStream_piece v b =
     do {
       assert_that (StringPiece_wf v);
       FixedBuffer_append (take (nat (sp_length v)) (sp_ptr v)) b }"

definition LogStream_buffer :: "fixedbuffer \<Rightarrow> fixedbuffer \<Rightarrow> fixedbuffer option" where
  "LogStream_buffer v b = LogStream_piece (StringPiece_range (fb_data v) (int (FixedBuffer_length v))) b"

definition LogStream_resetBuffer :: "fixedbuffer \<Rightarrow> fixedbuffer" where
  "LogStream_resetBuffer b = FixedBuffer_reset b"

text \<open>\<^verbatim>\<open>Fmt\<close> with the text that \<^verbatim>\<open>snprintf\<close> makes of its arguments.\<close>

definition Fmt_new :: "string \<Rightarrow> string option" where
  "Fmt_new formatted =
     do {
       assert_that (length formatted < 32);
       Some formatted }"

definition LogStream_fmt :: "string \<Rightarrow> fixedbuffer \<Rightarrow> fixedbuffer option" where
  "LogStream_fmt fmt b = FixedBuffer_append fmt b"

section \<open>The conversions print decimal and hexadecimal\<close>

lemma zero_digit_char: "- 10 < d \<Longrightarrow> d < 10 \<Longrightarrow> zero_digit d = digit_char (nat \<bar>d\<bar>)"
proof -
  assume "- 10 < d" "d < 10"
  then have "-9 \<le> d \<and> d \<le> 9" by linarith
  then have "d \<in> set [-9..9]" by (simp only: set_upto atLeastAtMost_iff)
  moreover have "\<forall>d\<in>set [-9..9]. zero_digit d = digit_char (nat \<bar>d\<bar>)" by code_simp
  ultimately show ?thesis by blast
qed

lemma convert_loop_abs: "convert_loop i = rev (show_nat (nat \<bar>i\<bar>))"
proof (induction i rule: convert_loop.induct)
  case (1 i)
  have q: "\<bar>i sdiv 10\<bar> = \<bar>i\<bar> div 10" by (auto simp: signed_divide_int_def abs_mult)
  have r: "\<bar>i smod 10\<bar> = \<bar>i\<bar> mod 10" by (auto simp: signed_modulo_int_def abs_mult)
  have d: "zero_digit (i smod 10) = digit_char (nat \<bar>i\<bar> mod 10)"
  proof -
    have "\<bar>i smod 10\<bar> < 10" unfolding r by simp
    then have "zero_digit (i smod 10) = digit_char (nat \<bar>i smod 10\<bar>)" by (intro zero_digit_char) auto
    then show ?thesis by (simp add: r nat_mod_distrib)
  qed
  show ?case
  proof (cases "i sdiv 10 = 0")
    case True
    then have "nat \<bar>i\<bar> < 10" using q by simp
    with True d show ?thesis by (simp add: convert_loop.simps [of i] show_nat.simps [of "nat \<bar>i\<bar>"])
  next
    case False
    then have "\<not> nat \<bar>i\<bar> < 10" using q by auto
    moreover have "convert_loop (i sdiv 10) = rev (show_nat (nat \<bar>i\<bar> div 10))"
      using 1 [OF refl refl False] q by (simp add: nat_div_distrib)
    ultimately show ?thesis using False d by (simp add: convert_loop.simps [of i] show_nat.simps [of "nat \<bar>i\<bar>"] Let_def)
  qed
qed

lemma convert_show_int: "convert i = show_int i"
  by (simp add: convert_def convert_loop_abs show_int_def)

definition hex_value :: "char \<Rightarrow> nat" where
  "hex_value c = (if of_char c < (65 :: nat) then of_char c - 48 else of_char c - 55)"

fun read_hex :: "nat \<Rightarrow> string \<Rightarrow> nat" where
  "read_hex acc [] = acc"
| "read_hex acc (c # cs) = read_hex (16 * acc + hex_value c) cs"

lemma hex_value_digit: "d < 16 \<Longrightarrow> hex_value (digitsHex ! d) = d"
proof -
  assume "d < 16"
  then have "d \<in> set [0..<16]" by simp
  moreover have "\<forall>d\<in>set [0..<16]. hex_value (digitsHex ! d) = d" by code_simp
  ultimately show ?thesis by blast
qed

lemma read_hex_append: "read_hex acc (xs @ ys) = read_hex (read_hex acc xs) ys"
  by (induction xs arbitrary: acc) simp_all

lemma read_convertHex_loop: "read_hex 0 (rev (convertHex_loop n)) = n"
proof (induction n rule: convertHex_loop.induct)
  case (1 n)
  show ?case
  proof (cases "n div 16 = 0")
    case True
    then show ?thesis by (simp add: convertHex_loop.simps [of n] hex_value_digit)
  next
    case False
    with 1 [OF refl refl False] show ?thesis
      by (simp add: convertHex_loop.simps [of n] Let_def read_hex_append hex_value_digit)
  qed
qed

section \<open>A line of output\<close>

text \<open>The operands of \<^verbatim>\<open><<\<close>, and a chain of insertions.\<close>

datatype operand =
    Obool bool
  | Oint int
  | Opointer "64 word"
  | Odouble string
  | Ochar char
  | Ocstr "string option"
  | Ostring string
  | Opiece stringpiece
  | Obuffer fixedbuffer
  | Ofmt string

fun LogStream_put :: "operand \<Rightarrow> fixedbuffer \<Rightarrow> fixedbuffer option" where
  "LogStream_put (Obool v) b = LogStream_bool v b"
| "LogStream_put (Oint v) b = LogStream_formatInteger v b"
| "LogStream_put (Opointer v) b = LogStream_pointer v b"
| "LogStream_put (Odouble v) b = LogStream_double v b"
| "LogStream_put (Ochar v) b = LogStream_char v b"
| "LogStream_put (Ocstr v) b = LogStream_cstr v b"
| "LogStream_put (Ostring v) b = LogStream_string v b"
| "LogStream_put (Opiece v) b = LogStream_piece v b"
| "LogStream_put (Obuffer v) b = LogStream_buffer v b"
| "LogStream_put (Ofmt v) b = do { v \<leftarrow> Fmt_new v; LogStream_fmt v b }"

fun LogStream_puts :: "operand list \<Rightarrow> fixedbuffer \<Rightarrow> fixedbuffer option" where
  "LogStream_puts [] b = Some b"
| "LogStream_puts (v # vs) b = do { b \<leftarrow> LogStream_put v b; LogStream_puts vs b }"

text \<open>What an operand denotes, when it may be inserted, and how much room its insertion asks for.\<close>

definition FixedBuffer_inv :: "fixedbuffer \<Rightarrow> bool" where
  "FixedBuffer_inv b \<longleftrightarrow> fb_cur b \<le> length (fb_data b)"

fun operand_ok :: "operand \<Rightarrow> bool" where
  "operand_ok (Oint v) \<longleftrightarrow> - (2 ^ 63) \<le> v \<and> v < 2 ^ 64"
| "operand_ok (Odouble v) \<longleftrightarrow> length v \<le> 31"
| "operand_ok (Ocstr (Some v)) \<longleftrightarrow> NUL \<in> set v"
| "operand_ok (Opiece v) \<longleftrightarrow> StringPiece_wf v"
| "operand_ok (Obuffer v) \<longleftrightarrow> FixedBuffer_inv v"
| "operand_ok (Ofmt v) \<longleftrightarrow> length v < 32"
| "operand_ok _ \<longleftrightarrow> True"

fun operand_text :: "operand \<Rightarrow> string" where
  "operand_text (Obool v) = (if v then ''1'' else ''0'')"
| "operand_text (Oint v) = show_int v"
| "operand_text (Opointer v) = ''0x'' @ convertHex v"
| "operand_text (Odouble v) = v"
| "operand_text (Ochar v) = [v]"
| "operand_text (Ocstr None) = ''(null)''"
| "operand_text (Ocstr (Some v)) = takeWhile (\<lambda>c. c \<noteq> NUL) v"
| "operand_text (Ostring v) = v"
| "operand_text (Opiece v) = piece_string v"
| "operand_text (Obuffer v) = FixedBuffer_toString v"
| "operand_text (Ofmt v) = v"

fun operand_room :: "operand \<Rightarrow> nat" where
  "operand_room (Oint _) = 32"
| "operand_room (Opointer _) = 32"
| "operand_room (Odouble _) = 32"
| "operand_room v = length (operand_text v) + 1"

fun line_text :: "nat \<Rightarrow> string \<Rightarrow> operand list \<Rightarrow> string" where
  "line_text cap acc [] = acc"
| "line_text cap acc (v # vs) =
     line_text cap (if operand_room v \<le> cap - length acc then acc @ operand_text v else acc) vs"

lemma length_convertHex_loop: "n < 16 ^ k \<Longrightarrow> 0 < k \<Longrightarrow> length (convertHex_loop n) \<le> k"
proof (induction n arbitrary: k rule: convertHex_loop.induct)
  case (1 n)
  show ?case
  proof (cases "n div 16 = 0")
    case True
    with 1(3) show ?thesis by (simp add: convertHex_loop.simps [of n])
  next
    case False
    then obtain j where k: "k = Suc j" "0 < j"
      using 1(2,3) by (cases k; cases "k - 1") auto
    then have "n div 16 < 16 ^ j" using 1(2) by (simp add: less_mult_imp_div_less mult.commute)
    with 1(1) [OF refl refl False, of j] k False show ?thesis
      by (simp add: convertHex_loop.simps [of n] Let_def)
  qed
qed

lemma length_convertHex: "length (convertHex v) \<le> 16"
  using unsigned_less [of v, where 'a = nat]
  by (auto simp: convertHex_def intro!: length_convertHex_loop)

lemma length_convert:
  assumes "- (2 ^ 63) \<le> v" "v < 2 ^ 64"
  shows "length (convert v) \<le> 20"
proof (cases "v < 0")
  case True
  then have "nat (- v) < 10 ^ 19" using assms by (simp add: nat_less_iff)
  then have "length (show_nat (nat (- v))) \<le> 19" by (rule length_show_nat) simp
  with True show ?thesis by (simp add: convert_show_int show_int_def)
next
  case False
  then have "nat v < 10 ^ 20" using assms by (simp add: nat_less_iff)
  then have "length (show_nat (nat v)) \<le> 20" by (rule length_show_nat) simp
  with False show ?thesis by (simp add: convert_show_int show_int_def)
qed

lemma fb_write_add:
  assumes "FixedBuffer_inv b" "length s \<le> FixedBuffer_avail b" "n \<le> length s"
  obtains b' where "fb_write s b = Some b'" "FixedBuffer_inv (FixedBuffer_add n b')"
    "length (fb_data (FixedBuffer_add n b')) = length (fb_data b)"
    "FixedBuffer_toString (FixedBuffer_add n b') = FixedBuffer_toString b @ take n s"
proof (rule that)
  let ?b = "b\<lparr>fb_data := overwrite (fb_cur b) s (fb_data b)\<rparr>"
  show "fb_write s b = Some ?b"
    using assms by (simp add: fb_write_def FixedBuffer_avail_def FixedBuffer_inv_def)
  show "FixedBuffer_inv (FixedBuffer_add n ?b)"
    "length (fb_data (FixedBuffer_add n ?b)) = length (fb_data b)"
    "FixedBuffer_toString (FixedBuffer_add n ?b) = FixedBuffer_toString b @ take n s"
    using assms
    by (simp_all add: FixedBuffer_avail_def FixedBuffer_inv_def FixedBuffer_add_def FixedBuffer_toString_def overwrite_def)
qed

text \<open>The effect of an insertion that asks for \<open>room\<close> bytes and adds \<open>s\<close>.\<close>

definition put_spec :: "nat \<Rightarrow> string \<Rightarrow> fixedbuffer \<Rightarrow> fixedbuffer \<Rightarrow> bool" where
  "put_spec room s b b' \<longleftrightarrow>
     FixedBuffer_inv b' \<and> length (fb_data b') = length (fb_data b) \<and>
     FixedBuffer_toString b' =
       (if room \<le> FixedBuffer_avail b then FixedBuffer_toString b @ s else FixedBuffer_toString b)"

lemma put_spec_skip: "FixedBuffer_inv b \<Longrightarrow> FixedBuffer_avail b < room \<Longrightarrow> put_spec room s b b"
  by (simp add: put_spec_def)

lemma FixedBuffer_append_spec:
  assumes "FixedBuffer_inv b"
  shows "\<exists>b'. FixedBuffer_append s b = Some b' \<and> put_spec (length s + 1) s b b'"
proof (cases "length s < FixedBuffer_avail b")
  case True
  then obtain b' where "fb_write s b = Some b'" "FixedBuffer_inv (FixedBuffer_add (length s) b')"
    "length (fb_data (FixedBuffer_add (length s) b')) = length (fb_data b)"
    "FixedBuffer_toString (FixedBuffer_add (length s) b') = FixedBuffer_toString b @ take (length s) s"
    using fb_write_add [OF assms, of s "length s"] by auto
  with True show ?thesis by (simp add: FixedBuffer_append_def put_spec_def)
next
  case False
  with assms show ?thesis by (simp add: FixedBuffer_append_def put_spec_skip)
qed

lemma LogStream_formatInteger_spec:
  assumes "FixedBuffer_inv b" "- (2 ^ 63) \<le> v" "v < 2 ^ 64"
  shows "\<exists>b'. LogStream_formatInteger v b = Some b' \<and> put_spec 32 (show_int v) b b'"
proof (cases "32 \<le> FixedBuffer_avail b")
  case True
  with length_convert [OF assms(2,3)] have "length (convert v @ [NUL]) \<le> FixedBuffer_avail b" by simp
  then obtain b' where "fb_write (convert v @ [NUL]) b = Some b'"
    "FixedBuffer_inv (FixedBuffer_add (length (convert v)) b')"
    "length (fb_data (FixedBuffer_add (length (convert v)) b')) = length (fb_data b)"
    "FixedBuffer_toString (FixedBuffer_add (length (convert v)) b') =
       FixedBuffer_toString b @ take (length (convert v)) (convert v @ [NUL])"
    by (rule fb_write_add [OF assms(1), of _ "length (convert v)"]) simp_all
  with True show ?thesis
    by (simp add: LogStream_formatInteger_def put_spec_def kMaxNumericSize_def convert_show_int)
next
  case False
  with assms show ?thesis by (simp add: LogStream_formatInteger_def kMaxNumericSize_def put_spec_skip)
qed

lemma LogStream_pointer_spec:
  assumes "FixedBuffer_inv b"
  shows "\<exists>b'. LogStream_pointer v b = Some b' \<and> put_spec 32 (''0x'' @ convertHex v) b b'"
proof (cases "32 \<le> FixedBuffer_avail b")
  case True
  let ?s = "''0x'' @ convertHex v @ [NUL]"
  from True length_convertHex [of v] have "length ?s \<le> FixedBuffer_avail b" by simp
  then obtain b' where "fb_write ?s b = Some b'"
    "FixedBuffer_inv (FixedBuffer_add (length (convertHex v) + 2) b')"
    "length (fb_data (FixedBuffer_add (length (convertHex v) + 2) b')) = length (fb_data b)"
    "FixedBuffer_toString (FixedBuffer_add (length (convertHex v) + 2) b') =
       FixedBuffer_toString b @ take (length (convertHex v) + 2) ?s"
    by (rule fb_write_add [OF assms(1), of _ "length (convertHex v) + 2"]) simp_all
  with True show ?thesis by (simp add: LogStream_pointer_def put_spec_def kMaxNumericSize_def)
next
  case False
  with assms show ?thesis by (simp add: LogStream_pointer_def kMaxNumericSize_def put_spec_skip)
qed

lemma LogStream_double_spec:
  assumes "FixedBuffer_inv b" "length s \<le> 31"
  shows "\<exists>b'. LogStream_double s b = Some b' \<and> put_spec 32 s b b'"
proof (cases "32 \<le> FixedBuffer_avail b")
  case True
  with assms(2) have "length (s @ [NUL]) \<le> FixedBuffer_avail b" by simp
  then obtain b' where "fb_write (s @ [NUL]) b = Some b'"
    "FixedBuffer_inv (FixedBuffer_add (length s) b')"
    "length (fb_data (FixedBuffer_add (length s) b')) = length (fb_data b)"
    "FixedBuffer_toString (FixedBuffer_add (length s) b') =
       FixedBuffer_toString b @ take (length s) (s @ [NUL])"
    by (rule fb_write_add [OF assms(1), of _ "length s"]) simp_all
  with True assms(2) show ?thesis by (simp add: LogStream_double_def put_spec_def kMaxNumericSize_def)
next
  case False
  with assms show ?thesis by (simp add: LogStream_double_def kMaxNumericSize_def put_spec_skip)
qed

lemma take_strlen: "take (strlen s) s = takeWhile (\<lambda>c. c \<noteq> NUL) s"
  by (induction s) (simp_all add: strlen_def std_find_def)

lemma LogStream_put_spec:
  assumes "FixedBuffer_inv b" "operand_ok v"
  shows "\<exists>b'. LogStream_put v b = Some b' \<and> put_spec (operand_room v) (operand_text v) b b'"
proof (cases v)
  case (Oint x2)
  with assms LogStream_formatInteger_spec [of b x2] show ?thesis by simp
next
  case (Opointer x3)
  with assms LogStream_pointer_spec [of b x3] show ?thesis by simp
next
  case (Odouble s)
  with assms LogStream_double_spec [of b s] show ?thesis by simp
next
  case (Obuffer w)
  with assms FixedBuffer_append_spec [OF assms(1), of "FixedBuffer_toString w"] show ?thesis
    by (simp add: LogStream_buffer_def LogStream_piece_def StringPiece_range_def StringPiece_wf_def
        FixedBuffer_inv_def FixedBuffer_length_def FixedBuffer_toString_def)
next
  case (Opiece w)
  with assms FixedBuffer_append_spec [OF assms(1), of "piece_string w"] show ?thesis
    by (simp add: LogStream_piece_def piece_string_def)
next
  case (Ocstr s)
  with assms FixedBuffer_append_spec [OF assms(1), of "operand_text v"] show ?thesis
    by (cases s) (simp_all add: LogStream_cstr_def take_strlen)
qed (use assms FixedBuffer_append_spec [OF assms(1), of "operand_text v"] in
    \<open>simp_all add: LogStream_bool_def LogStream_char_def LogStream_string_def LogStream_fmt_def Fmt_new_def\<close>)

lemma FixedBuffer_avail_toString:
  "FixedBuffer_inv b \<Longrightarrow> FixedBuffer_avail b = length (fb_data b) - length (FixedBuffer_toString b)"
  by (simp add: FixedBuffer_avail_def FixedBuffer_inv_def FixedBuffer_toString_def)

lemma LogStream_puts_spec:
  "FixedBuffer_inv b \<Longrightarrow> list_all operand_ok vs \<Longrightarrow>
   \<exists>b'. LogStream_puts vs b = Some b' \<and> FixedBuffer_inv b' \<and> length (fb_data b') = length (fb_data b) \<and>
     FixedBuffer_toString b' = line_text (length (fb_data b)) (FixedBuffer_toString b) vs"
proof (induction vs arbitrary: b)
  case (Cons v vs)
  from Cons.prems have "operand_ok v" by simp
  from LogStream_put_spec [OF Cons.prems(1) this] obtain b' where
    b': "LogStream_put v b = Some b'" "put_spec (operand_room v) (operand_text v) b b'" by blast
  then have "FixedBuffer_inv b'" by (simp add: put_spec_def)
  from Cons.IH [OF this] Cons.prems b' show ?case
    by (auto simp: put_spec_def FixedBuffer_avail_toString split: if_splits)
qed simp

lemma FixedBuffer_new_inv [simp]: "FixedBuffer_inv (FixedBuffer_new n)"
  by (simp add: FixedBuffer_inv_def FixedBuffer_new_def)

lemma FixedBuffer_new_toString [simp]: "FixedBuffer_toString (FixedBuffer_new n) = []"
  by (simp add: FixedBuffer_toString_def FixedBuffer_new_def)

lemma length_FixedBuffer_new [simp]: "length (fb_data (FixedBuffer_new n)) = n"
  by (simp add: FixedBuffer_new_def)

text \<open>
  C24. A log line of any operands, inserted in any order, is built without a write outside the
  4000 byte array, the array keeps its size, and the line is the concatenation of the texts of the
  operands that fit: a number or a pointer fits when 32 bytes are left, anything else when more
  bytes are left than its text has. What does not fit is dropped whole, and later operands that
  fit are still appended.
\<close>

theorem LogStream_line:
  assumes "list_all operand_ok vs"
  shows "\<exists>b. LogStream_puts vs (FixedBuffer_new kSmallBuffer) = Some b \<and> FixedBuffer_inv b \<and>
    length (fb_data b) = kSmallBuffer \<and> FixedBuffer_toString b = line_text kSmallBuffer [] vs"
  using LogStream_puts_spec [OF FixedBuffer_new_inv assms, of kSmallBuffer] by simp

theorem LogStream_line_witness:
  "\<exists>b. LogStream_puts [Ostring ''fd = '', Oint (- (2 ^ 63)), Ochar CHR '' '', Ocstr None, Obool True]
      (FixedBuffer_new kSmallBuffer) = Some b \<and> FixedBuffer_inv b \<and> length (fb_data b) = kSmallBuffer \<and>
    FixedBuffer_toString b = line_text kSmallBuffer []
      [Ostring ''fd = '', Oint (- (2 ^ 63)), Ochar CHR '' '', Ocstr None, Obool True]"
  by (rule LogStream_line) simp

text \<open>
  \<^verbatim>\<open>convert\<close> prints every integer as \<^verbatim>\<open>%d\<close> does, the least one included: it takes the digits from the
  truncated remainders, which are negative for a negative value, and never negates the value.
\<close>

lemma convert_decimal: "convert value = show_int value"
  by (rule convert_show_int)

text \<open>
  Reading the text of an address back in base sixteen gives the address, and the text has at
  most sixteen digits.
\<close>

lemma convertHex_roundtrip: "read_hex 0 (convertHex v) = unat v \<and> length (convertHex v) \<le> 16"
  using length_convertHex [of v] by (simp add: convertHex_def read_convertHex_loop)

end
