(* ===== verification/AsyncLogging.thy ===== *)
theory AsyncLogging
  imports LogStream
begin

text \<open>
  \<^verbatim>\<open>muduo/base/AsyncLogging.h\<close>, \<^verbatim>\<open>AsyncLogging.cc\<close>: the log buffers shared by the threads that log and the
  thread that writes the file. A unique pointer is an option, \<^term>\<open>None\<close> after it has been moved from or when
  it is null; using it then, or failing an assertion, has no result. A state also holds the local
  variables of the writing thread and the position it has reached. The actions are the critical
  sections of \<^verbatim>\<open>append\<close>, \<^verbatim>\<open>stop\<close> and the pieces of \<^verbatim>\<open>threadFunc\<close> between two points at which another thread can
  run, so a list of actions is an interleaving. The file is the sequence of the operations on it.
\<close>

section \<open>State\<close>

datatype file_op =
    File_append string
  | File_flush

datatype phase =
    AtStart    \<comment> \<open>before the thread function\<close>
  | AtLoop     \<comment> \<open>at the test of the loop\<close>
  | AtLock     \<comment> \<open>inside the loop, before taking the lock\<close>
  | Waiting    \<comment> \<open>in \<open>waitForSeconds\<close>, the lock released\<close>
  | Writing    \<comment> \<open>behind the critical section\<close>
  | Finished

record asynclogging =
  al_running :: bool
  al_current :: "fixedbuffer option"
  al_next :: "fixedbuffer option"
  al_buffers :: "fixedbuffer list"
  al_phase :: phase
  al_newBuffer1 :: "fixedbuffer option"
  al_newBuffer2 :: "fixedbuffer option"
  al_buffersToWrite :: "fixedbuffer list"
  al_output :: "file_op list"

definition LogBuffer_new :: fixedbuffer where
  "LogBuffer_new = FixedBuffer_bzero (FixedBuffer_new kLargeBuffer)"

definition AsyncLogging_new :: asynclogging where
  "AsyncLogging_new =
     \<lparr>al_running = False, al_current = Some LogBuffer_new, al_next = Some LogBuffer_new, al_buffers = [],
      al_phase = AtStart, al_newBuffer1 = None, al_newBuffer2 = None, al_buffersToWrite = [],
      al_output = []\<rparr>"

section \<open>Operations\<close>

definition AsyncLogging_append :: "string \<Rightarrow> asynclogging \<Rightarrow> asynclogging option" where
  "AsyncLogging_append logline a =
     do {
       current \<leftarrow> al_current a;
       if length logline < FixedBuffer_avail current then
         do {
           current \<leftarrow> FixedBuffer_append logline current;
           Some (a\<lparr>al_current := Some current\<rparr>) }
       else
         do {
           let a = a\<lparr>al_buffers := al_buffers a @ [current], al_current := None\<rparr>;
           let a = (case al_next a of
                      Some next \<Rightarrow> a\<lparr>al_current := Some next, al_next := None\<rparr>
                    | None \<Rightarrow> a\<lparr>al_current := Some (FixedBuffer_new kLargeBuffer)\<rparr>);
           current \<leftarrow> al_current a;
           current \<leftarrow> FixedBuffer_append logline current;
           Some (a\<lparr>al_current := Some current\<rparr>) } }"

text \<open>\<^verbatim>\<open>start()\<close> up to the start of the thread; it then waits for the latch of the thread function.\<close>

definition AsyncLogging_start :: "asynclogging \<Rightarrow> asynclogging" where
  "AsyncLogging_start a = a\<lparr>al_running := True\<rparr>"

text \<open>\<^verbatim>\<open>stop()\<close> up to the join; the notification lets a waiting thread go on, which it may do at any time.\<close>

definition AsyncLogging_stop :: "asynclogging \<Rightarrow> asynclogging" where
  "AsyncLogging_stop a = a\<lparr>al_running := False\<rparr>"

definition threadFunc_prologue :: "asynclogging \<Rightarrow> asynclogging option" where
  "threadFunc_prologue a =
     do {
       assert_that (al_running a);
       Some (a\<lparr>al_newBuffer1 := Some LogBuffer_new, al_newBuffer2 := Some LogBuffer_new,
               al_buffersToWrite := [], al_phase := AtLoop\<rparr>) }"

definition threadFunc_loop :: "asynclogging \<Rightarrow> asynclogging option" where
  "threadFunc_loop a =
     (if al_running a then
        do {
          newBuffer1 \<leftarrow> al_newBuffer1 a;
          assert_that (FixedBuffer_length newBuffer1 = 0);
          newBuffer2 \<leftarrow> al_newBuffer2 a;
          assert_that (FixedBuffer_length newBuffer2 = 0);
          assert_that (al_buffersToWrite a = []);
          Some (a\<lparr>al_phase := AtLock\<rparr>) }
      else Some (a\<lparr>al_output := al_output a @ [File_flush], al_phase := Finished\<rparr>))"

definition threadFunc_collect :: "asynclogging \<Rightarrow> asynclogging option" where
  "threadFunc_collect a =
     do {
       current \<leftarrow> al_current a;
       let a = a\<lparr>al_buffers := al_buffers a @ [current]\<rparr>;
       let a = a\<lparr>al_current := al_newBuffer1 a, al_newBuffer1 := None\<rparr>;
       let a = a\<lparr>al_buffersToWrite := al_buffers a, al_buffers := al_buffersToWrite a\<rparr>;
       let a = (if al_next a = None then a\<lparr>al_next := al_newBuffer2 a, al_newBuffer2 := None\<rparr> else a);
       Some (a\<lparr>al_phase := Writing\<rparr>) }"

definition threadFunc_lock :: "asynclogging \<Rightarrow> asynclogging option" where
  "threadFunc_lock a =
     (if al_buffers a = [] then Some (a\<lparr>al_phase := Waiting\<rparr>) else threadFunc_collect a)"

definition dropped_message :: "string \<Rightarrow> nat \<Rightarrow> string" where
  "dropped_message now n =
     take 255 (''Dropped log messages at '' @ now @ '', '' @ show_nat n @ '' larger buffers'' @ [CHR 0x0A])"

definition refill :: "fixedbuffer option \<Rightarrow> fixedbuffer list \<Rightarrow> (fixedbuffer option \<times> fixedbuffer list) option" where
  "refill newBuffer bs =
     (case newBuffer of
        Some b \<Rightarrow> Some (newBuffer, bs)
      | None \<Rightarrow>
          do {
            assert_that (bs \<noteq> []);
            Some (Some (FixedBuffer_reset (last bs)), butlast bs) })"

definition threadFunc_write :: "string \<Rightarrow> asynclogging \<Rightarrow> asynclogging option" where
  "threadFunc_write now a =
     do {
       let bs = al_buffersToWrite a;
       assert_that (bs \<noteq> []);
       let (out, bs) =
         (if 25 < length bs then ([File_append (dropped_message now (length bs - 2))], take 2 bs) else ([], bs));
       let out = out @ map (\<lambda>b. File_append (take (FixedBuffer_length b) (fb_data b))) bs;
       let bs = (if 2 < length bs then take 2 bs else bs);
       (newBuffer1, bs) \<leftarrow> refill (al_newBuffer1 a) bs;
       (newBuffer2, bs) \<leftarrow> refill (al_newBuffer2 a) bs;
       Some (a\<lparr>al_newBuffer1 := newBuffer1, al_newBuffer2 := newBuffer2, al_buffersToWrite := [],
               al_output := al_output a @ out @ [File_flush], al_phase := AtLoop\<rparr>) }"

text \<open>The next piece of the thread function. A wait may end by time out, notification or spuriously.\<close>

definition threadFunc :: "string \<Rightarrow> asynclogging \<Rightarrow> asynclogging option" where
  "threadFunc now a =
     (case al_phase a of
        AtStart \<Rightarrow> threadFunc_prologue a
      | AtLoop \<Rightarrow> threadFunc_loop a
      | AtLock \<Rightarrow> threadFunc_lock a
      | Waiting \<Rightarrow> threadFunc_collect a
      | Writing \<Rightarrow> threadFunc_write now a
      | Finished \<Rightarrow> Some a)"

datatype action =
    Append string
  | Backend string
  | Stop

fun al_step :: "action \<Rightarrow> asynclogging \<Rightarrow> asynclogging option" where
  "al_step (Append l) a = AsyncLogging_append l a"
| "al_step (Backend now) a = threadFunc now a"
| "al_step Stop a = Some (AsyncLogging_stop a)"

fun al_run :: "action list \<Rightarrow> asynclogging \<Rightarrow> asynclogging option" where
  "al_run [] a = Some a"
| "al_run (x # xs) a = do { a \<leftarrow> al_step x a; al_run xs a }"

section \<open>Invariant\<close>

definition good_buffer :: "fixedbuffer \<Rightarrow> bool" where
  "good_buffer b \<longleftrightarrow> FixedBuffer_inv b \<and> length (fb_data b) = kLargeBuffer"

definition fresh_buffer :: "fixedbuffer \<Rightarrow> bool" where
  "fresh_buffer b \<longleftrightarrow> good_buffer b \<and> fb_cur b = 0"

text \<open>The shared state: the spare buffer is gone only when a full one is waiting to be collected.\<close>

definition shared_inv :: "asynclogging \<Rightarrow> bool" where
  "shared_inv a \<longleftrightarrow>
     (\<exists>c. al_current a = Some c \<and> good_buffer c) \<and> list_all good_buffer (al_buffers a) \<and>
     (al_next a = None \<longrightarrow> al_buffers a \<noteq> []) \<and> (\<forall>b. al_next a = Some b \<longrightarrow> fresh_buffer b)"

text \<open>The local state of the writing thread.\<close>

definition local_inv :: "asynclogging \<Rightarrow> bool" where
  "local_inv a \<longleftrightarrow>
     (case al_phase a of
        AtStart \<Rightarrow> al_buffersToWrite a = []
      | Finished \<Rightarrow> al_buffersToWrite a = []
      | Writing \<Rightarrow>
          al_newBuffer1 a = None \<and> al_buffersToWrite a \<noteq> [] \<and> list_all good_buffer (al_buffersToWrite a) \<and>
          (al_newBuffer2 a = None \<longrightarrow> 2 \<le> length (al_buffersToWrite a)) \<and>
          (\<forall>b. al_newBuffer2 a = Some b \<longrightarrow> fresh_buffer b)
      | _ \<Rightarrow>
          al_buffersToWrite a = [] \<and>
          (\<exists>b1 b2. al_newBuffer1 a = Some b1 \<and> fresh_buffer b1 \<and> al_newBuffer2 a = Some b2 \<and> fresh_buffer b2))"

definition al_inv :: "asynclogging \<Rightarrow> bool" where
  "al_inv a \<longleftrightarrow> shared_inv a \<and> local_inv a \<and> (al_phase a = AtStart \<longrightarrow> al_running a)"

lemma local_inv_shared [simp]:
  "local_inv (a\<lparr>al_current := c\<rparr>) = local_inv a" "local_inv (a\<lparr>al_next := n\<rparr>) = local_inv a"
  "local_inv (a\<lparr>al_buffers := bs\<rparr>) = local_inv a" "local_inv (a\<lparr>al_running := r\<rparr>) = local_inv a"
  unfolding local_inv_def by (simp_all cong: phase.case_cong)

text \<open>The text in the file and the text that waits in memory, in the order of the calls.\<close>

fun file_text :: "file_op list \<Rightarrow> string" where
  "file_text [] = []"
| "file_text (File_append s # ops) = s @ file_text ops"
| "file_text (File_flush # ops) = file_text ops"

definition buffers_text :: "fixedbuffer list \<Rightarrow> string" where
  "buffers_text bs = concat (map FixedBuffer_toString bs)"

definition pending_text :: "asynclogging \<Rightarrow> string" where
  "pending_text a =
     buffers_text (al_buffersToWrite a) @ buffers_text (al_buffers a) @
     (case al_current a of None \<Rightarrow> [] | Some b \<Rightarrow> FixedBuffer_toString b)"

definition log_text :: "asynclogging \<Rightarrow> string" where
  "log_text a = file_text (al_output a) @ pending_text a"

lemma file_text_append [simp]: "file_text (xs @ ys) = file_text xs @ file_text ys"
  by (induction xs rule: file_text.induct) simp_all

lemma file_text_map [simp]: "file_text (map (\<lambda>b. File_append (f b)) bs) = concat (map f bs)"
  by (induction bs) simp_all

lemma buffers_text_simps [simp]:
  "buffers_text [] = []" "buffers_text (bs @ [b]) = buffers_text bs @ FixedBuffer_toString b"
  by (simp_all add: buffers_text_def)

lemma fresh_LogBuffer_new [simp]: "fresh_buffer LogBuffer_new" "fresh_buffer (FixedBuffer_new kLargeBuffer)"
  by (simp_all add: fresh_buffer_def good_buffer_def LogBuffer_new_def FixedBuffer_bzero_def FixedBuffer_new_def
      FixedBuffer_inv_def)

lemma fresh_good: "fresh_buffer b \<Longrightarrow> good_buffer b"
  by (simp add: fresh_buffer_def)

lemma fresh_toString [simp]: "fresh_buffer b \<Longrightarrow> FixedBuffer_toString b = []"
  by (simp add: fresh_buffer_def FixedBuffer_toString_def)

lemma fresh_reset: "good_buffer b \<Longrightarrow> fresh_buffer (FixedBuffer_reset b)"
  by (simp add: fresh_buffer_def good_buffer_def FixedBuffer_reset_def FixedBuffer_inv_def)

lemma fresh_avail: "fresh_buffer b \<Longrightarrow> FixedBuffer_avail b = kLargeBuffer"
  by (simp add: fresh_buffer_def good_buffer_def FixedBuffer_avail_def)

lemma good_append:
  assumes "good_buffer b"
  shows "\<exists>b'. FixedBuffer_append s b = Some b' \<and> good_buffer b' \<and>
    (length s < FixedBuffer_avail b \<longrightarrow> FixedBuffer_toString b' = FixedBuffer_toString b @ s)"
  using FixedBuffer_append_spec [of b s] assms by (auto simp: good_buffer_def put_spec_def)

section \<open>Every piece keeps the invariant\<close>

text \<open>\<open>keeps l a a'\<close>: the step keeps the invariant, and \<open>l\<close> is the text it adds to the log.\<close>

definition keeps :: "string \<Rightarrow> asynclogging \<Rightarrow> asynclogging \<Rightarrow> bool" where
  "keeps l a a' \<longleftrightarrow> al_inv a' \<and> log_text a' = log_text a @ l"

lemma AsyncLogging_append_spec:
  assumes "al_inv a"
  shows "\<exists>a'. AsyncLogging_append l a = Some a' \<and> al_inv a' \<and> al_phase a' = al_phase a \<and>
    (length l < kLargeBuffer \<longrightarrow> log_text a' = log_text a @ l)"
proof -
  from assms obtain c where c: "al_current a = Some c" "good_buffer c"
    by (auto simp: al_inv_def shared_inv_def)
  show ?thesis
  proof (cases "length l < FixedBuffer_avail c")
    case True
    obtain c' where "FixedBuffer_append l c = Some c'" "good_buffer c'"
      "length l < FixedBuffer_avail c \<longrightarrow> FixedBuffer_toString c' = FixedBuffer_toString c @ l"
      using good_append [OF c(2), of l] by blast
    with True assms c show ?thesis
      by (simp add: AsyncLogging_append_def al_inv_def shared_inv_def log_text_def pending_text_def)
  next
    case False
    define n where "n = (case al_next a of Some n \<Rightarrow> n | None \<Rightarrow> FixedBuffer_new kLargeBuffer)"
    have n: "fresh_buffer n"
      using assms by (auto simp: n_def al_inv_def shared_inv_def split: option.splits)
    obtain n' where "FixedBuffer_append l n = Some n'" "good_buffer n'"
      "length l < FixedBuffer_avail n \<longrightarrow> FixedBuffer_toString n' = FixedBuffer_toString n @ l"
      using good_append [OF fresh_good [OF n], of l] by blast
    with False assms c n show ?thesis
      by (cases "al_next a")
        (simp_all add: AsyncLogging_append_def al_inv_def shared_inv_def log_text_def
          pending_text_def n_def fresh_avail)
  qed
qed

lemma threadFunc_prologue_spec:
  "al_inv a \<Longrightarrow> al_phase a = AtStart \<Longrightarrow> \<exists>a'. threadFunc_prologue a = Some a' \<and> keeps [] a a' \<and> al_phase a' = AtLoop"
  by (simp add: threadFunc_prologue_def al_inv_def shared_inv_def local_inv_def keeps_def log_text_def pending_text_def)

lemma threadFunc_loop_spec:
  "al_inv a \<Longrightarrow> al_phase a = AtLoop \<Longrightarrow>
   \<exists>a'. threadFunc_loop a = Some a' \<and> keeps [] a a' \<and> al_phase a' \<noteq> AtStart"
  by (auto simp: threadFunc_loop_def al_inv_def shared_inv_def local_inv_def keeps_def log_text_def pending_text_def
      fresh_buffer_def FixedBuffer_length_def)

lemma threadFunc_collect_spec:
  assumes "al_inv a" "al_phase a = AtLock \<or> al_phase a = Waiting"
  shows "\<exists>a'. threadFunc_collect a = Some a' \<and> keeps [] a a' \<and> al_phase a' = Writing"
proof -
  from assms obtain c where c: "al_current a = Some c" "good_buffer c"
    by (auto simp: al_inv_def shared_inv_def)
  from assms obtain b1 b2 where b: "al_newBuffer1 a = Some b1" "fresh_buffer b1" "al_newBuffer2 a = Some b2" "fresh_buffer b2"
    "al_buffersToWrite a = []"
    by (auto simp: al_inv_def local_inv_def)
  show ?thesis
    using assms(1) c b
    by (cases "al_next a"; cases "al_buffers a")
      (auto simp: threadFunc_collect_def al_inv_def shared_inv_def local_inv_def keeps_def log_text_def
        pending_text_def fresh_good buffers_text_def)
qed

lemma threadFunc_lock_spec:
  assumes "al_inv a" "al_phase a = AtLock"
  shows "\<exists>a'. threadFunc_lock a = Some a' \<and> keeps [] a a' \<and> al_phase a' \<noteq> AtStart"
proof (cases "al_buffers a = []")
  case True
  with assms show ?thesis
    by (simp add: threadFunc_lock_def al_inv_def shared_inv_def local_inv_def keeps_def log_text_def pending_text_def)
next
  case False
  with threadFunc_collect_spec [OF assms(1)] assms(2) show ?thesis by (auto simp: threadFunc_lock_def)
qed

lemma refill_spec:
  assumes "newBuffer = None \<longrightarrow> bs \<noteq> []" "list_all good_buffer bs" "\<forall>b. newBuffer = Some b \<longrightarrow> fresh_buffer b"
  shows "\<exists>b bs'. refill newBuffer bs = Some (Some b, bs') \<and> fresh_buffer b \<and> list_all good_buffer bs' \<and>
    length bs \<le> length bs' + (if newBuffer = None then 1 else 0)"
proof (cases newBuffer)
  case None
  with assms have "good_buffer (last bs)" "list_all good_buffer (butlast bs)"
    by (auto simp: list_all_iff dest: in_set_butlastD)
  with None assms show ?thesis by (simp add: refill_def fresh_reset)
next
  case (Some b)
  with assms show ?thesis by (simp add: refill_def)
qed

lemma threadFunc_write_spec:
  assumes "al_inv a" "al_phase a = Writing"
  shows "\<exists>a'. threadFunc_write now a = Some a' \<and> al_inv a' \<and> al_phase a' = AtLoop \<and>
    (length (al_buffersToWrite a) \<le> 25 \<longrightarrow> log_text a' = log_text a)"
proof -
  let ?bs = "al_buffersToWrite a"
  from assms have l: "al_newBuffer1 a = None" "?bs \<noteq> []" "list_all good_buffer ?bs"
    "al_newBuffer2 a = None \<longrightarrow> 2 \<le> length ?bs" "\<forall>b. al_newBuffer2 a = Some b \<longrightarrow> fresh_buffer b"
    by (simp_all add: al_inv_def local_inv_def)
  have t: "take 2 (take 2 ?bs) = take 2 ?bs" by simp
  have good: "list_all good_buffer (take 2 ?bs)"
    using l(3) by (auto simp: list_all_iff dest: in_set_takeD)
  obtain b1 bs1 where r1: "refill None (take 2 ?bs) = Some (Some b1, bs1)" "fresh_buffer b1" "list_all good_buffer bs1"
    "length (take 2 ?bs) \<le> length bs1 + 1"
    using refill_spec [of None "take 2 ?bs"] l(2) good by auto
  have "al_newBuffer2 a = None \<longrightarrow> bs1 \<noteq> []" using r1(4) l(4) by auto
  then obtain b2 bs2 where r2: "refill (al_newBuffer2 a) bs1 = Some (Some b2, bs2)" "fresh_buffer b2"
    using refill_spec [of "al_newBuffer2 a" bs1] r1(3) l(5) by auto
  have e: "(if 2 < length xs then take 2 xs else xs) = take 2 xs" for xs :: "fixedbuffer list" by simp
  define out where "out = (if 25 < length ?bs then [File_append (dropped_message now (length ?bs - 2))] else []) @
    map (\<lambda>b. File_append (take (FixedBuffer_length b) (fb_data b))) (if 25 < length ?bs then take 2 ?bs else ?bs)"
  have w: "threadFunc_write now a = Some (a\<lparr>al_newBuffer1 := Some b1, al_newBuffer2 := Some b2, al_buffersToWrite := [],
      al_output := al_output a @ out @ [File_flush], al_phase := AtLoop\<rparr>)"
    using l(1,2) r1(1) r2(1) by (simp add: threadFunc_write_def e out_def Let_def)
  have "file_text out = buffers_text ?bs" if "length ?bs \<le> 25"
    using that by (simp add: out_def buffers_text_def FixedBuffer_toString_def [abs_def] FixedBuffer_length_def)
  with assms r1(2) r2(2) show ?thesis
    by (simp add: w al_inv_def shared_inv_def local_inv_def log_text_def pending_text_def)
qed

lemma threadFunc_spec:
  assumes "al_inv a"
  shows "\<exists>a'. threadFunc now a = Some a' \<and> al_inv a' \<and> al_phase a' \<noteq> AtStart \<and>
    (length (al_buffersToWrite a) \<le> 25 \<longrightarrow> log_text a' = log_text a)"
proof (cases "al_phase a")
  case AtStart
  with threadFunc_prologue_spec [OF assms] show ?thesis by (auto simp: threadFunc_def keeps_def)
next
  case AtLoop
  with threadFunc_loop_spec [OF assms] show ?thesis by (auto simp: threadFunc_def keeps_def)
next
  case AtLock
  with threadFunc_lock_spec [OF assms] show ?thesis by (auto simp: threadFunc_def keeps_def)
next
  case Waiting
  with threadFunc_collect_spec [OF assms] show ?thesis by (auto simp: threadFunc_def keeps_def)
next
  case Writing
  with threadFunc_write_spec [OF assms, of now] show ?thesis by (auto simp: threadFunc_def)
next
  case Finished
  with assms show ?thesis by (simp add: threadFunc_def)
qed

section \<open>Interleavings\<close>

fun action_text :: "action \<Rightarrow> string" where
  "action_text (Append l) = l"
| "action_text _ = []"

text \<open>Lines that fit in a buffer, and interleavings in which the writing thread is never more than 25 buffers behind.\<close>

fun short_line :: "action \<Rightarrow> bool" where
  "short_line (Append l) \<longleftrightarrow> length l < kLargeBuffer"
| "short_line _ \<longleftrightarrow> True"

fun keeps_up :: "action list \<Rightarrow> asynclogging \<Rightarrow> bool" where
  "keeps_up [] a \<longleftrightarrow> True"
| "keeps_up (x # xs) a \<longleftrightarrow>
     length (al_buffersToWrite a) \<le> 25 \<and>
     (case al_step x a of None \<Rightarrow> False | Some a' \<Rightarrow> keeps_up xs a')"

text \<open>\<^verbatim>\<open>stop()\<close> may be called once \<^verbatim>\<open>start()\<close> has returned, and the thread function has then begun.\<close>

fun stops_after_start :: "action list \<Rightarrow> bool" where
  "stops_after_start [] \<longleftrightarrow> True"
| "stops_after_start (Append _ # xs) \<longleftrightarrow> stops_after_start xs"
| "stops_after_start (Backend _ # xs) \<longleftrightarrow> True"
| "stops_after_start (Stop # xs) \<longleftrightarrow> False"

lemma al_step_spec:
  assumes "al_inv a" "al_phase a \<noteq> AtStart \<or> x \<noteq> Stop"
  shows "\<exists>a'. al_step x a = Some a' \<and> al_inv a' \<and> (al_phase a' = AtStart \<longrightarrow> al_phase a = AtStart \<and> (\<exists>l. x = Append l)) \<and>
    (short_line x \<and> length (al_buffersToWrite a) \<le> 25 \<longrightarrow> log_text a' = log_text a @ action_text x)"
proof (cases x)
  case (Append l)
  with AsyncLogging_append_spec [OF assms(1), of l] show ?thesis by auto
next
  case (Backend now)
  with threadFunc_spec [OF assms(1), of now] show ?thesis by auto
next
  case Stop
  with assms show ?thesis
    by (auto simp: AsyncLogging_stop_def al_inv_def shared_inv_def log_text_def pending_text_def)
qed

lemma al_run_spec:
  "al_inv a \<Longrightarrow> al_phase a \<noteq> AtStart \<or> stops_after_start xs \<Longrightarrow>
   \<exists>a'. al_run xs a = Some a' \<and> al_inv a' \<and>
     (list_all short_line xs \<and> keeps_up xs a \<longrightarrow> log_text a' = log_text a @ concat (map action_text xs))"
proof (induction xs arbitrary: a)
  case (Cons x xs)
  have "al_phase a \<noteq> AtStart \<or> x \<noteq> Stop" using Cons.prems(2) by auto
  from al_step_spec [OF Cons.prems(1) this] obtain a' where
    a': "al_step x a = Some a'" "al_inv a'" "al_phase a' = AtStart \<longrightarrow> al_phase a = AtStart \<and> (\<exists>l. x = Append l)"
    "short_line x \<and> length (al_buffersToWrite a) \<le> 25 \<longrightarrow> log_text a' = log_text a @ action_text x"
    by blast
  have "al_phase a' \<noteq> AtStart \<or> stops_after_start xs" using a'(3) Cons.prems(2) by auto
  from Cons.IH [OF a'(2) this] a'(1,4) show ?case by auto
qed simp

lemma al_inv_start: "al_inv (AsyncLogging_start AsyncLogging_new)"
  by (simp add: AsyncLogging_start_def AsyncLogging_new_def al_inv_def shared_inv_def local_inv_def fresh_good)

text \<open>A writing thread cannot fall behind by more buffers than lines were logged.\<close>

fun is_append :: "action \<Rightarrow> bool" where
  "is_append (Append _) = True"
| "is_append _ = False"

lemma al_step_lengths:
  "al_step x a = Some a' \<Longrightarrow> al_inv a \<Longrightarrow>
   length (al_buffers a') \<le> length (al_buffers a) + (if is_append x then 1 else 0) \<and>
   length (al_buffersToWrite a') \<le> max (length (al_buffersToWrite a)) (length (al_buffers a) + 1)"
proof (cases x)
  case (Append l)
  moreover assume "al_step x a = Some a'"
  ultimately show ?thesis
    by (auto simp: AsyncLogging_append_def Let_def split: if_splits option.splits bind_splits)
next
  case (Backend now)
  moreover assume "al_step x a = Some a'" "al_inv a"
  ultimately show ?thesis
    by (auto simp: threadFunc_def threadFunc_prologue_def threadFunc_loop_def threadFunc_lock_def
        threadFunc_collect_def threadFunc_write_def al_inv_def local_inv_def Let_def
        split: phase.splits if_splits bind_splits)
next
  case Stop
  moreover assume "al_step x a = Some a'"
  ultimately show ?thesis by (auto simp: AsyncLogging_stop_def)
qed

lemma keeps_up_few:
  "al_inv a \<Longrightarrow> al_phase a \<noteq> AtStart \<or> stops_after_start xs \<Longrightarrow> length (al_buffersToWrite a) \<le> 25 \<Longrightarrow>
   length (al_buffers a) + length (filter is_append xs) \<le> 24 \<Longrightarrow> keeps_up xs a"
proof (induction xs arbitrary: a)
  case (Cons x xs)
  have "al_phase a \<noteq> AtStart \<or> x \<noteq> Stop" using Cons.prems(2) by auto
  from al_step_spec [OF Cons.prems(1) this] obtain a' where
    a': "al_step x a = Some a'" "al_inv a'" "al_phase a' = AtStart \<longrightarrow> al_phase a = AtStart \<and> (\<exists>l. x = Append l)"
    by blast
  have "al_phase a' \<noteq> AtStart \<or> stops_after_start xs" using a'(3) Cons.prems(2) by auto
  with Cons.IH [OF a'(2)] al_step_lengths [OF a'(1) Cons.prems(1)] Cons.prems(3,4) a'(1)
  show ?case by (auto split: if_splits)
qed simp

text \<open>
  C29. In every interleaving of the threads that log, the writing thread and \<^verbatim>\<open>stop()\<close>, no assertion of
  the writing thread fails and no null buffer is used; and as long as lines are shorter than a
  buffer and the writing thread is at most 25 buffers behind, the file followed by what is still in
  memory is exactly the text logged, in order.
\<close>

theorem AsyncLogging_safe:
  assumes "stops_after_start xs"
  shows "\<exists>a. al_run xs (AsyncLogging_start AsyncLogging_new) = Some a \<and> al_inv a \<and>
    (list_all short_line xs \<and> keeps_up xs (AsyncLogging_start AsyncLogging_new) \<longrightarrow>
       file_text (al_output a) @ pending_text a = concat (map action_text xs))"
proof -
  have "log_text (AsyncLogging_start AsyncLogging_new) = []"
    by (simp add: log_text_def pending_text_def AsyncLogging_start_def AsyncLogging_new_def)
  with al_run_spec [OF al_inv_start, of xs] assms show ?thesis by (auto simp: log_text_def)
qed

theorem AsyncLogging_safe_witness:
  "\<exists>a. al_run [Append ''a'', Backend ''t'', Append ''b'', Stop] (AsyncLogging_start AsyncLogging_new) = Some a \<and>
    al_inv a \<and> file_text (al_output a) @ pending_text a = ''ab''"
proof -
  let ?xs = "[Append ''a'', Backend ''t'', Append ''b'', Stop]"
  have "keeps_up ?xs (AsyncLogging_start AsyncLogging_new)"
    by (rule keeps_up_few [OF al_inv_start]) (simp_all add: AsyncLogging_start_def AsyncLogging_new_def)
  moreover have "list_all short_line ?xs" by (simp add: kLargeBuffer_def)
  ultimately show ?thesis using AsyncLogging_safe [of ?xs] by (auto simp del: al_run.simps keeps_up.simps)
qed

lemma al_run_append: "al_run (xs @ ys) a = do { a \<leftarrow> al_run xs a; al_run ys a }"
  by (induction xs arbitrary: a) (auto split: bind_splits)

lemma al_run_Finished: "al_phase a = Finished \<Longrightarrow> al_run (map Backend ts) a = Some a"
  by (induction ts) (simp_all add: threadFunc_def)

text \<open>
  C30. What was logged since the writing thread last collected the buffers is never written when
  \<^verbatim>\<open>stop()\<close> is called while that thread is at the test of its loop: the thread finishes and the text stays
  in memory.
\<close>

theorem AsyncLogging_stop_loses:
  assumes "al_run xs (AsyncLogging_start AsyncLogging_new) = Some a" "al_phase a = AtLoop"
  shows "\<exists>a'. al_run (xs @ Stop # map Backend (t # ts)) (AsyncLogging_start AsyncLogging_new) = Some a' \<and>
    al_phase a' = Finished \<and> file_text (al_output a') = file_text (al_output a) \<and> pending_text a' = pending_text a"
proof -
  let ?a = "a\<lparr>al_running := False, al_output := al_output a @ [File_flush], al_phase := Finished\<rparr>"
  have "al_run (Stop # map Backend (t # ts)) a = al_run (map Backend ts) ?a"
    using assms(2) by (simp add: AsyncLogging_stop_def threadFunc_def threadFunc_loop_def)
  also have "\<dots> = Some ?a" by (rule al_run_Finished) simp
  finally show ?thesis using assms(1) by (simp add: al_run_append pending_text_def del: al_run.simps)
qed

theorem AsyncLogging_stop_loses_witness:
  "\<exists>a'. al_run ([Backend ''t'', Append ''x''] @ Stop # map Backend [''t'', ''u'']) (AsyncLogging_start AsyncLogging_new) = Some a' \<and>
    al_phase a' = Finished \<and> file_text (al_output a') = [] \<and> pending_text a' = ''x''"
proof -
  let ?s = "AsyncLogging_start AsyncLogging_new"
  obtain b where b: "FixedBuffer_append ''x'' LogBuffer_new = Some b" "FixedBuffer_toString b = ''x''"
    using good_append [OF fresh_good [OF fresh_LogBuffer_new(1)], of "''x''"]
    by (auto simp: fresh_avail kLargeBuffer_def)
  obtain a where a: "al_run [Backend ''t'', Append ''x''] ?s = Some a" "al_phase a = AtLoop"
    "al_output a = []" "pending_text a = ''x''"
    using b by (auto simp: AsyncLogging_start_def AsyncLogging_new_def threadFunc_def threadFunc_prologue_def
        AsyncLogging_append_def fresh_avail kLargeBuffer_def pending_text_def)
  from AsyncLogging_stop_loses [OF a(1,2), of "''t''" "[''u'']"] a(3,4) show ?thesis
    by (auto simp del: al_run.simps)
qed

end
