(* ===== verification/Monitor.thy ===== *)
theory Monitor
  imports Prelude
begin

text \<open>
  \<^verbatim>\<open>muduo/base/Condition.h\<close>, \<^verbatim>\<open>CountDownLatch\<close>, \<^verbatim>\<open>BlockingQueue.h\<close> and \<^verbatim>\<open>BoundedBlockingQueue.h\<close>. A method that
  holds the mutex runs without interruption up to its end or to a wait, which puts the thread with
  its arguments into the list \<open>cv_waiting\<close>. A notification moves a thread of the scheduler's choice to
  \<open>cv_woken\<close>; a spurious wakeup does the same. A woken thread resumes at the test of its loop. The
  events of a run are calls, resumptions and spurious wakeups in any order. The locale
  \<open>signalling\<close> states what every use of a condition variable here keeps to and derives that no wakeup
  is lost.
\<close>

section \<open>Condition variables\<close>

record 'w condvar =
  cv_waiting :: "'w list"
  cv_woken :: "'w list"

definition Condition_new :: "'w condvar" where
  "Condition_new = \<lparr>cv_waiting = [], cv_woken = []\<rparr>"

definition Condition_wait :: "'w \<Rightarrow> 'w condvar \<Rightarrow> 'w condvar" where
  "Condition_wait w c = c\<lparr>cv_waiting := cv_waiting c @ [w]\<rparr>"

definition remove_nth :: "nat \<Rightarrow> 'a list \<Rightarrow> 'a list" where
  "remove_nth k xs = take k xs @ drop (Suc k) xs"

definition Condition_notify :: "nat \<Rightarrow> 'w condvar \<Rightarrow> 'w condvar" where
  "Condition_notify choice c =
     (if cv_waiting c = [] then c
      else
        let k = choice mod length (cv_waiting c)
        in c\<lparr>cv_waiting := remove_nth k (cv_waiting c), cv_woken := cv_woken c @ [cv_waiting c ! k]\<rparr>)"

definition Condition_notifyAll :: "'w condvar \<Rightarrow> 'w condvar" where
  "Condition_notifyAll c = c\<lparr>cv_waiting := [], cv_woken := cv_woken c @ cv_waiting c\<rparr>"

text \<open>The \<open>k\<close>-th woken thread gets the mutex back.\<close>

definition Condition_resume :: "nat \<Rightarrow> 'w condvar \<Rightarrow> ('w \<times> 'w condvar) option" where
  "Condition_resume k c =
     (if k < length (cv_woken c) then Some (cv_woken c ! k, c\<lparr>cv_woken := remove_nth k (cv_woken c)\<rparr>) else None)"

lemma length_remove_nth [simp]: "k < length xs \<Longrightarrow> length (remove_nth k xs) = length xs - 1"
  by (simp add: remove_nth_def)

lemma Condition_new_simps [simp]: "cv_waiting Condition_new = []" "cv_woken Condition_new = []"
  by (simp_all add: Condition_new_def)

lemma Condition_wait_simps [simp]:
  "cv_waiting (Condition_wait w c) = cv_waiting c @ [w]" "cv_woken (Condition_wait w c) = cv_woken c"
  by (simp_all add: Condition_wait_def)

lemma Condition_notifyAll_simps [simp]:
  "cv_waiting (Condition_notifyAll c) = []" "cv_woken (Condition_notifyAll c) = cv_woken c @ cv_waiting c"
  by (simp_all add: Condition_notifyAll_def)

lemma Condition_notify_lengths [simp]:
  "length (cv_waiting (Condition_notify i c)) = length (cv_waiting c) - 1"
  "length (cv_woken (Condition_notify i c)) = length (cv_woken c) + (if cv_waiting c = [] then 0 else 1)"
  by (simp_all add: Condition_notify_def Let_def)

lemma Condition_resume_cases:
  obtains "Condition_resume k c = None"
  | w c' where "Condition_resume k c = Some (w, c')" "cv_waiting c' = cv_waiting c"
    "length (cv_woken c) = length (cv_woken c') + 1"
  by (cases "k < length (cv_woken c)") (auto simp: Condition_resume_def intro: that)

section \<open>Signalling\<close>

text \<open>
  The moves a use of a condition variable may make on the number of units available (items, free
  slots), of waiting and of woken threads: nothing, a unit released with a notification, a unit
  consumed, a thread that finds none and blocks, a spurious wakeup; or no thread waits afterwards.
\<close>

fun cv_move :: "nat \<times> nat \<times> nat \<Rightarrow> nat \<times> nat \<times> nat \<Rightarrow> bool" where
  "cv_move (a, w, k) (a', w', k') \<longleftrightarrow>
     (a' = a \<and> w' = w \<and> k' = k) \<or>
     (a' = a + 1 \<and> w' = w - 1 \<and> k' = (if w = 0 then k else k + 1)) \<or>
     (a = a' + 1 \<and> w' = w \<and> (k' = k \<or> k = k' + 1)) \<or>
     (a = 0 \<and> a' = 0 \<and> w' = w + 1 \<and> (k' = k \<or> k = k' + 1)) \<or>
     (a' = a \<and> w = w' + 1 \<and> k' = k + 1) \<or>
     w' = 0"

lemma cv_move_consume:
  assumes "k0 = k \<or> k0 = k + 1" "a = 0 \<longrightarrow> m' = (0, w + 1, k)" "0 < a \<longrightarrow> m' = (a - 1, w, k)"
  shows "cv_move (a, w, k0) m'"
  using assms by (cases a) auto

lemma cv_move_release: "cv_move (a, w, k) (a + 1, w - 1, k + (if w = 0 then 0 else 1))"
  by simp

lemma cv_move_spurious: "cv_move (a, w, k) (a, w - 1, k + (if w = 0 then 0 else 1))"
  by simp

lemma cv_move_refl: "cv_move m m"
  by (cases m) simp

declare cv_move.simps [simp del]

definition covered :: "nat \<times> nat \<times> nat \<Rightarrow> bool" where
  "covered = (\<lambda>(a, w, k). w = 0 \<or> a \<le> k)"

lemma covered_move: "cv_move m m' \<Longrightarrow> covered m \<Longrightarrow> covered m'"
  by (cases m; cases m') (auto simp: covered_def cv_move.simps split: if_splits)

text \<open>A run of events, with the outputs of its steps.\<close>

primrec event_run :: "('e \<Rightarrow> 's \<Rightarrow> ('s \<times> 'o list) option) \<Rightarrow> 'e list \<Rightarrow> 's \<Rightarrow> ('s \<times> 'o list) option" where
  "event_run step [] s = Some (s, [])"
| "event_run step (e # es) s =
     do {
       (s, out) \<leftarrow> step e s;
       (s, outs) \<leftarrow> event_run step es s;
       Some (s, out @ outs) }"

abbreviation counts :: "('s \<Rightarrow> nat) \<Rightarrow> ('s \<Rightarrow> 'w condvar) \<Rightarrow> 's \<Rightarrow> nat \<times> nat \<times> nat" where
  "counts units condition s \<equiv> (units s, length (cv_waiting (condition s)), length (cv_woken (condition s)))"

locale signalling =
  fixes step :: "'e \<Rightarrow> 's \<Rightarrow> ('s \<times> 'o list) option"
    and units :: "'s \<Rightarrow> nat"
    and condition :: "'s \<Rightarrow> 'w condvar"
    and inv :: "'s \<Rightarrow> bool"
  assumes step_moves:
    "inv s \<Longrightarrow> step e s = Some (s', out) \<Longrightarrow> cv_move (counts units condition s) (counts units condition s')"
    and step_inv: "inv s \<Longrightarrow> \<exists>s' out. step e s = Some (s', out) \<and> inv s'"
begin

lemma run_covered:
  "inv s \<Longrightarrow> covered (counts units condition s) \<Longrightarrow>
   \<exists>s' out. event_run step es s = Some (s', out) \<and> inv s' \<and> covered (counts units condition s')"
proof (induction es arbitrary: s)
  case (Cons e es)
  from step_inv [OF Cons.prems(1), of e] obtain s' out where
    s': "step e s = Some (s', out)" "inv s'" by blast
  from step_moves [OF Cons.prems(1) s'(1)] have "covered (counts units condition s')"
    by (rule covered_move) (rule Cons.prems(2))
  from Cons.IH [OF s'(2) this] s'(1) show ?case by auto
qed simp

lemma run_inv: "inv s \<Longrightarrow> \<exists>s' out. event_run step es s = Some (s', out) \<and> inv s'"
proof (induction es arbitrary: s)
  case (Cons e es)
  from step_inv [OF Cons.prems(1), of e] obtain s' out where
    s': "step e s = Some (s', out)" "inv s'" by blast
  from Cons.IH [OF s'(2)] s'(1) show ?case by auto
qed simp

lemma not_stuck:
  assumes "inv s" "cv_waiting (condition s) = []" "event_run step es s = Some (s', out)"
    "0 < units s'" "cv_waiting (condition s') \<noteq> []"
  shows "cv_woken (condition s') \<noteq> []"
proof -
  have "covered (counts units condition s)" using assms(2) by (simp add: covered_def)
  from run_covered [OF assms(1) this, of es] assms(3-5) show ?thesis by (auto simp: covered_def)
qed

end

section \<open>BlockingQueue\<close>

text \<open>An output is an element that entered the queue, or one that a call returned.\<close>

datatype 'a transfer =
    Pushed 'a
  | Took nat 'a

record 'a blockingqueue =
  q_queue :: "'a list"
  q_notEmpty :: "nat condvar"

definition BlockingQueue_new :: "'a blockingqueue" where
  "BlockingQueue_new = \<lparr>q_queue = [], q_notEmpty = Condition_new\<rparr>"

definition BlockingQueue_put :: "'a \<Rightarrow> nat \<Rightarrow> 'a blockingqueue \<Rightarrow> ('a blockingqueue \<times> 'a transfer list) option" where
  "BlockingQueue_put x choice q =
     Some (q\<lparr>q_queue := q_queue q @ [x], q_notEmpty := Condition_notify choice (q_notEmpty q)\<rparr>, [Pushed x])"

text \<open>\<^verbatim>\<open>take()\<close> from the test of the loop on, for the thread \<open>t\<close>.\<close>

definition BlockingQueue_take :: "nat \<Rightarrow> 'a blockingqueue \<Rightarrow> ('a blockingqueue \<times> 'a transfer list) option" where
  "BlockingQueue_take t q =
     (if q_queue q = [] then Some (q\<lparr>q_notEmpty := Condition_wait t (q_notEmpty q)\<rparr>, [])
      else
        do {
          assert_that (q_queue q \<noteq> []);
          Some (q\<lparr>q_queue := tl (q_queue q)\<rparr>, [Took t (hd (q_queue q))]) })"

definition BlockingQueue_size :: "'a blockingqueue \<Rightarrow> nat" where
  "BlockingQueue_size q = length (q_queue q)"

datatype 'a queue_event =
    Put nat 'a nat
  | Take nat nat
  | ResumePut nat nat
  | ResumeTake nat nat
  | SpuriousPut nat
  | SpuriousTake nat

text \<open>No thread blocks in \<^verbatim>\<open>put()\<close> here, so its resumption and its wakeup do nothing.\<close>

fun BlockingQueue_step :: "'a queue_event \<Rightarrow> 'a blockingqueue \<Rightarrow> ('a blockingqueue \<times> 'a transfer list) option" where
  "BlockingQueue_step (Put _ x choice) q = BlockingQueue_put x choice q"
| "BlockingQueue_step (Take t _) q = BlockingQueue_take t q"
| "BlockingQueue_step (ResumeTake k _) q =
     (case Condition_resume k (q_notEmpty q) of
        None \<Rightarrow> Some (q, [])
      | Some (t, c) \<Rightarrow> BlockingQueue_take t (q\<lparr>q_notEmpty := c\<rparr>))"
| "BlockingQueue_step (SpuriousTake k) q = Some (q\<lparr>q_notEmpty := Condition_notify k (q_notEmpty q)\<rparr>, [])"
| "BlockingQueue_step (ResumePut _ _) q = Some (q, [])"
| "BlockingQueue_step (SpuriousPut _) q = Some (q, [])"

section \<open>BoundedBlockingQueue\<close>

record 'a boundedqueue =
  b_queue :: "'a list"
  b_capacity :: nat
  b_notEmpty :: "nat condvar"
  b_notFull :: "(nat \<times> 'a) condvar"

definition BoundedBlockingQueue_new :: "nat \<Rightarrow> 'a boundedqueue" where
  "BoundedBlockingQueue_new maxSize =
     \<lparr>b_queue = [], b_capacity = maxSize, b_notEmpty = Condition_new, b_notFull = Condition_new\<rparr>"

definition BoundedBlockingQueue_full :: "'a boundedqueue \<Rightarrow> bool" where
  "BoundedBlockingQueue_full q \<longleftrightarrow> length (b_queue q) = b_capacity q"

definition BoundedBlockingQueue_empty :: "'a boundedqueue \<Rightarrow> bool" where
  "BoundedBlockingQueue_empty q \<longleftrightarrow> b_queue q = []"

definition BoundedBlockingQueue_size :: "'a boundedqueue \<Rightarrow> nat" where
  "BoundedBlockingQueue_size q = length (b_queue q)"

text \<open>\<^verbatim>\<open>put()\<close> and \<^verbatim>\<open>take()\<close> from the test of the loop on.\<close>

definition BoundedBlockingQueue_put ::
  "nat \<Rightarrow> 'a \<Rightarrow> nat \<Rightarrow> 'a boundedqueue \<Rightarrow> ('a boundedqueue \<times> 'a transfer list) option" where
  "BoundedBlockingQueue_put t x choice q =
     (if BoundedBlockingQueue_full q then Some (q\<lparr>b_notFull := Condition_wait (t, x) (b_notFull q)\<rparr>, [])
      else
        do {
          assert_that (\<not> BoundedBlockingQueue_full q);
          Some (q\<lparr>b_queue := b_queue q @ [x], b_notEmpty := Condition_notify choice (b_notEmpty q)\<rparr>, [Pushed x]) })"

definition BoundedBlockingQueue_take ::
  "nat \<Rightarrow> nat \<Rightarrow> 'a boundedqueue \<Rightarrow> ('a boundedqueue \<times> 'a transfer list) option" where
  "BoundedBlockingQueue_take t choice q =
     (if b_queue q = [] then Some (q\<lparr>b_notEmpty := Condition_wait t (b_notEmpty q)\<rparr>, [])
      else
        do {
          assert_that (b_queue q \<noteq> []);
          Some (q\<lparr>b_queue := tl (b_queue q), b_notFull := Condition_notify choice (b_notFull q)\<rparr>,
                [Took t (hd (b_queue q))]) })"

fun BoundedBlockingQueue_step :: "'a queue_event \<Rightarrow> 'a boundedqueue \<Rightarrow> ('a boundedqueue \<times> 'a transfer list) option" where
  "BoundedBlockingQueue_step (Put t x choice) q = BoundedBlockingQueue_put t x choice q"
| "BoundedBlockingQueue_step (Take t choice) q = BoundedBlockingQueue_take t choice q"
| "BoundedBlockingQueue_step (ResumePut k choice) q =
     (case Condition_resume k (b_notFull q) of
        None \<Rightarrow> Some (q, [])
      | Some ((t, x), c) \<Rightarrow> BoundedBlockingQueue_put t x choice (q\<lparr>b_notFull := c\<rparr>))"
| "BoundedBlockingQueue_step (ResumeTake k choice) q =
     (case Condition_resume k (b_notEmpty q) of
        None \<Rightarrow> Some (q, [])
      | Some (t, c) \<Rightarrow> BoundedBlockingQueue_take t choice (q\<lparr>b_notEmpty := c\<rparr>))"
| "BoundedBlockingQueue_step (SpuriousPut k) q = Some (q\<lparr>b_notFull := Condition_notify k (b_notFull q)\<rparr>, [])"
| "BoundedBlockingQueue_step (SpuriousTake k) q = Some (q\<lparr>b_notEmpty := Condition_notify k (b_notEmpty q)\<rparr>, [])"

section \<open>Correctness\<close>

lemma BlockingQueue_take_moves:
  assumes "BlockingQueue_take t q = Some (q', out)" "length (cv_waiting (q_notEmpty q)) = w"
    "k0 = length (cv_woken (q_notEmpty q)) \<or> k0 = length (cv_woken (q_notEmpty q)) + 1"
  shows "cv_move (BlockingQueue_size q, w, k0) (counts BlockingQueue_size q_notEmpty q')"
proof (rule cv_move_consume [OF assms(3)])
  show "BlockingQueue_size q = 0 \<longrightarrow>
    counts BlockingQueue_size q_notEmpty q' = (0, w + 1, length (cv_woken (q_notEmpty q)))"
    using assms(1) unfolding assms(2) [symmetric] by (auto simp: BlockingQueue_take_def BlockingQueue_size_def)
  show "0 < BlockingQueue_size q \<longrightarrow>
    counts BlockingQueue_size q_notEmpty q' = (BlockingQueue_size q - 1, w, length (cv_woken (q_notEmpty q)))"
    using assms(1) unfolding assms(2) [symmetric] by (auto simp: BlockingQueue_take_def BlockingQueue_size_def)
qed

lemma BlockingQueue_moves:
  assumes "BlockingQueue_step e q = Some (q', out)"
  shows "cv_move (counts BlockingQueue_size q_notEmpty q) (counts BlockingQueue_size q_notEmpty q')"
proof (cases e)
  case (Put t x i)
  with assms cv_move_release [of "length (q_queue q)" "length (cv_waiting (q_notEmpty q))" "length (cv_woken (q_notEmpty q))"]
  show ?thesis by (auto simp: BlockingQueue_put_def BlockingQueue_size_def)
next
  case (Take t i)
  with assms BlockingQueue_take_moves [of t q q' out] show ?thesis by simp
next
  case (ResumeTake k i)
  show ?thesis
  proof (rule Condition_resume_cases [of k "q_notEmpty q"])
    fix t c
    assume c: "Condition_resume k (q_notEmpty q) = Some (t, c)" "cv_waiting c = cv_waiting (q_notEmpty q)"
      "length (cv_woken (q_notEmpty q)) = length (cv_woken c) + 1"
    with assms ResumeTake have "BlockingQueue_take t (q\<lparr>q_notEmpty := c\<rparr>) = Some (q', out)" by simp
    from BlockingQueue_take_moves [OF this refl] c(2,3) show ?thesis by (simp add: BlockingQueue_size_def)
  qed (use assms ResumeTake in \<open>simp_all add: cv_move_refl\<close>)
next
  case (SpuriousTake k)
  with assms cv_move_spurious [of "length (q_queue q)" "length (cv_waiting (q_notEmpty q))" "length (cv_woken (q_notEmpty q))"]
  show ?thesis by (auto simp: BlockingQueue_size_def)
qed (use assms in \<open>simp_all add: cv_move_refl\<close>)

interpretation bq: signalling BlockingQueue_step BlockingQueue_size q_notEmpty "\<lambda>_. True"
proof
  fix e and s :: "'a blockingqueue"
  show "\<exists>s' out. BlockingQueue_step e s = Some (s', out) \<and> True"
    by (cases e) (auto simp: BlockingQueue_put_def BlockingQueue_take_def split: option.splits)
qed (rule BlockingQueue_moves)

definition bounded :: "'a boundedqueue \<Rightarrow> bool" where
  "bounded q \<longleftrightarrow> length (b_queue q) \<le> b_capacity q"

definition free_slots :: "'a boundedqueue \<Rightarrow> nat" where
  "free_slots q = b_capacity q - length (b_queue q)"

lemma BoundedBlockingQueue_step_bounded:
  "bounded q \<Longrightarrow> \<exists>q' out. BoundedBlockingQueue_step e q = Some (q', out) \<and> bounded q'"
  by (cases e)
    (auto simp: BoundedBlockingQueue_put_def BoundedBlockingQueue_take_def BoundedBlockingQueue_full_def bounded_def
      split: option.splits)

lemma Bounded_take_consumes:
  assumes "BoundedBlockingQueue_take t i q = Some (q', out)" "length (cv_waiting (b_notEmpty q)) = w"
    "k0 = length (cv_woken (b_notEmpty q)) \<or> k0 = length (cv_woken (b_notEmpty q)) + 1"
  shows "cv_move (BoundedBlockingQueue_size q, w, k0) (counts BoundedBlockingQueue_size b_notEmpty q')"
proof (rule cv_move_consume [OF assms(3)])
  show "BoundedBlockingQueue_size q = 0 \<longrightarrow>
    counts BoundedBlockingQueue_size b_notEmpty q' = (0, w + 1, length (cv_woken (b_notEmpty q)))"
    using assms(1) unfolding assms(2) [symmetric]
    by (auto simp: BoundedBlockingQueue_take_def BoundedBlockingQueue_size_def)
  show "0 < BoundedBlockingQueue_size q \<longrightarrow>
    counts BoundedBlockingQueue_size b_notEmpty q' = (BoundedBlockingQueue_size q - 1, w, length (cv_woken (b_notEmpty q)))"
    using assms(1) unfolding assms(2) [symmetric]
    by (auto simp: BoundedBlockingQueue_take_def BoundedBlockingQueue_size_def)
qed

lemma Bounded_put_consumes:
  assumes "BoundedBlockingQueue_put t x i q = Some (q', out)" "bounded q" "length (cv_waiting (b_notFull q)) = w"
    "k0 = length (cv_woken (b_notFull q)) \<or> k0 = length (cv_woken (b_notFull q)) + 1"
  shows "cv_move (free_slots q, w, k0) (counts free_slots b_notFull q')"
proof (rule cv_move_consume [OF assms(4)])
  show "free_slots q = 0 \<longrightarrow> counts free_slots b_notFull q' = (0, w + 1, length (cv_woken (b_notFull q)))"
    using assms(1,2) unfolding assms(3) [symmetric]
    by (auto simp: BoundedBlockingQueue_put_def BoundedBlockingQueue_full_def free_slots_def bounded_def split: if_splits)
  show "0 < free_slots q \<longrightarrow> counts free_slots b_notFull q' = (free_slots q - 1, w, length (cv_woken (b_notFull q)))"
    using assms(1,2) unfolding assms(3) [symmetric]
    by (auto simp: BoundedBlockingQueue_put_def BoundedBlockingQueue_full_def free_slots_def bounded_def split: if_splits)
qed

lemma Bounded_put_releases:
  assumes "BoundedBlockingQueue_put t x i q = Some (q', out)"
  shows "cv_move (counts BoundedBlockingQueue_size b_notEmpty q) (counts BoundedBlockingQueue_size b_notEmpty q')"
proof (cases "BoundedBlockingQueue_full q")
  case True
  with assms show ?thesis
    by (auto simp: BoundedBlockingQueue_put_def BoundedBlockingQueue_size_def cv_move_refl)
next
  case False
  with assms cv_move_release [of "length (b_queue q)" "length (cv_waiting (b_notEmpty q))" "length (cv_woken (b_notEmpty q))"]
  show ?thesis by (auto simp: BoundedBlockingQueue_put_def BoundedBlockingQueue_size_def)
qed

lemma Bounded_take_releases:
  assumes "BoundedBlockingQueue_take t i q = Some (q', out)" "bounded q"
  shows "cv_move (counts free_slots b_notFull q) (counts free_slots b_notFull q')"
proof (cases "b_queue q = []")
  case True
  with assms show ?thesis by (auto simp: BoundedBlockingQueue_take_def free_slots_def cv_move_refl)
next
  case False
  then have "b_capacity q - length (tl (b_queue q)) = b_capacity q - length (b_queue q) + 1"
    using assms(2) by (cases "b_queue q") (auto simp: bounded_def)
  with False assms(1)
    cv_move_release [of "free_slots q" "length (cv_waiting (b_notFull q))" "length (cv_woken (b_notFull q))"]
  show ?thesis by (auto simp: BoundedBlockingQueue_take_def free_slots_def)
qed

lemma Bounded_moves_notEmpty:
  assumes "BoundedBlockingQueue_step e q = Some (q', out)"
  shows "cv_move (counts BoundedBlockingQueue_size b_notEmpty q) (counts BoundedBlockingQueue_size b_notEmpty q')"
proof (cases e)
  case (Put t x i)
  with assms Bounded_put_releases [of t x i q q' out] show ?thesis by simp
next
  case (Take t i)
  with assms Bounded_take_consumes [of t i q q' out] show ?thesis by simp
next
  case (ResumePut k i)
  show ?thesis
  proof (rule Condition_resume_cases [of k "b_notFull q"])
    fix w c
    assume "Condition_resume k (b_notFull q) = Some (w, c)"
    with assms ResumePut have "BoundedBlockingQueue_put (fst w) (snd w) i (q\<lparr>b_notFull := c\<rparr>) = Some (q', out)"
      by (simp add: case_prod_beta)
    from Bounded_put_releases [OF this] show ?thesis by (simp add: BoundedBlockingQueue_size_def)
  qed (use assms ResumePut in \<open>simp_all add: cv_move_refl\<close>)
next
  case (ResumeTake k i)
  show ?thesis
  proof (rule Condition_resume_cases [of k "b_notEmpty q"])
    fix t c
    assume c: "Condition_resume k (b_notEmpty q) = Some (t, c)" "cv_waiting c = cv_waiting (b_notEmpty q)"
      "length (cv_woken (b_notEmpty q)) = length (cv_woken c) + 1"
    with assms ResumeTake have "BoundedBlockingQueue_take t i (q\<lparr>b_notEmpty := c\<rparr>) = Some (q', out)" by simp
    from Bounded_take_consumes [OF this refl] c(2,3) show ?thesis by (simp add: BoundedBlockingQueue_size_def)
  qed (use assms ResumeTake in \<open>simp_all add: cv_move_refl\<close>)
next
  case (SpuriousPut k)
  with assms show ?thesis by (auto simp: BoundedBlockingQueue_size_def cv_move_refl)
next
  case (SpuriousTake k)
  with assms cv_move_spurious [of "length (b_queue q)" "length (cv_waiting (b_notEmpty q))" "length (cv_woken (b_notEmpty q))"]
  show ?thesis by (auto simp: BoundedBlockingQueue_size_def)
qed

lemma Bounded_moves_notFull:
  assumes "bounded q" "BoundedBlockingQueue_step e q = Some (q', out)"
  shows "cv_move (counts free_slots b_notFull q) (counts free_slots b_notFull q')"
proof (cases e)
  case (Put t x i)
  with assms Bounded_put_consumes [of t x i q q' out] show ?thesis by simp
next
  case (Take t i)
  with assms Bounded_take_releases [of t i q q' out] show ?thesis by simp
next
  case (ResumePut k i)
  show ?thesis
  proof (rule Condition_resume_cases [of k "b_notFull q"])
    fix w c
    assume c: "Condition_resume k (b_notFull q) = Some (w, c)" "cv_waiting c = cv_waiting (b_notFull q)"
      "length (cv_woken (b_notFull q)) = length (cv_woken c) + 1"
    with assms ResumePut have "BoundedBlockingQueue_put (fst w) (snd w) i (q\<lparr>b_notFull := c\<rparr>) = Some (q', out)"
      by (simp add: case_prod_beta)
    from Bounded_put_consumes [OF this _ refl] assms(1) c(2,3) show ?thesis by (simp add: free_slots_def bounded_def)
  qed (use assms ResumePut in \<open>simp_all add: cv_move_refl\<close>)
next
  case (ResumeTake k i)
  show ?thesis
  proof (rule Condition_resume_cases [of k "b_notEmpty q"])
    fix t c
    assume "Condition_resume k (b_notEmpty q) = Some (t, c)"
    with assms ResumeTake have "BoundedBlockingQueue_take t i (q\<lparr>b_notEmpty := c\<rparr>) = Some (q', out)" by simp
    from Bounded_take_releases [OF this] assms(1) show ?thesis by (simp add: free_slots_def bounded_def)
  qed (use assms ResumeTake in \<open>simp_all add: cv_move_refl\<close>)
next
  case (SpuriousPut k)
  with assms cv_move_spurious [of "free_slots q" "length (cv_waiting (b_notFull q))" "length (cv_woken (b_notFull q))"]
  show ?thesis by (auto simp: free_slots_def)
next
  case (SpuriousTake k)
  with assms show ?thesis by (auto simp: free_slots_def cv_move_refl)
qed

interpretation bbe: signalling BoundedBlockingQueue_step BoundedBlockingQueue_size b_notEmpty bounded
  by unfold_locales (blast intro: Bounded_moves_notEmpty BoundedBlockingQueue_step_bounded)+

interpretation bbf: signalling BoundedBlockingQueue_step free_slots b_notFull bounded
  by unfold_locales (blast intro: Bounded_moves_notFull BoundedBlockingQueue_step_bounded)+

text \<open>What went in came out in order or is still there.\<close>

definition pushed :: "'a transfer list \<Rightarrow> 'a list" where
  "pushed out = concat (map (\<lambda>m. case m of Pushed x \<Rightarrow> [x] | Took _ _ \<Rightarrow> []) out)"

definition taken :: "'a transfer list \<Rightarrow> 'a list" where
  "taken out = concat (map (\<lambda>m. case m of Pushed _ \<Rightarrow> [] | Took _ x \<Rightarrow> [x]) out)"

lemma pushed_taken_simps [simp]:
  "pushed [] = []" "pushed (Pushed x # out) = x # pushed out" "pushed (Took t x # out) = pushed out"
  "taken [] = []" "taken (Pushed x # out) = taken out" "taken (Took t x # out) = x # taken out"
  "pushed (out @ out') = pushed out @ pushed out'" "taken (out @ out') = taken out @ taken out'"
  by (simp_all add: pushed_def taken_def)

lemma event_run_fifo:
  assumes step: "\<And>e s s' out. I s \<Longrightarrow> step e s = Some (s', out) \<Longrightarrow> I s' \<and> q s @ pushed out = taken out @ q s'"
  shows "I s \<Longrightarrow> event_run step es s = Some (s', out) \<Longrightarrow> I s' \<and> q s @ pushed out = taken out @ q s'"
proof (induction es arbitrary: s out)
  case (Cons e es)
  from Cons.prems obtain s1 out1 out2 where s1: "step e s = Some (s1, out1)"
    "event_run step es s1 = Some (s', out2)" "out = out1 @ out2"
    by (auto split: bind_splits)
  from step [OF Cons.prems(1) s1(1)] have i: "I s1" "q s @ pushed out1 = taken out1 @ q s1" by auto
  from Cons.IH [OF i(1) s1(2)] i(2) s1(3) show ?case by (metis append.assoc pushed_taken_simps(7,8))
qed simp

lemma BlockingQueue_fifo_step: "BlockingQueue_step e q = Some (q', out) \<Longrightarrow> q_queue q @ pushed out = taken out @ q_queue q'"
  by (cases e) (auto simp: BlockingQueue_put_def BlockingQueue_take_def split: if_splits option.splits)

lemma Bounded_fifo_step:
  "BoundedBlockingQueue_step e q = Some (q', out) \<Longrightarrow> b_queue q @ pushed out = taken out @ b_queue q'"
  by (cases e)
    (auto simp: BoundedBlockingQueue_put_def BoundedBlockingQueue_take_def split: if_splits option.splits)

lemma bounded_new [simp]: "bounded (BoundedBlockingQueue_new n)"
  by (simp add: bounded_def BoundedBlockingQueue_new_def)

lemma Bounded_resume_take:
  assumes "b_queue q \<noteq> []" "k < length (cv_woken (b_notEmpty q))"
  shows "\<exists>q'. BoundedBlockingQueue_step (ResumeTake k i) q =
    Some (q', [Took (cv_woken (b_notEmpty q) ! k) (hd (b_queue q))])"
  using assms by (simp add: Condition_resume_def BoundedBlockingQueue_take_def)

lemma Bounded_resume_put:
  assumes "\<not> BoundedBlockingQueue_full q" "k < length (cv_woken (b_notFull q))"
  shows "\<exists>q'. BoundedBlockingQueue_step (ResumePut k i) q = Some (q', [Pushed (snd (cv_woken (b_notFull q) ! k))])"
  using assms
  by (simp add: Condition_resume_def BoundedBlockingQueue_put_def BoundedBlockingQueue_full_def case_prod_beta)

text \<open>
  C28. In every interleaving of \<^verbatim>\<open>put()\<close> and \<^verbatim>\<open>take()\<close> calls, wakeups and spurious wakeups, no assertion fails, the
  queue never exceeds its capacity, and elements are taken in the order they were put. No wakeup is
  lost: when the queue holds an element and a thread is blocked in \<^verbatim>\<open>take()\<close>, one of these threads has been
  woken and the step of any woken one returns the first element; the same for \<^verbatim>\<open>put()\<close> and a free slot.
\<close>

theorem BoundedBlockingQueue_live:
  "\<exists>q out. event_run BoundedBlockingQueue_step es (BoundedBlockingQueue_new n) = Some (q, out) \<and>
     pushed out = taken out @ b_queue q \<and> length (b_queue q) \<le> b_capacity q \<and>
     (b_queue q \<noteq> [] \<and> cv_waiting (b_notEmpty q) \<noteq> [] \<longrightarrow> cv_woken (b_notEmpty q) \<noteq> []) \<and>
     (\<forall>k < length (cv_woken (b_notEmpty q)). b_queue q \<noteq> [] \<longrightarrow>
        (\<exists>q'. BoundedBlockingQueue_step (ResumeTake k i) q =
          Some (q', [Took (cv_woken (b_notEmpty q) ! k) (hd (b_queue q))]))) \<and>
     (\<not> BoundedBlockingQueue_full q \<and> cv_waiting (b_notFull q) \<noteq> [] \<longrightarrow> cv_woken (b_notFull q) \<noteq> []) \<and>
     (\<forall>k < length (cv_woken (b_notFull q)). \<not> BoundedBlockingQueue_full q \<longrightarrow>
        (\<exists>q'. BoundedBlockingQueue_step (ResumePut k i) q =
          Some (q', [Pushed (snd (cv_woken (b_notFull q) ! k))])))"
proof -
  let ?new = "BoundedBlockingQueue_new n"
  obtain q out where r: "event_run BoundedBlockingQueue_step es ?new = Some (q, out)" "bounded q"
    using bbe.run_inv [OF bounded_new, of es n] by blast
  have fifo: "pushed out = taken out @ b_queue q"
    using event_run_fifo [where q = b_queue and I = "\<lambda>_. True", OF _ _ r(1)] Bounded_fifo_step
    by (auto simp: BoundedBlockingQueue_new_def)
  have "cv_woken (b_notEmpty q) \<noteq> []" if "b_queue q \<noteq> []" "cv_waiting (b_notEmpty q) \<noteq> []"
    by (rule bbe.not_stuck [OF bounded_new _ r(1)])
      (use that in \<open>simp_all add: BoundedBlockingQueue_new_def BoundedBlockingQueue_size_def\<close>)
  moreover have "cv_woken (b_notFull q) \<noteq> []" if "\<not> BoundedBlockingQueue_full q" "cv_waiting (b_notFull q) \<noteq> []"
    by (rule bbf.not_stuck [OF bounded_new _ r(1)])
      (use that r(2) in \<open>auto simp: BoundedBlockingQueue_new_def BoundedBlockingQueue_full_def free_slots_def bounded_def\<close>)
  ultimately show ?thesis
    using r fifo Bounded_resume_take [of q] Bounded_resume_put [of q] by (auto simp: bounded_def)
qed

theorem BoundedBlockingQueue_live_witness:
  "\<exists>q. event_run BoundedBlockingQueue_step [Take 1 0, Take 2 0, Put 3 CHR ''a'' 1, Put 4 CHR ''b'' 0]
       (BoundedBlockingQueue_new 1) = Some (q, [Pushed CHR ''a'']) \<and>
     b_queue q = ''a'' \<and> cv_waiting (b_notEmpty q) = [1] \<and> cv_woken (b_notEmpty q) = [2] \<and>
     cv_waiting (b_notFull q) = [(4, CHR ''b'')] \<and>
     (\<exists>q'. BoundedBlockingQueue_step (ResumeTake 0 0) q = Some (q', [Took 2 CHR ''a'']))"
proof -
  let ?es = "[Take 1 0, Take 2 0, Put 3 CHR ''a'' 1, Put 4 CHR ''b'' 0]"
  obtain q where q: "event_run BoundedBlockingQueue_step ?es (BoundedBlockingQueue_new 1) = Some (q, [Pushed CHR ''a''])"
    "b_queue q = ''a''" "cv_waiting (b_notEmpty q) = [1]" "cv_woken (b_notEmpty q) = [2]"
    "cv_waiting (b_notFull q) = [(4, CHR ''b'')]"
    by (simp add: BoundedBlockingQueue_new_def BoundedBlockingQueue_take_def BoundedBlockingQueue_put_def
        BoundedBlockingQueue_full_def Condition_notify_def Condition_wait_def Condition_new_def remove_nth_def Let_def)
  with BoundedBlockingQueue_live [of ?es 1 0] show ?thesis by (auto simp del: event_run.simps)
qed

section \<open>CountDownLatch\<close>

record countdownlatch =
  l_count :: int
  l_condition :: "nat condvar"

definition CountDownLatch_new :: "int \<Rightarrow> countdownlatch" where
  "CountDownLatch_new count = \<lparr>l_count = count, l_condition = Condition_new\<rparr>"

text \<open>\<^verbatim>\<open>wait()\<close> from the test of its loop on; the output is the thread that returns.\<close>

definition CountDownLatch_wait :: "nat \<Rightarrow> countdownlatch \<Rightarrow> countdownlatch \<times> nat list" where
  "CountDownLatch_wait t l =
     (if 0 < l_count l then (l\<lparr>l_condition := Condition_wait t (l_condition l)\<rparr>, []) else (l, [t]))"

definition CountDownLatch_countDown :: "countdownlatch \<Rightarrow> countdownlatch" where
  "CountDownLatch_countDown l =
     (let l = l\<lparr>l_count := l_count l - 1\<rparr>
      in if l_count l = 0 then l\<lparr>l_condition := Condition_notifyAll (l_condition l)\<rparr> else l)"

definition CountDownLatch_getCount :: "countdownlatch \<Rightarrow> int" where
  "CountDownLatch_getCount l = l_count l"

datatype latch_event =
    Wait nat
  | CountDown
  | ResumeWait nat
  | SpuriousWait nat

fun CountDownLatch_step :: "latch_event \<Rightarrow> countdownlatch \<Rightarrow> (countdownlatch \<times> nat list) option" where
  "CountDownLatch_step (Wait t) l = Some (CountDownLatch_wait t l)"
| "CountDownLatch_step CountDown l = Some (CountDownLatch_countDown l, [])"
| "CountDownLatch_step (ResumeWait k) l =
     (case Condition_resume k (l_condition l) of
        None \<Rightarrow> Some (l, [])
      | Some (t, c) \<Rightarrow> Some (CountDownLatch_wait t (l\<lparr>l_condition := c\<rparr>)))"
| "CountDownLatch_step (SpuriousWait k) l =
     Some (l\<lparr>l_condition := Condition_notify k (l_condition l)\<rparr>, [])"

text \<open>An open latch has no thread asleep.\<close>

definition latch_inv :: "countdownlatch \<Rightarrow> bool" where
  "latch_inv l \<longleftrightarrow> (l_count l \<le> 0 \<longrightarrow> cv_waiting (l_condition l) = [])"

definition latch_open :: "countdownlatch \<Rightarrow> nat" where
  "latch_open l = (if l_count l \<le> 0 then 1 else 0)"

lemma Condition_notify_Nil [simp]: "cv_waiting c = [] \<Longrightarrow> Condition_notify i c = c"
  by (simp add: Condition_notify_def)

lemma latch_step_inv: "latch_inv l \<Longrightarrow> \<exists>l' out. CountDownLatch_step e l = Some (l', out) \<and> latch_inv l'"
  by (cases e)
    (auto simp: latch_inv_def CountDownLatch_wait_def CountDownLatch_countDown_def Condition_resume_def Let_def
      split: option.splits if_splits)

lemma latch_wait_moves:
  assumes "CountDownLatch_wait t l = (l', out)" "latch_inv l" "length (cv_waiting (l_condition l)) = w"
    "k0 = length (cv_woken (l_condition l)) \<or> k0 = length (cv_woken (l_condition l)) + 1"
  shows "cv_move (latch_open l, w, k0) (counts latch_open l_condition l')"
  using assms by (auto simp: CountDownLatch_wait_def latch_open_def latch_inv_def cv_move.simps split: if_splits)

lemma latch_moves:
  assumes "latch_inv l" "CountDownLatch_step e l = Some (l', out)"
  shows "cv_move (counts latch_open l_condition l) (counts latch_open l_condition l')"
proof (cases e)
  case (Wait t)
  with assms latch_wait_moves [of t l l' out] show ?thesis by simp
next
  case CountDown
  with assms show ?thesis
    by (auto simp: CountDownLatch_countDown_def latch_open_def latch_inv_def cv_move.simps Let_def split: if_splits)
next
  case (ResumeWait k)
  show ?thesis
  proof (rule Condition_resume_cases [of k "l_condition l"])
    fix t c
    assume c: "Condition_resume k (l_condition l) = Some (t, c)" "cv_waiting c = cv_waiting (l_condition l)"
      "length (cv_woken (l_condition l)) = length (cv_woken c) + 1"
    with assms ResumeWait have "CountDownLatch_wait t (l\<lparr>l_condition := c\<rparr>) = (l', out)" by simp
    from latch_wait_moves [OF this _ refl] assms(1) c(2,3) show ?thesis by (simp add: latch_open_def latch_inv_def)
  qed (use assms ResumeWait in \<open>simp_all add: cv_move_refl\<close>)
next
  case (SpuriousWait k)
  with assms cv_move_spurious [of "latch_open l" "length (cv_waiting (l_condition l))" "length (cv_woken (l_condition l))"]
  show ?thesis by (auto simp: latch_open_def)
qed

interpretation latch: signalling CountDownLatch_step latch_open l_condition latch_inv
  by unfold_locales (blast intro: latch_moves latch_step_inv)+

end
