(* ===== verification/ThreadPool.thy ===== *)
theory ThreadPool
  imports Monitor
begin

text \<open>
  \<^verbatim>\<open>muduo/base/ThreadPool.h\<close>, \<^verbatim>\<open>ThreadPool.cc\<close>. Tasks are of any type; running one is an output. A worker is at the
  test of the loop of \<^verbatim>\<open>runInThread\<close> (\<open>tp_loop\<close>), about to call \<^verbatim>\<open>take()\<close> (\<open>tp_enter\<close>), blocked or woken in it
  (\<open>tp_notEmpty\<close>), or has returned (\<open>tp_exited\<close>). Callers blocked in \<^verbatim>\<open>run()\<close> are in \<open>tp_notFull\<close> with their
  task. As in \<^theory_text>\<open>Monitor\<close>, the events of a run are the pieces of code between two points at which another
  thread can run. The exception handlers of \<^verbatim>\<open>runInThread\<close> abort the program and are left out.
\<close>

section \<open>Operations\<close>














section \<open>Invariant\<close>

text \<open>The threads blocked on a condition variable, woken or not.\<close>

definition cv_size :: "'w condvar \<Rightarrow> nat" where
  "cv_size c = length (cv_waiting c) + length (cv_woken c)"

lemma cv_size_simps [simp]:
  "cv_size Condition_new = 0" "cv_size (Condition_wait w c) = Suc (cv_size c)"
  "cv_size (Condition_notifyAll c) = cv_size c"
  by (simp_all add: cv_size_def)

lemma cv_size_notify [simp]: "cv_size (Condition_notify i c) = cv_size c"
  by (cases "cv_waiting c") (auto simp: cv_size_def)








section \<open>No wakeup is lost\<close>












section \<open>Tasks and termination\<close>















end
