(* ===== verification/Connector.thy ===== *)
theory Connector
  imports Prelude "HOL-Library.Multiset"
begin

text \<open>
  \<^verbatim>\<open>muduo/net/Connector.h\<close>, \<^verbatim>\<open>Connector.cc\<close>: connecting a socket to a server, with retries. The state of a
  connector holds what it has handed to its loop: the functors queued (\<open>cn_functors\<close>), the timers set
  (\<open>cn_timers\<close>, by their delay in milliseconds) and the registration of its channel. It also records the sockets it
  created, closed and passed to the callback, and the delays since the last \<^verbatim>\<open>restart()\<close>. The results of
  the system calls are arguments. An event is a call from the user, a functor or a timer run by the
  loop, or an event on the channel. A failed assertion has no result.
\<close>

section \<open>State\<close>

datatype conn_states = kDisconnected | kConnecting | kConnected

datatype conn_functor = StartInLoop | StopInLoop | ResetChannel

text \<open>The channel: its socket, and whether it is registered with the loop, for writing.\<close>

record conn_channel =
  cc_fd :: int
  cc_registered :: bool

definition kMaxRetryDelayMs :: int where "kMaxRetryDelayMs = 30 * 1000"
definition kInitRetryDelayMs :: int where "kInitRetryDelayMs = 500"

record connector =
  cn_connect :: bool
  cn_state :: conn_states
  cn_channel :: "conn_channel option"
  cn_retryDelayMs :: int
  cn_functors :: "conn_functor list"
  cn_timers :: "int list"
  cn_created :: "int list"
  cn_closed :: "int list"
  cn_delivered :: "int list"
  cn_delays :: "int list"

definition Connector_new :: connector where
  "Connector_new =
     \<lparr>cn_connect = False, cn_state = kDisconnected, cn_channel = None, cn_retryDelayMs = kInitRetryDelayMs,
      cn_functors = [], cn_timers = [], cn_created = [], cn_closed = [], cn_delivered = [], cn_delays = []\<rparr>"

definition Connector_destroy :: "connector \<Rightarrow> unit option" where
  "Connector_destroy c = assert_that (cn_channel c = None)"

definition queueInLoop :: "conn_functor \<Rightarrow> connector \<Rightarrow> connector" where
  "queueInLoop f c = c\<lparr>cn_functors := cn_functors c @ [f]\<rparr>"

definition close_socket :: "int \<Rightarrow> connector \<Rightarrow> connector" where
  "close_socket fd c = c\<lparr>cn_closed := cn_closed c @ [fd]\<rparr>"

section \<open>Operations\<close>

definition Connector_retry :: "int \<Rightarrow> connector \<Rightarrow> connector" where
  "Connector_retry sockfd c =
     (let c = close_socket sockfd c;
          c = c\<lparr>cn_state := kDisconnected\<rparr>
      in if cn_connect c then
           c\<lparr>cn_timers := cn_timers c @ [cn_retryDelayMs c], cn_delays := cn_delays c @ [cn_retryDelayMs c],
             cn_retryDelayMs := min (cn_retryDelayMs c * 2) kMaxRetryDelayMs\<rparr>
         else c)"

definition Connector_connecting :: "int \<Rightarrow> connector \<Rightarrow> connector option" where
  "Connector_connecting sockfd c =
     do {
       let c = c\<lparr>cn_state := kConnecting\<rparr>;
       assert_that (cn_channel c = None);
       Some (c\<lparr>cn_channel := Some \<lparr>cc_fd = sockfd, cc_registered = True\<rparr>\<rparr>) }"

text \<open>The error numbers of Linux by which \<^verbatim>\<open>connect()\<close> distinguishes its cases.\<close>

definition in_progress_errno :: "int list" where
  "in_progress_errno = [0, 115 \<comment> \<open>EINPROGRESS\<close>, 4 \<comment> \<open>EINTR\<close>, 106 \<comment> \<open>EISCONN\<close>]"

definition retry_errno :: "int list" where
  "retry_errno =
     [11 \<comment> \<open>EAGAIN\<close>, 98 \<comment> \<open>EADDRINUSE\<close>, 99 \<comment> \<open>EADDRNOTAVAIL\<close>, 111 \<comment> \<open>ECONNREFUSED\<close>, 101 \<comment> \<open>ENETUNREACH\<close>]"

text \<open>\<open>sock\<close> is the socket created and the error of connecting it, 0 for none.\<close>

definition Connector_connect :: "int \<times> int \<Rightarrow> connector \<Rightarrow> connector option" where
  "Connector_connect sock c =
     (let (sockfd, savedErrno) = sock;
          c = c\<lparr>cn_created := cn_created c @ [sockfd]\<rparr>
      in if savedErrno \<in> set in_progress_errno then Connector_connecting sockfd c
         else if savedErrno \<in> set retry_errno then Some (Connector_retry sockfd c)
         else Some (close_socket sockfd c))"

definition Connector_startInLoop :: "int \<times> int \<Rightarrow> connector \<Rightarrow> connector option" where
  "Connector_startInLoop sock c =
     do {
       assert_that (cn_state c = kDisconnected);
       if cn_connect c then Connector_connect sock c else Some c }"

text \<open>\<^verbatim>\<open>start()\<close> in the loop thread, where \<^verbatim>\<open>runInLoop\<close> runs its functor at once, or in another one.\<close>

definition Connector_start :: "bool \<Rightarrow> int \<times> int \<Rightarrow> connector \<Rightarrow> connector option" where
  "Connector_start inLoop sock c =
     (let c = c\<lparr>cn_connect := True\<rparr>
      in if inLoop then Connector_startInLoop sock c else Some (queueInLoop StartInLoop c))"

definition Connector_stop :: "connector \<Rightarrow> connector" where
  "Connector_stop c = queueInLoop StopInLoop (c\<lparr>cn_connect := False\<rparr>)"

definition Connector_removeAndResetChannel :: "connector \<Rightarrow> (int \<times> connector) option" where
  "Connector_removeAndResetChannel c =
     do {
       ch \<leftarrow> cn_channel c;
       let c = c\<lparr>cn_channel := Some (ch\<lparr>cc_registered := False\<rparr>)\<rparr>;
       Some (cc_fd ch, queueInLoop ResetChannel c) }"

text \<open>Resetting the pointer destroys the channel, which must not be registered.\<close>

definition Connector_resetChannel :: "connector \<Rightarrow> connector option" where
  "Connector_resetChannel c =
     (case cn_channel c of
        None \<Rightarrow> Some c
      | Some ch \<Rightarrow> do { assert_that (\<not> cc_registered ch); Some (c\<lparr>cn_channel := None\<rparr>) })"

definition Connector_stopInLoop :: "connector \<Rightarrow> connector option" where
  "Connector_stopInLoop c =
     (if cn_state c = kConnecting then
        do {
          let c = c\<lparr>cn_state := kDisconnected\<rparr>;
          (sockfd, c) \<leftarrow> Connector_removeAndResetChannel c;
          Some (Connector_retry sockfd c) }
      else Some c)"

definition Connector_restart :: "int \<times> int \<Rightarrow> connector \<Rightarrow> connector option" where
  "Connector_restart sock c =
     Connector_startInLoop sock
       (c\<lparr>cn_state := kDisconnected, cn_retryDelayMs := kInitRetryDelayMs, cn_delays := [], cn_connect := True\<rparr>)"

definition Connector_handleWrite :: "int \<Rightarrow> bool \<Rightarrow> connector \<Rightarrow> connector option" where
  "Connector_handleWrite err selfConnect c =
     (if cn_state c = kConnecting then
        do {
          (sockfd, c) \<leftarrow> Connector_removeAndResetChannel c;
          if err \<noteq> 0 then Some (Connector_retry sockfd c)
          else if selfConnect then Some (Connector_retry sockfd c)
          else
            let c = c\<lparr>cn_state := kConnected\<rparr>
            in if cn_connect c then Some (c\<lparr>cn_delivered := cn_delivered c @ [sockfd]\<rparr>)
               else Some (close_socket sockfd c) }
      else do { assert_that (cn_state c = kDisconnected); Some c })"

definition Connector_handleError :: "connector \<Rightarrow> connector option" where
  "Connector_handleError c =
     (if cn_state c = kConnecting then
        do {
          (sockfd, c) \<leftarrow> Connector_removeAndResetChannel c;
          Some (Connector_retry sockfd c) }
      else Some c)"

section \<open>Events\<close>

definition run_functor :: "conn_functor \<Rightarrow> int \<times> int \<Rightarrow> connector \<Rightarrow> connector option" where
  "run_functor f sock c =
     (case f of
        StartInLoop \<Rightarrow> Connector_startInLoop sock c
      | StopInLoop \<Rightarrow> Connector_stopInLoop c
      | ResetChannel \<Rightarrow> Connector_resetChannel c)"

text \<open>\<open>Ready\<close>: \<^verbatim>\<open>handleEvent\<close> calls the error callback, if any, before the write callback.\<close>

datatype conn_event =
    Start bool "int \<times> int"
  | Stop
  | Restart "int \<times> int"
  | Functor "int \<times> int"
  | Timer "int \<times> int"
  | Ready bool bool int bool

fun Connector_step :: "conn_event \<Rightarrow> connector \<Rightarrow> connector option" where
  "Connector_step (Start inLoop sock) c = Connector_start inLoop sock c"
| "Connector_step Stop c = Some (Connector_stop c)"
| "Connector_step (Restart sock) c = Connector_restart sock c"
| "Connector_step (Functor sock) c =
     (case cn_functors c of
        [] \<Rightarrow> Some c
      | f # fs \<Rightarrow> run_functor f sock (c\<lparr>cn_functors := fs\<rparr>))"
| "Connector_step (Timer sock) c =
     (case cn_timers c of
        [] \<Rightarrow> Some c
      | _ # ts \<Rightarrow> Connector_startInLoop sock (c\<lparr>cn_timers := ts\<rparr>))"
| "Connector_step (Ready error writable err selfConnect) c =
     do {
       c \<leftarrow> (if error then Connector_handleError c else Some c);
       if writable then Connector_handleWrite err selfConnect c else Some c }"

fun Connector_run :: "conn_event list \<Rightarrow> connector \<Rightarrow> connector option" where
  "Connector_run [] c = Some c"
| "Connector_run (e # es) c = do { c \<leftarrow> Connector_step e c; Connector_run es c }"

section \<open>Invariant\<close>

definition starts :: "connector \<Rightarrow> nat" where
  "starts c = count_list (cn_functors c) StartInLoop + length (cn_timers c)"

definition resets :: "connector \<Rightarrow> nat" where
  "resets c = count_list (cn_functors c) ResetChannel"

text \<open>No channel, or one that waits for its deletion.\<close>

definition no_channel :: "connector \<Rightarrow> bool" where
  "no_channel c \<longleftrightarrow>
     (cn_channel c = None \<and> resets c = 0) \<or>
     (\<exists>ch. cn_channel c = Some ch \<and> \<not> cc_registered ch \<and> resets c = 1)"

definition state_inv :: "connector \<Rightarrow> bool" where
  "state_inv c \<longleftrightarrow>
     starts c \<le> 1 \<and> (StartInLoop \<in> set (cn_functors c) \<longrightarrow> resets c = 0) \<and>
     (case cn_state c of
        kDisconnected \<Rightarrow> no_channel c
      | kConnecting \<Rightarrow> (\<exists>ch. cn_channel c = Some ch \<and> cc_registered ch) \<and> resets c = 0 \<and> starts c = 0
      | kConnected \<Rightarrow> no_channel c \<and> starts c = 0)"

text \<open>Every socket is closed, handed over, or owned by the registered channel, once.\<close>

definition owned :: "connector \<Rightarrow> int multiset" where
  "owned c =
     (case cn_channel c of
        None \<Rightarrow> {#}
      | Some ch \<Rightarrow> if cc_registered ch then {#cc_fd ch#} else {#})"

definition sockets_inv :: "connector \<Rightarrow> bool" where
  "sockets_inv c \<longleftrightarrow> mset (cn_created c) = mset (cn_closed c) + mset (cn_delivered c) + owned c"

definition backoff :: "nat \<Rightarrow> int" where
  "backoff k = min (500 * 2 ^ k) 30000"

definition delay_inv :: "connector \<Rightarrow> bool" where
  "delay_inv c \<longleftrightarrow>
     cn_retryDelayMs c = backoff (length (cn_delays c)) \<and> cn_delays c = map backoff [0..<length (cn_delays c)]"

definition conn_inv :: "connector \<Rightarrow> bool" where
  "conn_inv c \<longleftrightarrow> state_inv c \<and> sockets_inv c \<and> delay_inv c"

lemma backoff_Suc: "min (backoff k * 2) kMaxRetryDelayMs = backoff (Suc k)"
  by (simp add: backoff_def kMaxRetryDelayMs_def min_def)

lemma Connector_retry_delay: "delay_inv c \<Longrightarrow> delay_inv (Connector_retry fd c)"
  by (auto simp: Connector_retry_def close_socket_def delay_inv_def backoff_Suc Let_def)

lemma delay_inv_cong: "cn_retryDelayMs c' = cn_retryDelayMs c \<Longrightarrow> cn_delays c' = cn_delays c \<Longrightarrow> delay_inv c' = delay_inv c"
  by (simp add: delay_inv_def)

text \<open>
  The state in which a socket is let go: nothing else is under way, and the channel, if there was
  one, waits for its deletion.
\<close>

lemma Connector_retry_inv:
  assumes "no_channel c" "starts c = 0" "delay_inv c"
    "mset (cn_created c) = mset (cn_closed c) + mset (cn_delivered c) + {#fd#}"
  shows "conn_inv (Connector_retry fd c)" "cn_state (Connector_retry fd c) = kDisconnected"
proof -
  have "StartInLoop \<notin> set (cn_functors c)" using assms(2) by (simp add: starts_def count_list_0_iff)
  moreover have "owned c = {#}" using assms(1) by (auto simp: owned_def no_channel_def)
  ultimately show "conn_inv (Connector_retry fd c)"
    using assms Connector_retry_delay [OF assms(3), of fd]
    by (auto simp: conn_inv_def Connector_retry_def close_socket_def state_inv_def starts_def resets_def
        no_channel_def sockets_inv_def owned_def Let_def)
  show "cn_state (Connector_retry fd c) = kDisconnected"
    by (simp add: Connector_retry_def Let_def)
qed

lemma Connector_removeAndResetChannel_spec:
  assumes "conn_inv c" "cn_state c = kConnecting"
  shows "\<exists>fd c'. Connector_removeAndResetChannel (c\<lparr>cn_state := st\<rparr>) = Some (fd, c') \<and>
    no_channel c' \<and> starts c' = 0 \<and> delay_inv c' \<and> cn_state c' = st \<and> cn_connect c' = cn_connect c \<and>
    StartInLoop \<notin> set (cn_functors c') \<and>
    mset (cn_created c') = mset (cn_closed c') + mset (cn_delivered c') + {#fd#}"
proof -
  from assms obtain ch where ch: "cn_channel c = Some ch" "cc_registered ch" "resets c = 0" "starts c = 0"
    by (auto simp: conn_inv_def state_inv_def)
  with assms show ?thesis
    by (auto simp: Connector_removeAndResetChannel_def queueInLoop_def conn_inv_def delay_inv_def sockets_inv_def
        owned_def starts_def resets_def no_channel_def count_list_0_iff)
qed

text \<open>The state in which a connection may be attempted.\<close>

definition idle :: "connector \<Rightarrow> bool" where
  "idle c \<longleftrightarrow> conn_inv c \<and> cn_state c = kDisconnected \<and> starts c = 0 \<and> resets c = 0"

lemma idle_channel: "idle c \<Longrightarrow> cn_channel c = None"
  by (auto simp: idle_def conn_inv_def state_inv_def no_channel_def)

lemma idle_no_start: "idle c \<Longrightarrow> StartInLoop \<notin> set (cn_functors c)"
  by (auto simp: idle_def starts_def count_list_0_iff)

lemma Connector_connect_spec:
  assumes "idle c"
  shows "\<exists>c'. Connector_connect sock c = Some c' \<and> conn_inv c'"
proof -
  obtain fd e where sock: "sock = (fd, e)" by (cases sock)
  let ?c = "c\<lparr>cn_created := cn_created c @ [fd]\<rparr>"
  note ch = idle_channel [OF assms] idle_no_start [OF assms]
  have c: "no_channel ?c" "starts ?c = 0" "delay_inv ?c"
    "mset (cn_created ?c) = mset (cn_closed ?c) + mset (cn_delivered ?c) + {#fd#}"
    using assms ch by (auto simp: idle_def conn_inv_def no_channel_def starts_def resets_def delay_inv_def
        sockets_inv_def owned_def)
  consider "e \<in> set in_progress_errno" | "e \<notin> set in_progress_errno" "e \<in> set retry_errno"
    | "e \<notin> set in_progress_errno" "e \<notin> set retry_errno" by blast
  then show ?thesis
  proof cases
    case 1
    with assms ch c(3,4) show ?thesis
      by (simp add: Connector_connect_def sock Connector_connecting_def conn_inv_def state_inv_def idle_def starts_def
          resets_def sockets_inv_def owned_def delay_inv_def)
  next
    case 2
    with Connector_retry_inv(1) [OF c] show ?thesis by (simp add: Connector_connect_def sock)
  next
    case 3
    with assms ch c show ?thesis
      by (simp add: Connector_connect_def sock close_socket_def conn_inv_def state_inv_def idle_def starts_def
          resets_def sockets_inv_def owned_def delay_inv_def no_channel_def)
  qed
qed

lemma Connector_startInLoop_spec:
  "idle c \<Longrightarrow> \<exists>c'. Connector_startInLoop sock c = Some c' \<and> conn_inv c'"
  using Connector_connect_spec [of c sock] by (auto simp: Connector_startInLoop_def idle_def)

lemma Connector_stopInLoop_spec:
  assumes "conn_inv c"
  shows "\<exists>c'. Connector_stopInLoop c = Some c' \<and> conn_inv c'"
proof (cases "cn_state c = kConnecting")
  case True
  from Connector_removeAndResetChannel_spec [OF assms True, of kDisconnected] obtain fd c' where
    "Connector_removeAndResetChannel (c\<lparr>cn_state := kDisconnected\<rparr>) = Some (fd, c')" "no_channel c'" "starts c' = 0"
    "delay_inv c'" "mset (cn_created c') = mset (cn_closed c') + mset (cn_delivered c') + {#fd#}"
    by blast
  with True Connector_retry_inv(1) [of c' fd] show ?thesis by (simp add: Connector_stopInLoop_def)
qed (use assms in \<open>simp add: Connector_stopInLoop_def\<close>)

lemma same_state: "cn_state c = st \<Longrightarrow> c\<lparr>cn_state := st\<rparr> = c"
  by (cases c) simp

lemma Connector_handleError_spec:
  assumes "conn_inv c"
  shows "\<exists>c'. Connector_handleError c = Some c' \<and> conn_inv c' \<and>
    (cn_state c = kConnecting \<longrightarrow> cn_state c' = kDisconnected) \<and> (cn_state c \<noteq> kConnecting \<longrightarrow> c' = c)"
proof (cases "cn_state c = kConnecting")
  case True
  from Connector_removeAndResetChannel_spec [OF assms True, of kConnecting] same_state [OF True] obtain fd c' where
    "Connector_removeAndResetChannel c = Some (fd, c')" "no_channel c'" "starts c' = 0"
    "delay_inv c'" "mset (cn_created c') = mset (cn_closed c') + mset (cn_delivered c') + {#fd#}"
    by auto
  with True Connector_retry_inv [of c' fd] show ?thesis by (simp add: Connector_handleError_def)
qed (use assms in \<open>simp add: Connector_handleError_def\<close>)

lemma Connector_handleWrite_spec:
  assumes "conn_inv c" "cn_state c \<noteq> kConnected"
  shows "\<exists>c'. Connector_handleWrite err self c = Some c' \<and> conn_inv c'"
proof (cases "cn_state c = kConnecting")
  case True
  from Connector_removeAndResetChannel_spec [OF assms(1) True, of kConnecting] same_state [OF True] obtain fd c' where
    c': "Connector_removeAndResetChannel c = Some (fd, c')" "no_channel c'" "starts c' = 0" "delay_inv c'"
    "StartInLoop \<notin> set (cn_functors c')"
    "mset (cn_created c') = mset (cn_closed c') + mset (cn_delivered c') + {#fd#}"
    by auto
  have "owned c' = {#}" using c'(2) by (auto simp: owned_def no_channel_def)
  with c' have "conn_inv (c'\<lparr>cn_state := kConnected, cn_delivered := cn_delivered c' @ [fd]\<rparr>)"
    "conn_inv (close_socket fd (c'\<lparr>cn_state := kConnected\<rparr>))"
    by (auto simp: conn_inv_def state_inv_def close_socket_def no_channel_def starts_def resets_def sockets_inv_def
        owned_def delay_inv_def)
  with True c' Connector_retry_inv(1) [OF c'(2,3,4,6)] show ?thesis
    by (simp add: Connector_handleWrite_def Let_def)
next
  case False
  with assms have "cn_state c = kDisconnected" by (cases "cn_state c") auto
  with assms False show ?thesis by (simp add: Connector_handleWrite_def)
qed

text \<open>
  The order in which the user and the loop act. A connector is started when it is idle, and
  restarted when it is connected. A channel is reported ready only while it is registered. A timer,
  at least half a second after it was set, finds the functors queued at that time done.
\<close>

fun legal :: "conn_event \<Rightarrow> connector \<Rightarrow> bool" where
  "legal (Start _ _) c \<longleftrightarrow> cn_state c = kDisconnected \<and> starts c = 0 \<and> resets c = 0"
| "legal Stop c \<longleftrightarrow> True"
| "legal (Restart _) c \<longleftrightarrow> cn_state c = kConnected \<and> resets c = 0"
| "legal (Functor _) c \<longleftrightarrow> True"
| "legal (Timer _) c \<longleftrightarrow> resets c = 0"
| "legal (Ready _ _ _ _) c \<longleftrightarrow> (\<exists>ch. cn_channel c = Some ch \<and> cc_registered ch)"

fun legal_run :: "conn_event list \<Rightarrow> connector \<Rightarrow> bool" where
  "legal_run [] c \<longleftrightarrow> True"
| "legal_run (e # es) c \<longleftrightarrow>
     legal e c \<and> (case Connector_step e c of None \<Rightarrow> True | Some c' \<Rightarrow> legal_run es c')"

lemma conn_inv_flags: "conn_inv (c\<lparr>cn_connect := b\<rparr>) = conn_inv c"
  by (simp add: conn_inv_def state_inv_def sockets_inv_def delay_inv_def owned_def no_channel_def starts_def resets_def
      cong: conn_states.case_cong)

lemma run_functor_spec:
  assumes "conn_inv c" "cn_functors c = f # fs"
  shows "\<exists>c'. run_functor f sock (c\<lparr>cn_functors := fs\<rparr>) = Some c' \<and> conn_inv c'"
proof (cases f)
  case StartInLoop
  with assms have "idle (c\<lparr>cn_functors := fs\<rparr>)"
    by (cases "cn_state c")
      (auto simp: idle_def conn_inv_def state_inv_def starts_def resets_def no_channel_def sockets_inv_def owned_def
        delay_inv_def count_list_0_iff)
  with StartInLoop show ?thesis using Connector_startInLoop_spec by (simp add: run_functor_def)
next
  case StopInLoop
  with assms have "conn_inv (c\<lparr>cn_functors := fs\<rparr>)"
    by (cases "cn_state c")
      (auto simp: conn_inv_def state_inv_def starts_def resets_def no_channel_def sockets_inv_def owned_def delay_inv_def)
  with StopInLoop show ?thesis using Connector_stopInLoop_spec by (simp add: run_functor_def)
next
  case ResetChannel
  with assms obtain ch where "cn_channel c = Some ch" "\<not> cc_registered ch" "resets c = 1"
    "count_list fs ResetChannel = 0" "cn_state c \<noteq> kConnecting"
    by (cases "cn_state c") (auto simp: conn_inv_def state_inv_def no_channel_def resets_def)
  with assms ResetChannel show ?thesis
    by (cases "cn_state c")
      (auto simp: run_functor_def Connector_resetChannel_def conn_inv_def state_inv_def starts_def resets_def
        no_channel_def sockets_inv_def owned_def delay_inv_def)
qed

lemma Connector_step_spec:
  assumes "conn_inv c" "legal e c"
  shows "\<exists>c'. Connector_step e c = Some c' \<and> conn_inv c'"
proof (cases e)
  case (Start inLoop sock)
  with assms have "idle (c\<lparr>cn_connect := True\<rparr>)" by (simp add: idle_def conn_inv_flags starts_def resets_def)
  moreover from this have "conn_inv (queueInLoop StartInLoop (c\<lparr>cn_connect := True\<rparr>))"
    by (auto simp: idle_def queueInLoop_def conn_inv_def state_inv_def starts_def resets_def no_channel_def sockets_inv_def
        owned_def delay_inv_def)
  ultimately show ?thesis
    using Start Connector_startInLoop_spec [of "c\<lparr>cn_connect := True\<rparr>" sock] by (simp add: Connector_start_def Let_def)
next
  case Stop
  with assms show ?thesis
    by (cases "cn_state c")
      (auto simp: Connector_stop_def queueInLoop_def conn_inv_def state_inv_def starts_def resets_def no_channel_def
        sockets_inv_def owned_def delay_inv_def)
next
  case (Restart sock)
  let ?c = "c\<lparr>cn_state := kDisconnected, cn_retryDelayMs := kInitRetryDelayMs, cn_delays := [], cn_connect := True\<rparr>"
  from Restart assms have "idle ?c"
    by (auto simp: idle_def conn_inv_def state_inv_def starts_def resets_def no_channel_def sockets_inv_def owned_def
        delay_inv_def backoff_def kInitRetryDelayMs_def count_list_0_iff)
  with Restart Connector_startInLoop_spec show ?thesis by (simp add: Connector_restart_def)
next
  case (Functor sock)
  with assms run_functor_spec [OF assms(1)] show ?thesis by (auto split: list.splits)
next
  case (Timer sock)
  show ?thesis
  proof (cases "cn_timers c")
    case (Cons t ts)
    with Timer assms have "idle (c\<lparr>cn_timers := ts\<rparr>)"
      by (cases "cn_state c")
        (auto simp: idle_def conn_inv_def state_inv_def starts_def resets_def no_channel_def sockets_inv_def owned_def
          delay_inv_def)
    with Timer Cons Connector_startInLoop_spec show ?thesis by simp
  qed (use Timer assms in simp)
next
  case (Ready error writable err selfConnect)
  with assms have "cn_state c = kConnecting"
    by (cases "cn_state c") (auto simp: conn_inv_def state_inv_def no_channel_def)
  moreover from Connector_handleError_spec [OF assms(1)] obtain c1 where
    c1: "Connector_handleError c = Some c1" "conn_inv c1" "cn_state c = kConnecting \<longrightarrow> cn_state c1 = kDisconnected"
    by blast
  ultimately show ?thesis
    using Ready assms(1) Connector_handleWrite_spec [OF c1(2), of err selfConnect]
      Connector_handleWrite_spec [OF assms(1), of err selfConnect] by auto
qed

lemma Connector_run_spec:
  "conn_inv c \<Longrightarrow> legal_run es c \<Longrightarrow> \<exists>c'. Connector_run es c = Some c' \<and> conn_inv c'"
proof (induction es arbitrary: c)
  case (Cons e es)
  then have "legal e c" by simp
  from Connector_step_spec [OF Cons.prems(1) this] obtain c1 where "Connector_step e c = Some c1" "conn_inv c1" by blast
  with Cons show ?case by simp
qed simp

lemma conn_inv_new: "conn_inv Connector_new"
  by (simp add: Connector_new_def conn_inv_def state_inv_def starts_def resets_def no_channel_def sockets_inv_def owned_def
      delay_inv_def backoff_def kInitRetryDelayMs_def)


text \<open>
  C31. Used in order, a connector never fails an assertion, whatever the system calls return: every socket it
  creates is closed, handed to the callback or still being connected, exactly once; at most one
  attempt is pending; and the \<open>k\<close>-th retry since the last restart waits 500 * 2^k milliseconds, at most half a minute.
\<close>

theorem Connector_safe:
  assumes "legal_run es Connector_new"
  shows "\<exists>c. Connector_run es Connector_new = Some c \<and>
    mset (cn_created c) = mset (cn_closed c) + mset (cn_delivered c) + owned c \<and>
    length (cn_timers c) \<le> 1 \<and> (cn_state c = kConnecting \<longrightarrow> owned c \<noteq> {#} \<and> cn_timers c = []) \<and>
    cn_delays c = map (\<lambda>k. min (500 * 2 ^ k) 30000) [0..<length (cn_delays c)]"
proof -
  from Connector_run_spec [OF conn_inv_new assms] obtain c where c: "Connector_run es Connector_new = Some c" "conn_inv c"
    by blast
  then have "cn_delays c = map (\<lambda>k. min (500 * 2 ^ k) 30000) [0..<length (cn_delays c)]"
    unfolding conn_inv_def delay_inv_def backoff_def [abs_def] by blast
  with c show ?thesis
    by (auto simp: conn_inv_def state_inv_def sockets_inv_def starts_def owned_def)
qed

theorem Connector_safe_witness:
  "\<exists>c. Connector_run [Start True (3, 111), Timer (4, 115), Ready True True 111 False, Functor (0, 0), Timer (5, 0),
      Ready False True 0 False, Functor (0, 0)] Connector_new = Some c \<and> cn_delivered c = [5] \<and> cn_closed c = [3, 4] \<and>
    mset (cn_created c) = mset (cn_closed c) + mset (cn_delivered c) + owned c \<and>
    cn_delays c = map (\<lambda>k. min (500 * 2 ^ k) 30000) [0..<length (cn_delays c)]"
proof -
  let ?es = "[Start True (3, 111), Timer (4, 115), Ready True True 111 False, Functor (0, 0), Timer (5, 0),
      Ready False True 0 False, Functor (0, 0)]"
  note defs = Connector_new_def Connector_start_def Connector_startInLoop_def Connector_connect_def in_progress_errno_def
    retry_errno_def Connector_retry_def close_socket_def Connector_connecting_def Connector_handleError_def
    Connector_handleWrite_def Connector_removeAndResetChannel_def queueInLoop_def run_functor_def
    Connector_resetChannel_def starts_def resets_def kInitRetryDelayMs_def kMaxRetryDelayMs_def
  have "legal_run ?es Connector_new" by (simp add: defs)
  moreover have "\<exists>c. Connector_run ?es Connector_new = Some c \<and> cn_delivered c = [5] \<and> cn_closed c = [3, 4]"
    by (simp add: defs)
  ultimately show ?thesis using Connector_safe [of ?es] by (auto simp del: Connector_run.simps legal_run.simps)
qed



end
