(* ===== verification/TcpServer.thy ===== *)
theory TcpServer
  imports Prelude "HOL-Library.AList"
begin

text \<open>
  \<^verbatim>\<open>muduo/net/Acceptor.cc\<close>, \<^verbatim>\<open>EventLoopThreadPool.cc\<close>, \<^verbatim>\<open>TcpServer.cc\<close>: accepting connections, spreading them over the
  loops of a pool, and removing them. Loop 0 is the base loop, which accepts; the loops of the pool
  are numbered from 1. What a loop has been asked to run is a queue of tasks. Of a connection the
  server knows its number, name, socket and loop, and the phase of its life it is in (the connection itself is
  the subject of \<^theory_text>\<open>TcpConnection\<close>). A failed assertion has no result.
\<close>

section \<open>Acceptor\<close>

record acceptor =
  ac_listening :: bool
  ac_reading :: bool
  ac_idleFd :: int
  ac_closed :: "int list"

text \<open>\<open>idleFd\<close> is the result of opening \<^verbatim>\<open>/dev/null\<close>.\<close>

definition Acceptor_new :: "int \<Rightarrow> acceptor option" where
  "Acceptor_new idleFd =
     do {
       assert_that (0 \<le> idleFd);
       Some \<lparr>ac_listening = False, ac_reading = False, ac_idleFd = idleFd, ac_closed = []\<rparr> }"

definition Acceptor_listen :: "acceptor \<Rightarrow> acceptor" where
  "Acceptor_listen a = a\<lparr>ac_listening := True, ac_reading := True\<rparr>"

definition EMFILE :: int where "EMFILE = 24"

text \<open>
  The results of the system calls: \<open>connfd\<close> and \<open>errno\<close> of the first accept, and when that failed with
  \<^verbatim>\<open>EMFILE\<close>, the descriptor of the second accept and of opening \<^verbatim>\<open>/dev/null\<close> again. The output is the
  socket given to the callback, if there is a callback.
\<close>

definition Acceptor_handleRead :: "bool \<Rightarrow> int \<Rightarrow> int \<Rightarrow> int \<Rightarrow> int \<Rightarrow> acceptor \<Rightarrow> int option \<times> acceptor" where
  "Acceptor_handleRead callback connfd errno again reopened a =
     (if 0 \<le> connfd then
        (if callback then (Some connfd, a) else (None, a\<lparr>ac_closed := ac_closed a @ [connfd]\<rparr>))
      else if errno = EMFILE then
        (let a = a\<lparr>ac_closed := ac_closed a @ [ac_idleFd a]\<rparr>;
             a = a\<lparr>ac_idleFd := again\<rparr>;
             a = a\<lparr>ac_closed := ac_closed a @ [ac_idleFd a]\<rparr>;
             a = a\<lparr>ac_idleFd := reopened\<rparr>
         in (None, a))
      else (None, a))"

section \<open>EventLoopThreadPool\<close>

record looppool =
  lp_started :: bool
  lp_numThreads :: nat
  lp_next :: nat
  lp_loops :: "nat list"

definition EventLoopThreadPool_new :: looppool where
  "EventLoopThreadPool_new = \<lparr>lp_started = False, lp_numThreads = 0, lp_next = 0, lp_loops = []\<rparr>"

definition EventLoopThreadPool_setThreadNum :: "nat \<Rightarrow> looppool \<Rightarrow> looppool" where
  "EventLoopThreadPool_setThreadNum numThreads p = p\<lparr>lp_numThreads := numThreads\<rparr>"

text \<open>\<^verbatim>\<open>start()\<close>: thread \<open>i\<close> runs the loop \<open>i + 1\<close>.\<close>

definition EventLoopThreadPool_start :: "looppool \<Rightarrow> looppool option" where
  "EventLoopThreadPool_start p =
     do {
       assert_that (\<not> lp_started p);
       Some (p\<lparr>lp_started := True, lp_loops := lp_loops p @ map Suc [0..<lp_numThreads p]\<rparr>) }"

definition EventLoopThreadPool_getNextLoop :: "looppool \<Rightarrow> (nat \<times> looppool) option" where
  "EventLoopThreadPool_getNextLoop p =
     do {
       assert_that (lp_started p);
       if lp_loops p \<noteq> [] then
         do {
           assert_that (lp_next p < length (lp_loops p));
           let loop = lp_loops p ! lp_next p;
           let p = p\<lparr>lp_next := lp_next p + 1\<rparr>;
           let p = (if length (lp_loops p) \<le> lp_next p then p\<lparr>lp_next := 0\<rparr> else p);
           Some (loop, p) }
       else Some (0, p) }"

definition EventLoopThreadPool_getLoopForHash :: "nat \<Rightarrow> looppool \<Rightarrow> nat" where
  "EventLoopThreadPool_getLoopForHash hashCode p =
     (if lp_loops p \<noteq> [] then lp_loops p ! (hashCode mod length (lp_loops p)) else 0)"

definition EventLoopThreadPool_getAllLoops :: "looppool \<Rightarrow> nat list option" where
  "EventLoopThreadPool_getAllLoops p =
     do {
       assert_that (lp_started p);
       Some (if lp_loops p = [] then [0] else lp_loops p) }"

section \<open>TcpServer\<close>

record conn =
  c_id :: nat
  c_name :: string
  c_fd :: int
  c_loop :: nat

datatype phase = Connecting | Established | Closed | Destroyed

datatype task =
    ConnectEstablished conn
  | ConnectDestroyed conn
  | RemoveConnectionInLoop conn

record tcpserver =
  ts_ipPort :: string
  ts_name :: string
  ts_acceptor :: acceptor
  ts_threadPool :: looppool
  ts_started :: bool
  ts_nextConnId :: nat
  ts_connections :: "(string \<times> conn) list"
  ts_tasks :: "nat \<Rightarrow> task list"
  ts_phase :: "nat \<Rightarrow> phase"

definition TcpServer_new :: "int \<Rightarrow> string \<Rightarrow> string \<Rightarrow> tcpserver option" where
  "TcpServer_new idleFd ipPort nameArg =
     do {
       acceptor \<leftarrow> Acceptor_new idleFd;
       Some \<lparr>ts_ipPort = ipPort, ts_name = nameArg, ts_acceptor = acceptor, ts_threadPool = EventLoopThreadPool_new,
             ts_started = False, ts_nextConnId = 1, ts_connections = [], ts_tasks = (\<lambda>_. []),
             ts_phase = (\<lambda>_. Connecting)\<rparr> }"

definition TcpServer_setThreadNum :: "nat \<Rightarrow> tcpserver \<Rightarrow> tcpserver" where
  "TcpServer_setThreadNum numThreads s =
     s\<lparr>ts_threadPool := EventLoopThreadPool_setThreadNum numThreads (ts_threadPool s)\<rparr>"

definition queue_task :: "nat \<Rightarrow> task \<Rightarrow> tcpserver \<Rightarrow> tcpserver" where
  "queue_task l t s = s\<lparr>ts_tasks := (ts_tasks s)(l := ts_tasks s l @ [t])\<rparr>"

text \<open>\<^verbatim>\<open>connectEstablished\<close> and \<^verbatim>\<open>connectDestroyed\<close> of a connection, as far as its phase goes.\<close>

definition conn_established :: "conn \<Rightarrow> tcpserver \<Rightarrow> tcpserver option" where
  "conn_established c s =
     do {
       assert_that (ts_phase s (c_id c) = Connecting);
       Some (s\<lparr>ts_phase := (ts_phase s)(c_id c := Established)\<rparr>) }"

definition conn_destroyed :: "conn \<Rightarrow> tcpserver \<Rightarrow> tcpserver option" where
  "conn_destroyed c s =
     do {
       assert_that (ts_phase s (c_id c) = Established \<or> ts_phase s (c_id c) = Closed);
       Some (s\<lparr>ts_phase := (ts_phase s)(c_id c := Destroyed)\<rparr>) }"

definition TcpServer_start :: "tcpserver \<Rightarrow> tcpserver option" where
  "TcpServer_start s =
     (if \<not> ts_started s then
        do {
          let s = s\<lparr>ts_started := True\<rparr>;
          pool \<leftarrow> EventLoopThreadPool_start (ts_threadPool s);
          assert_that (\<not> ac_listening (ts_acceptor s));
          Some (s\<lparr>ts_threadPool := pool, ts_acceptor := Acceptor_listen (ts_acceptor s)\<rparr>) }
      else Some s)"

definition TcpServer_newConnection :: "int \<Rightarrow> tcpserver \<Rightarrow> tcpserver option" where
  "TcpServer_newConnection sockfd s =
     do {
       (ioLoop, pool) \<leftarrow> EventLoopThreadPool_getNextLoop (ts_threadPool s);
       let s = s\<lparr>ts_threadPool := pool\<rparr>;
       let buf = snprintf 64 (''-'' @ ts_ipPort s @ ''#'' @ show_nat (ts_nextConnId s));
       let connName = ts_name s @ buf;
       let conn = \<lparr>c_id = ts_nextConnId s, c_name = connName, c_fd = sockfd, c_loop = ioLoop\<rparr>;
       assert_that (ts_nextConnId s < 2 ^ 31 - 1);
       let s = s\<lparr>ts_nextConnId := ts_nextConnId s + 1\<rparr>;
       let s = s\<lparr>ts_connections := AList.update connName conn (ts_connections s)\<rparr>;
       if ioLoop = 0 then conn_established conn s
       else Some (queue_task ioLoop (ConnectEstablished conn) s) }"

definition TcpServer_removeConnectionInLoop :: "conn \<Rightarrow> tcpserver \<Rightarrow> tcpserver option" where
  "TcpServer_removeConnectionInLoop conn s =
     do {
       assert_that (map_of (ts_connections s) (c_name conn) \<noteq> None);
       let s = s\<lparr>ts_connections := AList.delete (c_name conn) (ts_connections s)\<rparr>;
       Some (queue_task (c_loop conn) (ConnectDestroyed conn) s) }"

text \<open>\<^verbatim>\<open>removeConnection()\<close>, called in the loop of the connection.\<close>

definition TcpServer_removeConnection :: "conn \<Rightarrow> tcpserver \<Rightarrow> tcpserver option" where
  "TcpServer_removeConnection conn s =
     (if c_loop conn = 0 then TcpServer_removeConnectionInLoop conn s
      else Some (queue_task 0 (RemoveConnectionInLoop conn) s))"

fun TcpServer_destroy_all :: "(string \<times> conn) list \<Rightarrow> tcpserver \<Rightarrow> tcpserver option" where
  "TcpServer_destroy_all [] s = Some s"
| "TcpServer_destroy_all ((_, conn) # cs) s =
     do {
       s \<leftarrow> (if c_loop conn = 0 then conn_destroyed conn s
             else Some (queue_task (c_loop conn) (ConnectDestroyed conn) s));
       TcpServer_destroy_all cs s }"

definition TcpServer_destroy :: "tcpserver \<Rightarrow> tcpserver option" where
  "TcpServer_destroy s =
     TcpServer_destroy_all (ts_connections s) (s\<lparr>ts_connections := []\<rparr>)"

definition run_task :: "task \<Rightarrow> tcpserver \<Rightarrow> tcpserver option" where
  "run_task t s =
     (case t of
        ConnectEstablished c \<Rightarrow> conn_established c s
      | ConnectDestroyed c \<Rightarrow> conn_destroyed c s
      | RemoveConnectionInLoop c \<Rightarrow> TcpServer_removeConnectionInLoop c s)"

text \<open>A connection accepted, a task run by a loop, and the close callback of a connection in its loop.\<close>

datatype server_event =
    Accept int int int int
  | RunTask nat
  | CloseConn conn

fun TcpServer_step :: "server_event \<Rightarrow> tcpserver \<Rightarrow> tcpserver option" where
  "TcpServer_step (Accept connfd errno again reopened) s =
     (let (fd, a) = Acceptor_handleRead True connfd errno again reopened (ts_acceptor s);
          s = s\<lparr>ts_acceptor := a\<rparr>
      in case fd of None \<Rightarrow> Some s | Some fd \<Rightarrow> TcpServer_newConnection fd s)"
| "TcpServer_step (RunTask l) s =
     (case ts_tasks s l of
        [] \<Rightarrow> Some s
      | t # ts \<Rightarrow> run_task t (s\<lparr>ts_tasks := (ts_tasks s)(l := ts)\<rparr>))"
| "TcpServer_step (CloseConn c) s =
     TcpServer_removeConnection c (s\<lparr>ts_phase := (ts_phase s)(c_id c := Closed)\<rparr>)"

fun TcpServer_run :: "server_event list \<Rightarrow> tcpserver \<Rightarrow> tcpserver option" where
  "TcpServer_run [] s = Some s"
| "TcpServer_run (e # es) s = do { s \<leftarrow> TcpServer_step e s; TcpServer_run es s }"

section \<open>Names and loops\<close>

definition conn_name :: "tcpserver \<Rightarrow> nat \<Rightarrow> string" where
  "conn_name s i = ts_name s @ snprintf 64 (''-'' @ ts_ipPort s @ ''#'' @ show_nat i)"

text \<open>The name keeps the whole number: an address and port take at most 51 characters, a number ten.\<close>

lemma conn_name_inject:
  assumes "length (ts_ipPort s) \<le> 51" "i < 2 ^ 31" "j < 2 ^ 31" "conn_name s i = conn_name s j"
  shows "i = j"
proof -
  have "length (show_nat i) \<le> 10" "length (show_nat j) \<le> 10"
    using assms(2,3) by (intro length_show_nat; simp)+
  then have "snprintf 64 (''-'' @ ts_ipPort s @ ''#'' @ show_nat k) = ''-'' @ ts_ipPort s @ ''#'' @ show_nat k"
    if "k = i \<or> k = j" for k
    using that assms(1) by (auto simp: snprintf_def)
  with assms(4) have "show_nat i = show_nat j" by (simp add: conn_name_def)
  then show ?thesis by (simp add: show_nat_inject)
qed

definition loop_no :: "nat \<Rightarrow> nat \<Rightarrow> nat" where
  "loop_no n i = (if n = 0 then 0 else (i - 1) mod n + 1)"

definition pool_inv :: "nat \<Rightarrow> nat \<Rightarrow> looppool \<Rightarrow> bool" where
  "pool_inv n k p \<longleftrightarrow>
     lp_started p \<and> lp_loops p = map Suc [0..<n] \<and> lp_next p = (if n = 0 then 0 else (k - 1) mod n)"

lemma getNextLoop_round_robin:
  assumes "pool_inv n k p" "1 \<le> k"
  shows "\<exists>p'. EventLoopThreadPool_getNextLoop p = Some (loop_no n k, p') \<and> pool_inv n (k + 1) p'"
proof (cases "n = 0")
  case False
  define m where "m = (k - 1) mod n"
  have m: "m < n" using False by (simp add: m_def)
  have "k mod n = (if Suc m = n then 0 else Suc m)"
    using assms(2) mod_Suc [of "k - 1" n] by (simp add: m_def)
  moreover have "lp_next p = m" "lp_started p" "lp_loops p = map Suc [0..<n]" "loop_no n k = m + 1"
    using assms(1) False by (simp_all add: pool_inv_def loop_no_def m_def)
  ultimately show ?thesis
    using m False by (auto simp: EventLoopThreadPool_getNextLoop_def pool_inv_def Let_def nth_append)
qed (use assms in \<open>simp add: EventLoopThreadPool_getNextLoop_def pool_inv_def loop_no_def\<close>)

section \<open>Invariant\<close>

text \<open>
  The status of a connection: its phase, the entry of the map under its name, and how often it
  stands in the queues to be established, removed and destroyed.
\<close>

type_synonym status = "phase \<times> conn option \<times> nat \<times> nat \<times> nat"

definition status :: "tcpserver \<Rightarrow> conn \<Rightarrow> status" where
  "status s c =
     (ts_phase s (c_id c), map_of (ts_connections s) (c_name c),
      count_list (ts_tasks s (c_loop c)) (ConnectEstablished c),
      count_list (ts_tasks s 0) (RemoveConnectionInLoop c),
      count_list (ts_tasks s (c_loop c)) (ConnectDestroyed c))"

fun status_ok :: "conn \<Rightarrow> status \<Rightarrow> bool" where
  "status_ok c (Connecting, m, e, r, d) \<longleftrightarrow> m = Some c \<and> e = 1 \<and> r = 0 \<and> d = 0"
| "status_ok c (Established, m, e, r, d) \<longleftrightarrow> m = Some c \<and> e = 0 \<and> r = 0 \<and> d = 0"
| "status_ok c (Closed, m, e, r, d) \<longleftrightarrow> e = 0 \<and> (m = Some c \<and> r = 1 \<and> d = 0 \<or> m = None \<and> r = 0 \<and> d = 1)"
| "status_ok c (Destroyed, m, e, r, d) \<longleftrightarrow> m = None \<and> e = 0 \<and> r = 0 \<and> d = 0"

fun task_at :: "nat \<Rightarrow> task \<Rightarrow> conn \<Rightarrow> bool" where
  "task_at l (ConnectEstablished c') c \<longleftrightarrow> c' = c \<and> l = c_loop c"
| "task_at l (ConnectDestroyed c') c \<longleftrightarrow> c' = c \<and> l = c_loop c"
| "task_at l (RemoveConnectionInLoop c') c \<longleftrightarrow> c' = c \<and> l = 0"

text \<open>\<open>f\<close> gives the connection of each number; \<open>n\<close> is the number of threads.\<close>

definition ts_inv :: "nat \<Rightarrow> (nat \<Rightarrow> conn) \<Rightarrow> tcpserver \<Rightarrow> bool" where
  "ts_inv n f s \<longleftrightarrow>
     length (ts_ipPort s) \<le> 51 \<and> 1 \<le> ts_nextConnId s \<and> ts_nextConnId s < 2 ^ 31 \<and>
     pool_inv n (ts_nextConnId s) (ts_threadPool s) \<and>
     (\<forall>i \<in> {1..<ts_nextConnId s}.
        c_id (f i) = i \<and> c_name (f i) = conn_name s i \<and> c_loop (f i) = loop_no n i \<and> status_ok (f i) (status s (f i))) \<and>
     (\<forall>l. \<forall>t \<in> set (ts_tasks s l). \<exists>i \<in> {1..<ts_nextConnId s}. task_at l t (f i)) \<and>
     (\<forall>x \<in> dom (map_of (ts_connections s)). \<exists>i \<in> {1..<ts_nextConnId s}. x = conn_name s i) \<and>
     (\<forall>i. ts_nextConnId s \<le> i \<longrightarrow> ts_phase s i = Connecting)"

lemma ts_inv_conn:
  "ts_inv n f s \<Longrightarrow> i \<in> {1..<ts_nextConnId s} \<Longrightarrow>
   c_id (f i) = i \<and> c_name (f i) = conn_name s i \<and> c_loop (f i) = loop_no n i \<and> status_ok (f i) (status s (f i))"
  by (simp add: ts_inv_def)

lemma ts_inv_names:
  assumes "ts_inv n f s" "i \<in> {1..<ts_nextConnId s}" "j < 2 ^ 31" "conn_name s i = conn_name s j"
  shows "i = j"
  using assms conn_name_inject [of s i j] by (auto simp: ts_inv_def)

lemma ts_inv_task:
  "ts_inv n f s \<Longrightarrow> t \<in> set (ts_tasks s l) \<Longrightarrow> \<exists>i \<in> {1..<ts_nextConnId s}. task_at l t (f i)"
  by (auto simp: ts_inv_def)

text \<open>
  A step that concerns one connection keeps the invariant when it leaves its status right and does
  not touch the others.
\<close>

lemma ts_inv_update:
  assumes inv: "ts_inv n f s" and i: "i \<in> {1..<ts_nextConnId s}"
    and same: "ts_ipPort s' = ts_ipPort s" "ts_name s' = ts_name s" "ts_nextConnId s' = ts_nextConnId s"
      "ts_threadPool s' = ts_threadPool s"
    and ok: "status_ok (f i) (status s' (f i))"
    and others: "\<And>c. c_id c \<noteq> i \<Longrightarrow> c_name c \<noteq> conn_name s i \<Longrightarrow> status s' c = status s c"
    and tasks: "\<And>l t. t \<in> set (ts_tasks s' l) \<Longrightarrow> t \<in> set (ts_tasks s l) \<or> task_at l t (f i)"
    and doms: "dom (map_of (ts_connections s')) \<subseteq> dom (map_of (ts_connections s))"
    and phases: "\<And>k. k \<noteq> i \<Longrightarrow> ts_phase s' k = ts_phase s k"
  shows "ts_inv n f s'"
proof -
  have name: "conn_name s' = conn_name s" using same by (simp add: conn_name_def fun_eq_iff)
  have "status_ok (f j) (status s' (f j))" if j: "j \<in> {1..<ts_nextConnId s}" for j
  proof (cases "j = i")
    case False
    note cj = ts_inv_conn [OF inv j]
    have "j < 2 ^ 31" using j inv by (auto simp: ts_inv_def)
    with ts_inv_names [OF inv i this] False cj have "c_name (f j) \<noteq> conn_name s i" by auto
    with others [of "f j"] cj False show ?thesis by simp
  qed (use ok in simp)
  moreover have "\<exists>k \<in> {1..<ts_nextConnId s}. task_at l t (f k)" if "t \<in> set (ts_tasks s' l)" for l t
    using tasks [OF that] i ts_inv_task [OF inv] by blast
  moreover have "\<exists>k \<in> {1..<ts_nextConnId s}. x = conn_name s k" if "x \<in> dom (map_of (ts_connections s'))" for x
  proof -
    from that doms have "x \<in> dom (map_of (ts_connections s))" by blast
    then show ?thesis using inv unfolding ts_inv_def by blast
  qed
  moreover have "ts_phase s' k = Connecting" if "ts_nextConnId s \<le> k" for k
    using that i phases [of k] inv by (auto simp: ts_inv_def)
  ultimately show ?thesis
    using inv unfolding ts_inv_def same name by blast
qed

lemma conn_established_inv:
  assumes "ts_inv n f s" "ts_tasks s l = ConnectEstablished c # ts"
  shows "\<exists>s'. conn_established c (s\<lparr>ts_tasks := (ts_tasks s)(l := ts)\<rparr>) = Some s' \<and> ts_inv n f s'"
proof -
  obtain i where i: "i \<in> {1..<ts_nextConnId s}" "c = f i" "l = c_loop c"
    using ts_inv_task [OF assms(1), of "ConnectEstablished c" l] assms(2) by auto
  note ci = ts_inv_conn [OF assms(1) i(1)]
  have ok: "ts_phase s (c_id c) = Connecting" "status_ok c (status s c)"
    using ci i assms(2) by (cases "ts_phase s (c_id c)"; auto simp: status_def)+
  let ?s = "s\<lparr>ts_tasks := (ts_tasks s)(l := ts), ts_phase := (ts_phase s)(c_id c := Established)\<rparr>"
  have "ts_inv n f ?s"
    by (rule ts_inv_update [OF assms(1) i(1)])
      (use assms(2) ok i ci in \<open>auto simp: status_def split: if_splits\<close>)
  with ok show ?thesis by (simp add: conn_established_def)
qed

lemma conn_destroyed_inv:
  assumes "ts_inv n f s" "ts_tasks s l = ConnectDestroyed c # ts"
  shows "\<exists>s'. conn_destroyed c (s\<lparr>ts_tasks := (ts_tasks s)(l := ts)\<rparr>) = Some s' \<and> ts_inv n f s'"
proof -
  obtain i where i: "i \<in> {1..<ts_nextConnId s}" "c = f i" "l = c_loop c"
    using ts_inv_task [OF assms(1), of "ConnectDestroyed c" l] assms(2) by auto
  note ci = ts_inv_conn [OF assms(1) i(1)]
  have ok: "ts_phase s (c_id c) = Closed" "status_ok c (status s c)"
    using ci i assms(2) by (cases "ts_phase s (c_id c)"; auto simp: status_def)+
  let ?s = "s\<lparr>ts_tasks := (ts_tasks s)(l := ts), ts_phase := (ts_phase s)(c_id c := Destroyed)\<rparr>"
  have "ts_inv n f ?s"
    by (rule ts_inv_update [OF assms(1) i(1)])
      (use assms(2) ok i ci in \<open>auto simp: status_def split: if_splits\<close>)
  with ok show ?thesis by (simp add: conn_destroyed_def)
qed

lemma removeConnectionInLoop_inv:
  assumes "ts_inv n f s" "ts_tasks s l = RemoveConnectionInLoop c # ts"
  shows "\<exists>s'. TcpServer_removeConnectionInLoop c (s\<lparr>ts_tasks := (ts_tasks s)(l := ts)\<rparr>) = Some s' \<and> ts_inv n f s'"
proof -
  obtain i where i: "i \<in> {1..<ts_nextConnId s}" "c = f i" "l = 0"
    using ts_inv_task [OF assms(1), of "RemoveConnectionInLoop c" l] assms(2) by auto
  note ci = ts_inv_conn [OF assms(1) i(1)]
  have ok: "ts_phase s (c_id c) = Closed" "map_of (ts_connections s) (c_name c) = Some c" "status_ok c (status s c)"
    using ci i assms(2) by (cases "ts_phase s (c_id c)"; auto simp: status_def)+
  let ?s = "queue_task (c_loop c) (ConnectDestroyed c)
    (s\<lparr>ts_tasks := (ts_tasks s)(l := ts), ts_connections := AList.delete (c_name c) (ts_connections s)\<rparr>)"
  have "ts_inv n f ?s"
    by (rule ts_inv_update [OF assms(1) i(1)])
      (use assms(2) ok i ci in \<open>auto simp: status_def queue_task_def delete_conv' split: if_splits\<close>)
  with ok show ?thesis by (simp add: TcpServer_removeConnectionInLoop_def)
qed

lemma removeConnection_inv:
  assumes "ts_inv n f s" "map_of (ts_connections s) (c_name c) = Some c" "ts_phase s (c_id c) = Established"
  shows "\<exists>s'. TcpServer_removeConnection c (s\<lparr>ts_phase := (ts_phase s)(c_id c := Closed)\<rparr>) = Some s' \<and> ts_inv n f s'"
proof -
  have "c_name c \<in> dom (map_of (ts_connections s))" using assms(2) by blast
  then obtain i where i: "i \<in> {1..<ts_nextConnId s}" "c_name c = conn_name s i"
    using assms(1) unfolding ts_inv_def by blast
  note ci = ts_inv_conn [OF assms(1) i(1)]
  then have "c = f i" using assms(2) i by (cases "ts_phase s i") (auto simp: status_def)
  with ci assms(3) have ok: "status_ok c (status s c)" "c_id c = i" by simp_all
  have "ts_inv n f (queue_task (c_loop c) (ConnectDestroyed c) (s\<lparr>ts_phase := (ts_phase s)(c_id c := Closed),
      ts_connections := AList.delete (c_name c) (ts_connections s)\<rparr>))"
    by (rule ts_inv_update [OF assms(1) i(1)])
      (use assms(2,3) ok i ci \<open>c = f i\<close> in \<open>auto simp: status_def queue_task_def delete_conv' split: if_splits\<close>)
  moreover have "ts_inv n f (queue_task 0 (RemoveConnectionInLoop c) (s\<lparr>ts_phase := (ts_phase s)(c_id c := Closed)\<rparr>))"
    by (rule ts_inv_update [OF assms(1) i(1)])
      (use assms(2,3) ok i ci \<open>c = f i\<close> in \<open>auto simp: status_def queue_task_def split: if_splits\<close>)
  ultimately show ?thesis
    using assms(2) by (cases "c_loop c = 0") (simp_all add: TcpServer_removeConnection_def TcpServer_removeConnectionInLoop_def)
qed

text \<open>The new connection has a name of its own, and nothing is queued for it yet.\<close>

lemma ts_inv_fresh:
  assumes "ts_inv n f s" "c_id c = ts_nextConnId s" "c_name c = conn_name s (ts_nextConnId s)"
  shows "status s c = (Connecting, None, 0, 0, 0)"
proof -
  have "map_of (ts_connections s) (c_name c) = None"
  proof (rule ccontr)
    assume "map_of (ts_connections s) (c_name c) \<noteq> None"
    then have "c_name c \<in> dom (map_of (ts_connections s))" by (simp add: domIff)
    then obtain i where "i \<in> {1..<ts_nextConnId s}" "c_name c = conn_name s i"
      using assms(1) unfolding ts_inv_def by blast
    with ts_inv_names [OF assms(1), of i "ts_nextConnId s"] assms show False by (auto simp: ts_inv_def)
  qed
  moreover have "t \<notin> set (ts_tasks s l)" if "t \<in> {ConnectEstablished c, RemoveConnectionInLoop c, ConnectDestroyed c}" for t l
  proof
    assume "t \<in> set (ts_tasks s l)"
    from ts_inv_task [OF assms(1) this] that obtain i where i: "i \<in> {1..<ts_nextConnId s}" "c = f i" by auto
    with ts_inv_conn [OF assms(1) i(1)] assms(2) show False by simp
  qed
  ultimately show ?thesis using assms by (auto simp: status_def count_list_0_iff ts_inv_def)
qed

lemma ts_inv_add:
  assumes inv: "ts_inv n f s" "ts_nextConnId s < 2 ^ 31 - 1"
    and c: "c_id c = ts_nextConnId s" "c_name c = conn_name s (ts_nextConnId s)" "c_loop c = loop_no n (ts_nextConnId s)"
    and same: "ts_ipPort s' = ts_ipPort s" "ts_name s' = ts_name s" "ts_nextConnId s' = ts_nextConnId s + 1"
      "pool_inv n (ts_nextConnId s + 1) (ts_threadPool s')"
    and ok: "status_ok c (status s' c)"
    and others: "\<And>d. c_id d \<noteq> c_id c \<Longrightarrow> c_name d \<noteq> c_name c \<Longrightarrow> status s' d = status s d"
    and tasks: "\<And>l t. t \<in> set (ts_tasks s' l) \<Longrightarrow> t \<in> set (ts_tasks s l) \<or> task_at l t c"
    and doms: "dom (map_of (ts_connections s')) \<subseteq> insert (c_name c) (dom (map_of (ts_connections s)))"
    and phases: "\<And>k. k \<noteq> c_id c \<Longrightarrow> ts_phase s' k = ts_phase s k"
  shows "ts_inv n (f(ts_nextConnId s := c)) s'"
proof -
  let ?k = "ts_nextConnId s"
  have name: "conn_name s' = conn_name s" using same by (simp add: conn_name_def fun_eq_iff)
  have range: "i \<in> {1..<?k} \<or> i = ?k" if "i \<in> {1..<?k + 1}" for i using that by auto
  have k: "?k \<in> {1..<?k + 1}" using inv(1) by (auto simp: ts_inv_def)
  have old: "c_id (f i) = i \<and> c_name (f i) = conn_name s i \<and> c_loop (f i) = loop_no n i \<and> status_ok (f i) (status s' (f i))"
    if i: "i \<in> {1..<?k}" for i
  proof -
    note ci = ts_inv_conn [OF inv(1) i]
    have "conn_name s i \<noteq> conn_name s ?k" using ts_inv_names [OF inv(1) i, of ?k] inv i by auto
    with others [of "f i"] ci c i show ?thesis by auto
  qed
  have t: "\<exists>i \<in> {1..<?k + 1}. task_at l t ((f(?k := c)) i)" if "t \<in> set (ts_tasks s' l)" for l t
    using tasks [OF that]
  proof
    assume "t \<in> set (ts_tasks s l)"
    from ts_inv_task [OF inv(1) this] obtain i where "i \<in> {1..<?k}" "task_at l t (f i)" by blast
    then show ?thesis by (intro bexI [of _ i]) auto
  qed (use k in \<open>intro bexI [of _ ?k], auto\<close>)
  have d: "\<exists>i \<in> {1..<?k + 1}. x = conn_name s i" if "x \<in> dom (map_of (ts_connections s'))" for x
  proof -
    from that doms consider "x = c_name c" | "x \<in> dom (map_of (ts_connections s))" by blast
    then show ?thesis
    proof cases
      case 1
      with c k show ?thesis by blast
    next
      case 2
      then obtain i where "i \<in> {1..<?k}" "x = conn_name s i" using inv(1) unfolding ts_inv_def by blast
      then show ?thesis by auto
    qed
  qed
  have "ts_phase s' j = Connecting" if "?k + 1 \<le> j" for j
    using that phases [of j] c(1) inv(1) by (auto simp: ts_inv_def)
  moreover have "\<forall>i \<in> {1..<?k + 1}. c_id ((f(?k := c)) i) = i \<and> c_name ((f(?k := c)) i) = conn_name s i \<and>
    c_loop ((f(?k := c)) i) = loop_no n i \<and> status_ok ((f(?k := c)) i) (status s' ((f(?k := c)) i))"
    using old range c ok by (auto simp del: One_nat_def)
  moreover have "length (ts_ipPort s) \<le> 51" "1 \<le> ?k" using inv(1) by (simp_all add: ts_inv_def)
  ultimately show ?thesis using inv(2) same t d unfolding ts_inv_def name same by auto
qed

lemma newConnection_inv:
  assumes "ts_inv n f s" "ts_nextConnId s < 2 ^ 31 - 1"
  shows "\<exists>s' f'. TcpServer_newConnection fd s = Some s' \<and> ts_inv n f' s'"
proof -
  let ?k = "ts_nextConnId s"
  from assms(1) have "pool_inv n ?k (ts_threadPool s)" "1 \<le> ?k" by (simp_all add: ts_inv_def)
  from getNextLoop_round_robin [OF this] obtain p where
    p: "EventLoopThreadPool_getNextLoop (ts_threadPool s) = Some (loop_no n ?k, p)" "pool_inv n (?k + 1) p" by blast
  define c where "c = \<lparr>c_id = ?k, c_name = conn_name s ?k, c_fd = fd, c_loop = loop_no n ?k\<rparr>"
  have cc: "c_id c = ?k" "c_name c = conn_name s ?k" "c_loop c = loop_no n ?k" by (simp_all add: c_def)
  define s1 where "s1 = s\<lparr>ts_threadPool := p, ts_nextConnId := ?k + 1,
    ts_connections := AList.update (c_name c) c (ts_connections s)\<rparr>"
  have fresh: "status s c = (Connecting, None, 0, 0, 0)" by (rule ts_inv_fresh [OF assms(1) cc(1,2)])
  have r: "TcpServer_newConnection fd s =
    (if loop_no n ?k = 0 then conn_established c s1 else Some (queue_task (loop_no n ?k) (ConnectEstablished c) s1))"
    using p(1) assms(2) by (simp add: TcpServer_newConnection_def s1_def c_def conn_name_def Let_def)
  show ?thesis
  proof (cases "loop_no n ?k = 0")
    case True
    have "ts_inv n (f(?k := c)) (s1\<lparr>ts_phase := (ts_phase s1)(c_id c := Established)\<rparr>)"
      by (rule ts_inv_add [OF assms cc])
        (use fresh p(2) in \<open>auto simp: s1_def status_def update_conv' split: if_splits\<close>)
    moreover have "ts_phase s1 (c_id c) = Connecting" using fresh by (simp add: s1_def status_def)
    ultimately show ?thesis using r True by (auto simp: conn_established_def)
  next
    case False
    have "ts_inv n (f(?k := c)) (queue_task (loop_no n ?k) (ConnectEstablished c) s1)"
      by (rule ts_inv_add [OF assms cc])
        (use fresh p(2) cc(3) in \<open>auto simp: s1_def status_def queue_task_def update_conv' split: if_splits\<close>)
    with r False show ?thesis by auto
  qed
qed

section \<open>Correctness\<close>

fun server_legal :: "server_event \<Rightarrow> tcpserver \<Rightarrow> bool" where
  "server_legal (Accept _ _ _ _) s \<longleftrightarrow> ts_nextConnId s < 2 ^ 31 - 1"
| "server_legal (RunTask _) s \<longleftrightarrow> True"
| "server_legal (CloseConn c) s \<longleftrightarrow>
     map_of (ts_connections s) (c_name c) = Some c \<and> ts_phase s (c_id c) = Established"

fun server_legal_run :: "server_event list \<Rightarrow> tcpserver \<Rightarrow> bool" where
  "server_legal_run [] s \<longleftrightarrow> True"
| "server_legal_run (e # es) s \<longleftrightarrow>
     server_legal e s \<and> (case TcpServer_step e s of None \<Rightarrow> True | Some s' \<Rightarrow> server_legal_run es s')"

lemma ts_inv_acceptor: "ts_inv n f (s\<lparr>ts_acceptor := a\<rparr>) = ts_inv n f s"
  by (simp add: ts_inv_def status_def conn_name_def)

lemma TcpServer_step_inv:
  assumes "ts_inv n f s" "server_legal e s"
  shows "\<exists>s' f'. TcpServer_step e s = Some s' \<and> ts_inv n f' s'"
proof (cases e)
  case (Accept connfd errno again reopened)
  obtain fd a where a: "Acceptor_handleRead True connfd errno again reopened (ts_acceptor s) = (fd, a)" by fastforce
  have i: "ts_inv n f (s\<lparr>ts_acceptor := a\<rparr>)" using assms(1) by (simp add: ts_inv_acceptor)
  with newConnection_inv [OF i] Accept a assms(2) show ?thesis by (cases fd) auto
next
  case (RunTask l)
  show ?thesis
  proof (cases "ts_tasks s l")
    case (Cons t ts)
    then show ?thesis
      using RunTask assms(1) conn_established_inv conn_destroyed_inv removeConnectionInLoop_inv
      by (cases t) (fastforce simp: run_task_def)+
  qed (use RunTask assms in auto)
next
  case (CloseConn c)
  with assms removeConnection_inv [OF assms(1)] show ?thesis by fastforce
qed

lemma TcpServer_run_inv:
  "ts_inv n f s \<Longrightarrow> server_legal_run es s \<Longrightarrow> \<exists>s' f'. TcpServer_run es s = Some s' \<and> ts_inv n f' s'"
proof (induction es arbitrary: f s)
  case (Cons e es)
  then have "server_legal e s" by simp
  from TcpServer_step_inv [OF Cons.prems(1) this] obtain s' f' where "TcpServer_step e s = Some s'" "ts_inv n f' s'" by blast
  with Cons show ?case by auto
qed auto

lemma ts_inv_start:
  assumes "TcpServer_new idleFd ipPort name = Some s0" "length ipPort \<le> 51"
    "TcpServer_start (TcpServer_setThreadNum n s0) = Some s"
  shows "ts_inv n f s"
  using assms
  by (auto simp: TcpServer_new_def Acceptor_new_def TcpServer_start_def TcpServer_setThreadNum_def
      EventLoopThreadPool_start_def EventLoopThreadPool_setThreadNum_def EventLoopThreadPool_new_def ts_inv_def
      pool_inv_def)

text \<open>
  C33. In every interleaving of accepted connections, tasks of the loops and connections that close, no assertion of
  the server fails: a connection is established once in its loop, found in the map when it is
  removed, and destroyed once, after its removal. The map holds exactly the connections that have
  not been removed, each under a name of its own, and the connection number \<open>i\<close> is on loop
  \<open>(i - 1) mod n + 1\<close> of \<open>n\<close>, or on the base loop without threads.
\<close>

theorem TcpServer_safe:
  assumes "TcpServer_new idleFd ipPort name = Some s0" "length ipPort \<le> 51"
    "TcpServer_start (TcpServer_setThreadNum n s0) = Some s" "server_legal_run es s"
  shows "\<exists>s'. TcpServer_run es s = Some s' \<and>
    (\<forall>i \<in> {1..<ts_nextConnId s'}.
       (ts_phase s' i = Connecting \<or> ts_phase s' i = Established \<longrightarrow>
          (\<exists>c. map_of (ts_connections s') (conn_name s' i) = Some c \<and> c_id c = i)) \<and>
       (ts_phase s' i = Destroyed \<longrightarrow> map_of (ts_connections s') (conn_name s' i) = None)) \<and>
    (\<forall>x c. map_of (ts_connections s') x = Some c \<longrightarrow>
       x = c_name c \<and> x = conn_name s' (c_id c) \<and> c_loop c = (if n = 0 then 0 else (c_id c - 1) mod n + 1))"
proof -
  from TcpServer_run_inv [OF ts_inv_start [OF assms(1-3)] assms(4)] obtain s' f where
    r: "TcpServer_run es s = Some s'" "ts_inv n f s'" by blast
  have "x = c_name c \<and> x = conn_name s' (c_id c) \<and> c_loop c = (if n = 0 then 0 else (c_id c - 1) mod n + 1)"
    if "map_of (ts_connections s') x = Some c" for x c
  proof -
    have "x \<in> dom (map_of (ts_connections s'))" using that by blast
    then obtain i where i: "i \<in> {1..<ts_nextConnId s'}" "x = conn_name s' i"
      using r(2) unfolding ts_inv_def by blast
    note ci = ts_inv_conn [OF r(2) i(1)]
    then have "c = f i" using that i by (cases "ts_phase s' i") (auto simp: status_def)
    with ci i show ?thesis by (simp add: loop_no_def)
  qed
  moreover have "(ts_phase s' i = Connecting \<or> ts_phase s' i = Established \<longrightarrow>
      (\<exists>c. map_of (ts_connections s') (conn_name s' i) = Some c \<and> c_id c = i)) \<and>
    (ts_phase s' i = Destroyed \<longrightarrow> map_of (ts_connections s') (conn_name s' i) = None)"
    if "i \<in> {1..<ts_nextConnId s'}" for i
    using ts_inv_conn [OF r(2) that] by (cases "ts_phase s' i") (auto simp: status_def)
  ultimately show ?thesis using r(1) by blast
qed

lemma show_one: "show_nat (Suc 0) = ''1''"
  by code_simp

theorem TcpServer_safe_witness:
  "\<exists>s0 s s'. TcpServer_new 3 ''0.0.0.0:80'' ''srv'' = Some s0 \<and> TcpServer_start (TcpServer_setThreadNum 2 s0) = Some s \<and>
     TcpServer_run [Accept 5 0 0 0, RunTask 1, CloseConn \<lparr>c_id = 1, c_name = ''srv-0.0.0.0:80#1'', c_fd = 5, c_loop = 1\<rparr>,
       Accept (-1) 24 7 8, RunTask 0, RunTask 1] s = Some s' \<and>
     ts_phase s' 1 = Destroyed \<and> map_of (ts_connections s') (conn_name s' 1) = None \<and> ac_idleFd (ts_acceptor s') = 8"
proof -
  let ?es = "[Accept 5 0 0 0, RunTask 1, CloseConn \<lparr>c_id = 1, c_name = ''srv-0.0.0.0:80#1'', c_fd = 5, c_loop = 1\<rparr>,
       Accept (-1) 24 7 8, RunTask 0, RunTask 1]"
  note defs = TcpServer_new_def Acceptor_new_def TcpServer_start_def TcpServer_setThreadNum_def EventLoopThreadPool_start_def
    EventLoopThreadPool_setThreadNum_def EventLoopThreadPool_new_def Acceptor_listen_def
  define s0 where "s0 = the (TcpServer_new 3 ''0.0.0.0:80'' ''srv'')"
  define s where "s = the (TcpServer_start (TcpServer_setThreadNum 2 s0))"
  have s0: "TcpServer_new 3 ''0.0.0.0:80'' ''srv'' = Some s0" by (simp add: s0_def defs)
  have s: "TcpServer_start (TcpServer_setThreadNum 2 s0) = Some s" by (simp add: s_def s0_def defs)
  have e: "s = \<lparr>ts_ipPort = ''0.0.0.0:80'', ts_name = ''srv'',
      ts_acceptor = \<lparr>ac_listening = True, ac_reading = True, ac_idleFd = 3, ac_closed = []\<rparr>,
      ts_threadPool = \<lparr>lp_started = True, lp_numThreads = 2, lp_next = 0, lp_loops = [1, 2]\<rparr>, ts_started = True,
      ts_nextConnId = 1, ts_connections = [], ts_tasks = (\<lambda>_. []), ts_phase = (\<lambda>_. Connecting)\<rparr>"
    by (simp add: s_def s0_def defs upt_rec)
  note steps = Acceptor_handleRead_def EMFILE_def TcpServer_newConnection_def EventLoopThreadPool_getNextLoop_def Let_def
    snprintf_def show_one queue_task_def run_task_def conn_established_def conn_destroyed_def TcpServer_removeConnection_def
    TcpServer_removeConnectionInLoop_def
  have r: "server_legal_run ?es s" "\<exists>s'. TcpServer_run ?es s = Some s' \<and> ts_phase s' 1 = Destroyed \<and>
      ac_idleFd (ts_acceptor s') = 8 \<and> ts_nextConnId s' = 2"
    by (simp_all add: e steps)
  from TcpServer_safe [OF s0 _ s r(1)] r(2) obtain s' where "TcpServer_run ?es s = Some s'" "ts_phase s' 1 = Destroyed"
    "ac_idleFd (ts_acceptor s') = 8" "map_of (ts_connections s') (conn_name s' 1) = None"
    by (auto simp del: TcpServer_run.simps)
  with s0 s show ?thesis by blast
qed

end
