(* ===== verification/UnsignedInt.thy ===== *)
theory UnsignedInt
  imports Prelude
begin

text \<open>
  \<^verbatim>\<open>recipes/basic/uint.h\<close>, \<^verbatim>\<open>uint.cc\<close>: unsigned integers of any size as vectors of 32-bit limbs, the least
  significant one first. A limb is a natural number below \<open>2^32\<close>; intermediate values of type \<^verbatim>\<open>uint64_t\<close> are
  reduced modulo \<open>2^64\<close>, and what is stored in a limb modulo \<open>2^32\<close>. The numbers must be normal: no leading
  zero limb. An abort or a failed assertion has no result.
\<close>

section \<open>Arithmetic\<close>

type_synonym limbs = "nat list"

definition kMask :: nat where "kMask = 0xFFFFFFFF"

definition u64 :: "nat \<Rightarrow> nat" where "u64 x = x mod 2 ^ 64"
definition u32 :: "nat \<Rightarrow> nat" where "u32 x = x mod 2 ^ 32"

text \<open>\<^verbatim>\<open>x & kMask_\<close> and \<^verbatim>\<open>x > kMask_\<close>.\<close>

definition low :: "nat \<Rightarrow> nat" where "low x = x mod 2 ^ 32"
definition over :: "nat \<Rightarrow> nat" where "over x = (if kMask < x then 1 else 0)"

definition UnsignedInt_new :: "nat \<Rightarrow> limbs" where
  "UnsignedInt_new x = (if 0 < x then [x] else [])"

definition isZero :: "limbs \<Rightarrow> bool" where "isZero l \<longleftrightarrow> l = []"
definition isNormal :: "limbs \<Rightarrow> bool" where "isNormal l \<longleftrightarrow> isZero l \<or> last l \<noteq> 0"

fun lexicographical_compare :: "nat list \<Rightarrow> nat list \<Rightarrow> bool" where
  "lexicographical_compare _ [] = False"
| "lexicographical_compare [] (_ # _) = True"
| "lexicographical_compare (x # xs) (y # ys) = (x < y \<or> \<not> y < x \<and> lexicographical_compare xs ys)"

definition lessThan :: "limbs \<Rightarrow> limbs \<Rightarrow> bool" where
  "lessThan l rhs \<longleftrightarrow>
     length l < length rhs \<or> length rhs = length l \<and> lexicographical_compare (rev l) (rev rhs)"

definition assign :: "nat \<Rightarrow> limbs" where
  "assign x = (if x = 0 then [] else [x])"

text \<open>The loops that propagate a carry to the rest of the limbs.\<close>

fun carry_loop :: "nat \<Rightarrow> limbs \<Rightarrow> limbs \<times> nat" where
  "carry_loop carry [] = ([], carry)"
| "carry_loop carry (l # ls) =
     (if carry = 0 then (l # ls, 0)
      else
        let sum = u64 (l + carry);
            (ls', carry') = carry_loop (over sum) ls
        in (low sum # ls', carry'))"

definition push_carry :: "limbs \<times> nat \<Rightarrow> limbs" where
  "push_carry r = (if snd r \<noteq> 0 then fst r @ [u32 (snd r)] else fst r)"

definition add_word :: "nat \<Rightarrow> limbs \<Rightarrow> limbs" where
  "add_word x l =
     (case l of
        [] \<Rightarrow> [x]
      | l0 # ls \<Rightarrow>
          let sum = u64 (l0 + x);
              (ls', carry) = carry_loop (over sum) ls
          in push_carry (low sum # ls', carry))"

fun add_loop :: "nat \<Rightarrow> limbs \<Rightarrow> limbs \<Rightarrow> limbs \<times> nat" where
  "add_loop carry (l # ls) (r # rs) =
     (let sum = u64 (l + r + carry);
          (ls', carry') = add_loop (over sum) ls rs
      in (low sum # ls', carry'))"
| "add_loop carry ls _ = carry_loop carry ls"

definition add :: "limbs \<Rightarrow> limbs \<Rightarrow> limbs" where
  "add rhs l =
     (let l = (if length l < length rhs then l @ replicate (length rhs - length l) 0 else l)
      in push_carry (add_loop 0 l rhs))"

text \<open>Subtraction modulo \<open>2^64\<close>.\<close>

definition sub64 :: "nat \<Rightarrow> nat \<Rightarrow> nat" where
  "sub64 a b = (a + 2 ^ 64 - b) mod 2 ^ 64"

fun borrow_loop :: "nat \<Rightarrow> limbs \<Rightarrow> limbs \<times> nat" where
  "borrow_loop carry [] = ([], carry)"
| "borrow_loop carry (l # ls) =
     (if carry = 0 then (l # ls, 0)
      else
        let sum = sub64 l carry;
            (ls', carry') = borrow_loop (over sum) ls
        in (low sum # ls', carry'))"

fun sub_loop :: "nat \<Rightarrow> limbs \<Rightarrow> limbs \<Rightarrow> limbs \<times> nat" where
  "sub_loop carry (l # ls) (r # rs) =
     (let sum = sub64 (sub64 l r) carry;
          (ls', carry') = sub_loop (over sum) ls rs
      in (low sum # ls', carry'))"
| "sub_loop carry ls _ = borrow_loop carry ls"

definition strip :: "limbs \<Rightarrow> limbs" where
  "strip l = rev (dropWhile (\<lambda>x. x = 0) (rev l))"

definition sub :: "limbs \<Rightarrow> limbs \<Rightarrow> limbs option" where
  "sub x l =
     do {
       assert_that (\<not> lessThan l x);
       assert_that (length x \<le> length l);
       let (l, carry) = sub_loop 0 l x;
       assert_that (carry = 0);
       Some (strip l) }"

fun mul_loop :: "nat \<Rightarrow> nat \<Rightarrow> limbs \<Rightarrow> limbs \<times> nat" where
  "mul_loop multiplier carry [] = ([], carry)"
| "mul_loop multiplier carry (l # ls) =
     (let prod = u64 (u64 (l * multiplier) + carry);
          (ls', carry') = mul_loop multiplier (prod div 0x10000 div 0x10000) ls
      in (low prod # ls', carry'))"

definition multiply_word :: "nat \<Rightarrow> limbs \<Rightarrow> limbs" where
  "multiply_word x l = (if x = 0 then [] else push_carry (mul_loop x 0 l))"

text \<open>The inner loop works on the result from the index \<open>k = i + j\<close> on.\<close>

fun mul_inner :: "nat \<Rightarrow> limbs \<Rightarrow> nat \<Rightarrow> nat \<Rightarrow> limbs \<Rightarrow> limbs" where
  "mul_inner r [] k carry result = result[k := u32 carry]"
| "mul_inner r (l # ls) k carry result =
     (let prod = u64 (u64 (u64 (r * l) + result ! k) + carry)
      in mul_inner r ls (k + 1) (prod div 0x10000 div 0x10000) (result[k := low prod]))"

fun mul_outer :: "limbs \<Rightarrow> nat \<Rightarrow> limbs \<Rightarrow> limbs \<Rightarrow> limbs" where
  "mul_outer [] i l result = result"
| "mul_outer (r # rs) i l result =
     mul_outer rs (i + 1) l (if r = 0 then result else mul_inner r l i 0 result)"

definition multiply :: "limbs \<Rightarrow> limbs \<Rightarrow> limbs" where
  "multiply rhs l =
     (if l = [] \<or> rhs = [] then []
      else
        let result = mul_outer rhs 0 l (replicate (length l + length rhs) 0)
        in if last result = 0 then butlast result else result)"

text \<open>The division loop runs from the most significant limb, the first of the list here.\<close>

fun div_loop :: "nat \<Rightarrow> nat \<Rightarrow> limbs \<Rightarrow> limbs \<times> nat" where
  "div_loop x carry [] = ([], carry)"
| "div_loop x carry (l # ls) =
     (let prod = u64 (u64 (carry * 2 ^ 32) + l);
          (ls', carry') = div_loop x (prod mod x) ls
      in (u32 (prod div x) # ls', carry'))"

definition devide :: "nat \<Rightarrow> limbs \<Rightarrow> (nat \<times> limbs) option" where
  "devide x l =
     do {
       assert_that (x \<noteq> 0 \<or> l = []);
       let (q, carry) = div_loop x 0 (rev l);
       let l = rev q;
       let l = (if l \<noteq> [] \<and> last l = 0 then butlast l else l);
       assert_that (isNormal l);
       Some (u32 carry, l) }"

fun power_loop :: "nat \<Rightarrow> limbs \<Rightarrow> limbs \<Rightarrow> limbs" where
  "power_loop n base result =
     (if n = 0 then result
      else power_loop (n div 2) (multiply base base) (if odd n then multiply base result else result))"

declare power_loop.simps [simp del]

definition power :: "nat \<Rightarrow> limbs \<Rightarrow> limbs" where
  "power n l =
     (if n = 0 then assign 1
      else if 1 < n then power_loop n l (UnsignedInt_new 1)
      else l)"

section \<open>Text\<close>














definition fromDec :: "char \<Rightarrow> nat" where
  "fromDec c = (let n = of_char c in if 48 \<le> n \<and> n \<le> 57 then n - 48 else 2 ^ 32 - 1)"

fun parseSegment :: "nat \<Rightarrow> string \<Rightarrow> nat" where
  "parseSegment seg [] = seg"
| "parseSegment seg (c # cs) = parseSegment (u32 (u32 (seg * 10) + fromDec c)) cs"

fun parseDec_loop :: "string \<Rightarrow> limbs \<Rightarrow> limbs option" where
  "parseDec_loop str l =
     (if str = [] then Some l
      else
        do {
          assert_that (9 \<le> length str);
          let seg = parseSegment 0 (take 9 str);
          parseDec_loop (drop 9 str) (add_word seg (multiply_word 1000000000 l)) })"

declare parseDec_loop.simps [simp del]

definition parseDec :: "string \<Rightarrow> limbs option" where
  "parseDec str =
     (let first = length str mod 9;
          l = (if first \<noteq> 0 then add_word (parseSegment 0 (take first str)) [] else [])
      in parseDec_loop (drop first str) l)"



text \<open>\<^verbatim>\<open>assign\<close> of a negative count is a count that no vector can have.\<close>

definition setValue :: "int \<Rightarrow> nat \<Rightarrow> limbs option" where
  "setValue n x = (if n < 0 then None else Some (replicate (nat n) x))"

definition highest :: "limbs \<Rightarrow> nat" where
  "highest l = (if l = [] then 0 else last l)"

section \<open>Values\<close>

definition B :: nat where "B = 4294967296"

lemma B_pos [simp]: "0 < B" "1 < B" "B \<noteq> 0" "Suc 0 \<le> B" "Suc 0 < B"
  by (simp_all add: B_def)

primrec val :: "limbs \<Rightarrow> nat" where
  "val [] = 0"
| "val (x # xs) = x + B * val xs"

definition limbs_ok :: "limbs \<Rightarrow> bool" where
  "limbs_ok l \<longleftrightarrow> (\<forall>x \<in> set l. x < B)"

lemma limbs_ok_simps [simp]: "limbs_ok []" "limbs_ok (x # xs) \<longleftrightarrow> x < B \<and> limbs_ok xs" "limbs_ok (xs @ ys) \<longleftrightarrow> limbs_ok xs \<and> limbs_ok ys" "limbs_ok (rev xs) = limbs_ok xs"
  by (auto simp: limbs_ok_def)

lemma val_append: "val (xs @ ys) = val xs + B ^ length xs * val ys"
  by (induction xs) (simp_all add: algebra_simps)

lemma val_less: "limbs_ok l \<Longrightarrow> val l < B ^ length l"
proof (induction l)
  case (Cons x l)
  then have "Suc (val l) \<le> B ^ length l" by simp
  then have "B * val l + B \<le> B * B ^ length l"
    using mult_le_mono2 [of "Suc (val l)" "B ^ length l" B] by simp
  with Cons show ?case by simp
qed simp

lemma val_replicate [simp]: "val (replicate n 0) = 0" "limbs_ok (replicate n 0)"
  by (induction n) simp_all

lemma val_ge: "l \<noteq> [] \<Longrightarrow> last l \<noteq> 0 \<Longrightarrow> B ^ (length l - 1) \<le> val l"
proof (induction l)
  case (Cons x l)
  show ?case
  proof (cases "l = []")
    case False
    with Cons have "B ^ (length l - 1) \<le> val l" by simp
    then have "B * B ^ (length l - 1) \<le> B * val l" by simp
    moreover have "B * B ^ (length l - 1) = B ^ length l" using False by (cases l) simp_all
    ultimately have "B ^ length l \<le> B * val l" by linarith
    then show ?thesis by simp
  qed (use Cons in simp)
qed simp

lemma u64_small: "x < B * B \<Longrightarrow> u64 x = x" by (simp add: u64_def B_def)
lemma u32_small: "x < B \<Longrightarrow> u32 x = x" by (simp add: u32_def B_def)
lemma low_mod: "low x = x mod B" by (simp add: low_def B_def)
lemma low_less [simp]: "low x < B" by (simp add: low_mod)
lemma over_less: "over x = (if x < B then 0 else 1)" by (simp add: over_def kMask_def B_def)
lemma two_B: "x < 2 * B \<Longrightarrow> x < B * B" by (simp add: B_def)

lemma low_over:
  assumes "x < 2 * B"
  shows "low x + B * over x = x" "over x \<le> 1"
proof -
  show "over x \<le> 1" by (simp add: over_less)
  have "x mod B = (if x < B then x else x - B)" using assms by (auto simp: mod_if)
  then show "low x + B * over x = x" by (simp add: low_mod over_less)
qed

section \<open>Addition\<close>

lemma carry_less: "c \<le> 1 \<Longrightarrow> c < B"
  by (simp add: B_def)

text \<open>One step of a loop with a carry: \<open>lo\<close> and \<open>c0\<close> are the digit and the carry made of \<open>s\<close>.\<close>

lemma carry_step:
  assumes "lo + B * c0 = s" "v + P * c1 = w + c0"
  shows "lo + B * v + B * P * c1 = s + B * (w :: nat)"
proof -
  have "B * (v + P * c1) = B * (w + c0)" using assms(2) by simp
  with assms(1) show ?thesis by (simp add: algebra_simps)
qed

lemma carry_loop_spec:
  "limbs_ok ls \<Longrightarrow> c \<le> 1 \<Longrightarrow>
   limbs_ok (fst (carry_loop c ls)) \<and> snd (carry_loop c ls) \<le> 1 \<and> length (fst (carry_loop c ls)) = length ls \<and>
   val (fst (carry_loop c ls)) + B ^ length ls * snd (carry_loop c ls) = val ls + c"
proof (induction ls arbitrary: c)
  case (Cons l ls)
  show ?case
  proof (cases "c = 0")
    case False
    have s: "l + c < 2 * B" "u64 (l + c) = l + c" using Cons.prems carry_less [of c] by (auto intro!: u64_small two_B)
    note lo = low_over [OF s(1)]
    note ih = Cons.IH [OF _ lo(2)]
    from carry_step [OF lo(1), of _ "B ^ length ls" _ "val ls"] ih Cons.prems(1) False s(2) show ?thesis
      by (simp add: Let_def case_prod_beta mult.assoc)
  qed (use Cons.prems in simp)
qed simp

lemma push_carry_spec:
  assumes "limbs_ok ls" "c < B"
  shows "limbs_ok (push_carry (ls, c))" "val (push_carry (ls, c)) = val ls + B ^ length ls * c"
  using assms by (auto simp: push_carry_def val_append u32_small)

lemma add_word_spec:
  assumes "limbs_ok l" "x < B"
  shows "limbs_ok (add_word x l) \<and> val (add_word x l) = val l + x"
proof (cases l)
  case (Cons l0 ls)
  have s: "l0 + x < 2 * B" "u64 (l0 + x) = l0 + x" using assms Cons by (auto intro!: u64_small two_B)
  note lo = low_over [OF s(1)]
  define r where "r = carry_loop (over (l0 + x)) ls"
  have c: "limbs_ok (fst r)" "snd r \<le> 1" "length (fst r) = length ls" "val (fst r) + B ^ length ls * snd r = val ls + over (l0 + x)"
    using carry_loop_spec [OF _ lo(2), of ls] assms Cons by (auto simp: r_def)
  have e: "add_word x l = push_carry (low (l0 + x) # fst r, snd r)"
    using Cons s(2) by (simp add: add_word_def r_def Let_def case_prod_beta)
  have w: "limbs_ok (low (l0 + x) # fst r)" using c by simp
  from push_carry_spec [OF w carry_less [OF c(2)]] carry_step [OF lo(1) c(4)] c(3) Cons show ?thesis
    unfolding e by (simp add: mult.assoc)
qed (use assms in \<open>simp add: add_word_def\<close>)

lemma add_loop_spec:
  "limbs_ok ls \<Longrightarrow> limbs_ok rs \<Longrightarrow> c \<le> 1 \<Longrightarrow> length rs \<le> length ls \<Longrightarrow>
   limbs_ok (fst (add_loop c ls rs)) \<and> snd (add_loop c ls rs) \<le> 1 \<and> length (fst (add_loop c ls rs)) = length ls \<and>
   val (fst (add_loop c ls rs)) + B ^ length ls * snd (add_loop c ls rs) = val ls + val rs + c"
proof (induction rs arbitrary: c ls)
  case Nil
  then show ?case using carry_loop_spec [of ls c] by simp
next
  case (Cons r rs)
  then obtain l ls0 where ls: "ls = l # ls0" by (cases ls) auto
  have s: "l + r + c < 2 * B" "u64 (l + r + c) = l + r + c"
    using Cons.prems ls carry_less [of c] by (auto intro!: u64_small two_B)
  note lo = low_over [OF s(1)]
  define q where "q = add_loop (over (l + r + c)) ls0 rs"
  have ih: "limbs_ok (fst q)" "snd q \<le> 1" "length (fst q) = length ls0"
    "val (fst q) + B ^ length ls0 * snd q = val ls0 + val rs + over (l + r + c)"
    using Cons.IH [of ls0, OF _ _ lo(2)] Cons.prems ls by (auto simp: q_def)
  have "add_loop c ls (r # rs) = (low (l + r + c) # fst q, snd q)"
    by (simp add: ls s(2) q_def Let_def case_prod_beta)
  with ih carry_step [OF lo(1) ih(4)] ls show ?case by (simp add: mult.assoc algebra_simps)
qed

lemma add_spec:
  assumes "limbs_ok l" "limbs_ok rhs"
  shows "limbs_ok (add rhs l) \<and> val (add rhs l) = val l + val rhs"
proof -
  define l' where "l' = (if length l < length rhs then l @ replicate (length rhs - length l) 0 else l)"
  have l: "limbs_ok l'" "val l' = val l" "length rhs \<le> length l'" using assms by (auto simp: l'_def val_append)
  define r where "r = add_loop 0 l' rhs"
  from add_loop_spec [OF l(1) assms(2) _ l(3), of 0] have
    c: "limbs_ok (fst r)" "snd r \<le> 1" "length (fst r) = length l'" "val (fst r) + B ^ length l' * snd r = val l + val rhs"
    using l(2) by (auto simp: r_def)
  have "add rhs l = push_carry (fst r, snd r)" by (simp add: add_def r_def l'_def)
  with push_carry_spec [OF c(1) carry_less [OF c(2)]] c(3,4) show ?thesis by simp
qed

section \<open>Comparison\<close>

lemma digit_less:
  assumes "a < P" "b < (P :: nat)"
  shows "a + P * x < b + P * y \<longleftrightarrow> x < y \<or> \<not> y < x \<and> a < b"
proof -
  have "u < v \<Longrightarrow> c < P \<Longrightarrow> c + P * u < d + P * v" for u v c d
    using mult_le_mono2 [of "Suc u" v P] by simp
  with assms show ?thesis by (metis less_asym linorder_neqE_nat nat_add_left_cancel_less add.commute)
qed

lemma lexicographical_compare_val:
  "length xs = length ys \<Longrightarrow> limbs_ok xs \<Longrightarrow> limbs_ok ys \<Longrightarrow>
   lexicographical_compare xs ys \<longleftrightarrow> val (rev xs) < val (rev ys)"
proof (induction xs ys rule: list_induct2)
  case (Cons x xs y ys)
  have "val (rev xs) < B ^ length xs" "val (rev ys) < B ^ length xs"
    using val_less [of "rev xs"] val_less [of "rev ys"] Cons by simp_all
  from digit_less [OF this, of x y] Cons show ?case by (simp add: val_append)
qed simp

lemma val_longer:
  assumes "limbs_ok l" "limbs_ok r" "isNormal r" "length l < length r"
  shows "val l < val r"
proof -
  have "val l < B ^ length l" by (rule val_less [OF assms(1)])
  also have "\<dots> \<le> B ^ (length r - 1)" using assms(4) by (intro power_increasing) auto
  also have "\<dots> \<le> val r" using val_ge [of r] assms(3,4) by (cases "r = []") (auto simp: isNormal_def isZero_def)
  finally show ?thesis .
qed

lemma lessThan_val:
  assumes "limbs_ok l" "limbs_ok r" "isNormal l" "isNormal r"
  shows "lessThan l r \<longleftrightarrow> val l < val r"
  using val_longer [OF assms(1,2,4)] val_longer [OF assms(2,1,3)]
    lexicographical_compare_val [of "rev l" "rev r"] assms
  by (auto simp: lessThan_def) (metis less_asym linorder_neqE_nat)+

lemma normal_ge:
  assumes "limbs_ok l"
  shows "isNormal l \<longleftrightarrow> l = [] \<or> B ^ (length l - 1) \<le> val l"
proof (cases l rule: rev_cases)
  case (snoc ls x)
  then show ?thesis
    using assms val_ge [of l] val_less [of ls] by (cases "x = 0") (auto simp: isNormal_def isZero_def val_append)
qed (simp add: isNormal_def isZero_def)

text \<open>A normal vector is determined by its value.\<close>

lemma val_inject_length: "length xs = length ys \<Longrightarrow> limbs_ok xs \<Longrightarrow> limbs_ok ys \<Longrightarrow> val xs = val ys \<Longrightarrow> xs = ys"
proof (induction xs ys rule: list_induct2)
  case (Cons x xs y ys)
  have "x = (x + B * val xs) mod B" using Cons.prems(1) by simp
  also have "\<dots> = (y + B * val ys) mod B" using Cons.prems(3) by (simp only: val.simps)
  also have "\<dots> = y" using Cons.prems(2) by simp
  finally have "x = y" .
  with Cons show ?case by simp
qed simp

lemma val_inject:
  assumes "limbs_ok l" "limbs_ok r" "isNormal l" "isNormal r" "val l = val r"
  shows "l = r"
  using val_longer [OF assms(1,2,4)] val_longer [OF assms(2,1,3)] val_inject_length [OF _ assms(1,2)] assms(5)
  by (metis less_irrefl linorder_neqE_nat)

section \<open>Subtraction\<close>

lemma sub64_spec:
  assumes "l < B" "r < B" "c \<le> 1"
  shows "low (sub64 (sub64 l r) c) + r + c = l + B * over (sub64 (sub64 l r) c)"
proof (cases "r + c \<le> l")
  case True
  then have "sub64 (sub64 l r) c = l - r - c" using assms by (simp add: sub64_def B_def mod_if)
  with True assms show ?thesis by (simp add: low_mod over_less)
next
  case False
  define M :: nat where "M = 4294967295"
  define t where "t = B + l - r - c"
  have "sub64 (sub64 l r) c = B * M + t"
    using False assms by (auto simp: t_def sub64_def mod_if M_def B_def)
  moreover have "t < B" "t + r + c = B + l" using False assms carry_less [OF assms(3)] by (auto simp: t_def)
  moreover have "\<not> B * M + t < B" by (simp add: M_def)
  ultimately show ?thesis by (simp add: low_mod over_less)
qed

lemma sub64_0: "l < B \<Longrightarrow> sub64 l 0 = l"
  by (simp add: sub64_def B_def)

text \<open>The same for a borrow.\<close>

lemma borrow_step:
  assumes "lo + r = l + B * c0" "v + w + c0 = u + P * c1"
  shows "lo + B * v + r + B * w = l + B * u + B * P * (c1 :: nat)"
proof -
  have "B * (v + w + c0) = B * (u + P * c1)" using assms(2) by simp
  with assms(1) show ?thesis by (simp add: algebra_simps)
qed

lemma over_le [simp]: "over x \<le> 1" "over x \<le> Suc 0"
  by (simp_all add: over_def)

lemma borrow_loop_spec:
  "limbs_ok ls \<Longrightarrow> c \<le> 1 \<Longrightarrow>
   limbs_ok (fst (borrow_loop c ls)) \<and> length (fst (borrow_loop c ls)) = length ls \<and>
   val (fst (borrow_loop c ls)) + 0 + c = val ls + B ^ length ls * snd (borrow_loop c ls)"
proof (induction ls arbitrary: c)
  case (Cons l ls)
  define s where "s = sub64 l c"
  define q where "q = borrow_loop (over s) ls"
  show ?case
  proof (cases "c = 0")
    case False
    have ih: "limbs_ok (fst q)" "length (fst q) = length ls" "val (fst q) + 0 + over s = val ls + B ^ length ls * snd q"
      using Cons.IH [of "over s"] Cons.prems by (simp_all add: q_def)
    have "low s + c = l + B * over s"
      using sub64_spec [of l 0 c] sub64_0 [of l] Cons.prems by (simp add: s_def)
    moreover have "borrow_loop c (l # ls) = (low s # fst q, snd q)"
      using False by (simp add: q_def s_def Let_def case_prod_beta)
    ultimately show ?thesis using borrow_step [OF _ ih(3)] ih(1,2) by (simp add: mult.assoc)
  qed (use Cons.prems in simp)
qed simp

lemma sub_loop_spec:
  "limbs_ok ls \<Longrightarrow> limbs_ok rs \<Longrightarrow> c \<le> 1 \<Longrightarrow> length rs \<le> length ls \<Longrightarrow>
   limbs_ok (fst (sub_loop c ls rs)) \<and> length (fst (sub_loop c ls rs)) = length ls \<and>
   val (fst (sub_loop c ls rs)) + val rs + c = val ls + B ^ length ls * snd (sub_loop c ls rs)"
proof (induction rs arbitrary: c ls)
  case Nil
  then show ?case using borrow_loop_spec [of ls c] by simp
next
  case (Cons r rs)
  then obtain l ls0 where ls: "ls = l # ls0" by (cases ls) auto
  define s where "s = sub64 (sub64 l r) c"
  define q where "q = sub_loop (over s) ls0 rs"
  have ih: "limbs_ok (fst q)" "length (fst q) = length ls0" "val (fst q) + val rs + over s = val ls0 + B ^ length ls0 * snd q"
    using Cons.IH [of ls0 "over s"] Cons.prems ls by (simp_all add: q_def)
  have "low s + (r + c) = l + B * over s" using sub64_spec [of l r c] Cons.prems ls by (simp add: s_def)
  moreover have "sub_loop c ls (r # rs) = (low s # fst q, snd q)"
    by (simp add: ls q_def s_def Let_def case_prod_beta)
  ultimately show ?case using borrow_step [OF _ ih(3), of "low s" "r + c" l] ih(1,2) ls by (simp add: mult.assoc)
qed

lemma strip_append: "strip (l @ [x]) = (if x = 0 then strip l else l @ [x])"
  by (simp add: strip_def)

lemma strip_spec: "limbs_ok l \<Longrightarrow> limbs_ok (strip l) \<and> isNormal (strip l) \<and> val (strip l) = val l"
proof (induction l rule: rev_induct)
  case Nil
  then show ?case by (simp add: strip_def isNormal_def isZero_def)
next
  case (snoc x l)
  then show ?case by (auto simp: strip_append val_append isNormal_def)
qed

lemma sub_spec:
  assumes "limbs_ok l" "limbs_ok x" "isNormal l" "isNormal x" "val x \<le> val l"
  shows "\<exists>r. sub x l = Some r \<and> limbs_ok r \<and> isNormal r \<and> val r = val l - val x"
proof -
  define q where "q = sub_loop 0 l x"
  have len: "length x \<le> length l" using val_longer [of l x] assms by (meson leD not_le_imp_less)
  have q: "limbs_ok (fst q)" "length (fst q) = length l" "val (fst q) + val x = val l + B ^ length l * snd q"
    using sub_loop_spec [OF assms(1,2) _ len, of 0] by (simp_all add: q_def)
  have c: "snd q = 0"
  proof (rule ccontr)
    assume "snd q \<noteq> 0"
    then have "B ^ length l \<le> B ^ length l * snd q" by simp
    with q(3) assms(5) val_less [OF q(1)] q(2) show False by simp
  qed
  have "sub x l = Some (strip (fst q))"
    using lessThan_val [of l x] assms len c by (simp add: sub_def q_def case_prod_beta assert_that_def)
  with strip_spec [OF q(1)] q(3) c show ?thesis by auto
qed

lemma sub_underflow:
  assumes "limbs_ok l" "limbs_ok x" "isNormal l" "isNormal x" "val l < val x"
  shows "sub x l = None"
  using lessThan_val [of l x] assms by (simp add: sub_def assert_that_def)

section \<open>Multiplication\<close>

lemma product_bound:
  assumes "a < B" "b < B" "c < B" "d < B"
  shows "a * b + c + d < B * B"
proof -
  obtain k where k: "B = Suc k" using B_pos(1) gr0_implies_Suc by blast
  have "a * b \<le> k * k" using assms by (intro mult_le_mono) (simp_all add: k)
  with assms show ?thesis by (simp add: k)
qed

lemma high_spec:
  assumes "p < B * B"
  shows "u64 p div 0x10000 div 0x10000 = p div B" "p div B < B" "low p + B * (p div B) = p"
proof -
  show "u64 p div 0x10000 div 0x10000 = p div B"
    unfolding u64_small [OF assms] by (simp add: div_mult2_eq [symmetric] B_def)
  show "p div B < B" using assms by (simp add: less_mult_imp_div_less)
  show "low p + B * (p div B) = p" by (simp add: low_mod)
qed

lemma mul_loop_spec:
  "limbs_ok ls \<Longrightarrow> m < B \<Longrightarrow> c < B \<Longrightarrow>
   limbs_ok (fst (mul_loop m c ls)) \<and> snd (mul_loop m c ls) < B \<and> length (fst (mul_loop m c ls)) = length ls \<and>
   val (fst (mul_loop m c ls)) + B ^ length ls * snd (mul_loop m c ls) = m * val ls + c"
proof (induction ls arbitrary: c)
  case (Cons l ls)
  define p where "p = l * m + c"
  have b: "l * m < B * B" "p < B * B"
    using product_bound [of l m 0 0] product_bound [of l m c 0] Cons.prems by (simp_all add: p_def)
  note h = high_spec [OF b(2)]
  define q where "q = mul_loop m (p div B) ls"
  have ih: "limbs_ok (fst q)" "snd q < B" "length (fst q) = length ls"
    "val (fst q) + B ^ length ls * snd q = m * val ls + p div B"
    using Cons.IH [OF _ _ h(2)] Cons.prems by (simp_all add: q_def)
  have "mul_loop m c (l # ls) = (low p # fst q, snd q)"
    using h(1) u64_small [OF b(1)] u64_small [OF b(2)] by (simp add: q_def p_def Let_def case_prod_beta)
  with ih carry_step [OF h(3) ih(4)] show ?case by (simp add: p_def algebra_simps)
qed simp

lemma multiply_word_spec:
  assumes "limbs_ok l" "x < B"
  shows "limbs_ok (multiply_word x l) \<and> val (multiply_word x l) = val l * x"
proof (cases "x = 0")
  case False
  define r where "r = mul_loop x 0 l"
  from mul_loop_spec [OF assms, of 0] have
    c: "limbs_ok (fst r)" "snd r < B" "length (fst r) = length l" "val (fst r) + B ^ length l * snd r = x * val l"
    by (simp_all add: r_def)
  from False push_carry_spec [OF c(1,2)] c(3,4) show ?thesis
    by (simp add: multiply_word_def r_def [symmetric] mult.commute)
qed (simp add: multiply_word_def)

lemma val_update: "k < length xs \<Longrightarrow> val (xs[k := y]) + B ^ k * xs ! k = val xs + B ^ k * y"
proof (induction xs arbitrary: k)
  case (Cons x xs)
  show ?case
  proof (cases k)
    case (Suc j)
    with Cons have "B * (val (xs[j := y]) + B ^ j * xs ! j) = B * (val xs + B ^ j * y)" by simp
    with Suc show ?thesis by (simp add: algebra_simps)
  qed simp
qed simp

lemma limbs_ok_update: "limbs_ok xs \<Longrightarrow> y < B \<Longrightarrow> limbs_ok (xs[k := y])"
  unfolding limbs_ok_def using set_update_subset_insert by fastforce

lemma limbs_ok_nth: "limbs_ok xs \<Longrightarrow> k < length xs \<Longrightarrow> xs ! k < B"
  by (simp add: limbs_ok_def)

text \<open>The rows of the long multiplication: the inner loop adds \<open>r * ls + c\<close> at position \<open>k\<close>, and touches nothing
  above the limb that takes its carry.\<close>

lemma mul_inner_spec:
  "limbs_ok ls \<Longrightarrow> limbs_ok res \<Longrightarrow> r < B \<Longrightarrow> c < B \<Longrightarrow> k + length ls < length res \<Longrightarrow> res ! (k + length ls) = 0 \<Longrightarrow>
   limbs_ok (mul_inner r ls k c res) \<and> length (mul_inner r ls k c res) = length res \<and>
   (\<forall>j. k + length ls < j \<longrightarrow> mul_inner r ls k c res ! j = res ! j) \<and>
   val (mul_inner r ls k c res) = val res + B ^ k * (r * val ls + c)"
proof (induction ls arbitrary: k c res)
  case Nil
  then show ?case using val_update [of k res "u32 c"] by (simp add: limbs_ok_update u32_small)
next
  case (Cons l ls)
  define p where "p = r * l + res ! k + c"
  have b: "r * l < B * B" "r * l + res ! k < B * B" "p < B * B"
    using product_bound [of r l 0 0] product_bound [of r l "res ! k" 0] product_bound [of r l "res ! k" c]
      limbs_ok_nth [of res k] Cons.prems by (simp_all add: p_def)
  note h = high_spec [OF b(3)]
  define res' where "res' = res[k := low p]"
  have e: "mul_inner r (l # ls) k c res = mul_inner r ls (k + 1) (p div B) res'"
    using h(1) u64_small [OF b(1)] u64_small [OF b(2)] u64_small [OF b(3)] by (simp add: res'_def p_def Let_def)
  have v: "val res' + B ^ k * res ! k = val res + B ^ k * low p"
    unfolding res'_def by (rule val_update) (use Cons.prems in simp)
  have "B ^ k * (low p + B * (p div B)) = B ^ k * p" by (simp only: h(3))
  with v have "val res' + B ^ (k + 1) * (r * val ls + p div B) = val res + B ^ k * (r * val (l # ls) + c)"
    by (simp add: p_def algebra_simps)
  moreover have "limbs_ok res'" using Cons.prems by (simp add: res'_def limbs_ok_update)
  ultimately show ?case
    unfolding e using Cons.IH [of res' "p div B" "k + 1"] Cons.prems h(2) by (simp add: res'_def)
qed

lemma mul_outer_spec:
  "limbs_ok rs \<Longrightarrow> limbs_ok l \<Longrightarrow> limbs_ok res \<Longrightarrow> i + length rs + length l \<le> length res \<Longrightarrow>
   (\<forall>j. i + length l \<le> j \<longrightarrow> j < length res \<longrightarrow> res ! j = 0) \<Longrightarrow>
   limbs_ok (mul_outer rs i l res) \<and> length (mul_outer rs i l res) = length res \<and>
   val (mul_outer rs i l res) = val res + B ^ i * (val l * val rs)"
proof (induction rs arbitrary: i res)
  case (Cons r rs)
  define res' where "res' = (if r = 0 then res else mul_inner r l i 0 res)"
  have r: "limbs_ok res'" "length res' = length res" "\<forall>j. i + length l < j \<longrightarrow> res' ! j = res ! j"
    "val res' = val res + B ^ i * (r * val l)"
    using mul_inner_spec [of l res r 0 i] Cons.prems by (simp_all add: res'_def)
  have "limbs_ok (mul_outer rs (i + 1) l res') \<and> length (mul_outer rs (i + 1) l res') = length res' \<and>
     val (mul_outer rs (i + 1) l res') = val res' + B ^ (i + 1) * (val l * val rs)"
    by (rule Cons.IH) (use Cons.prems r in auto)
  with r(2,4) show ?case by (simp add: res'_def [symmetric] algebra_simps)
qed simp

lemma multiply_spec:
  assumes "limbs_ok l" "limbs_ok rhs"
  shows "limbs_ok (multiply rhs l) \<and> val (multiply rhs l) = val l * val rhs"
    "isNormal l \<Longrightarrow> isNormal rhs \<Longrightarrow> isNormal (multiply rhs l)"
proof -
  define res where "res = mul_outer rhs 0 l (replicate (length l + length rhs) 0)"
  have r: "limbs_ok res" "length res = length l + length rhs" "val res = val l * val rhs"
    using mul_outer_spec [OF assms(2,1), of "replicate (length l + length rhs) 0" 0] by (simp_all add: res_def)
  have e: "multiply rhs l = (if l = [] \<or> rhs = [] then [] else if last res = 0 then butlast res else res)"
    by (simp add: multiply_def res_def)
  obtain ls x where s: "res = ls @ [x]" if "l \<noteq> []" by (cases res rule: rev_cases) (use r in auto)
  show v: "limbs_ok (multiply rhs l) \<and> val (multiply rhs l) = val l * val rhs"
    using r s by (auto simp: e val_append)
  show "isNormal (multiply rhs l)" if n: "isNormal l" "isNormal rhs"
  proof (cases "l = [] \<or> rhs = []")
    case False
    have "B ^ (length l - 1) * B ^ (length rhs - 1) \<le> val l * val rhs"
      by (intro mult_le_mono) (use False n assms normal_ge in auto)
    then have "B ^ (length l + length rhs - 2) \<le> val (multiply rhs l)"
      using False v by (cases l; cases rhs) (simp_all add: power_add)
    moreover have "last res = 0 \<Longrightarrow> length (multiply rhs l) - 1 = length l + length rhs - 2"
      using False r(2) by (auto simp: e)
    ultimately show ?thesis
      using normal_ge [of "multiply rhs l"] v False s by (cases "last res = 0") (auto simp: e isNormal_def)
  qed (auto simp: e isNormal_def isZero_def)
qed

section \<open>Normal results\<close>

lemma push_carry_normal:
  assumes "limbs_ok ls" "c < B" "ls = [] \<or> B ^ (length ls - 1) \<le> val ls + B ^ length ls * c"
  shows "isNormal (push_carry (ls, c))"
  using assms normal_ge [OF assms(1)] by (auto simp: push_carry_def isNormal_def isZero_def u32_small)

lemma add_word_normal:
  assumes "limbs_ok l" "isNormal l" "x < B" "l \<noteq> [] \<or> x \<noteq> 0"
  shows "isNormal (add_word x l)"
proof (cases l)
  case Nil
  with assms show ?thesis by (simp add: add_word_def isNormal_def)
next
  case (Cons l0 ls)
  have s: "l0 + x < 2 * B" "u64 (l0 + x) = l0 + x" using assms Cons by (auto intro!: u64_small two_B)
  define r where "r = carry_loop (over (l0 + x)) ls"
  have c: "limbs_ok (fst r)" "snd r \<le> 1" "length (fst r) = length ls"
    using carry_loop_spec [of ls "over (l0 + x)"] assms Cons by (auto simp: r_def)
  have e: "add_word x l = push_carry (low (l0 + x) # fst r, snd r)"
    using Cons s(2) by (simp add: add_word_def r_def Let_def case_prod_beta)
  have w: "limbs_ok (low (l0 + x) # fst r)" using c by simp
  have "B ^ length ls \<le> val (add_word x l)"
    using add_word_spec [OF assms(1,3)] normal_ge [OF assms(1)] assms(2) Cons by simp
  with push_carry_spec [OF w carry_less [OF c(2)]] push_carry_normal [OF w carry_less [OF c(2)]] show ?thesis
    by (simp add: e c(3))
qed


lemma multiply_word_normal:
  assumes "limbs_ok l" "isNormal l" "x < B"
  shows "isNormal (multiply_word x l)"
proof (cases "x = 0")
  case False
  define r where "r = mul_loop x 0 l"
  from mul_loop_spec [OF assms(1,3), of 0] have
    c: "limbs_ok (fst r)" "snd r < B" "length (fst r) = length l" "val (fst r) + B ^ length l * snd r = x * val l"
    by (simp_all add: r_def)
  have "l = [] \<or> B ^ (length l - 1) \<le> x * val l"
    using normal_ge [OF assms(1)] assms(2) False by (metis le_trans mult_le_mono1 nat_mult_1 not_less_eq_eq One_nat_def le_0_eq)
  with c push_carry_normal [OF c(1,2)] False show ?thesis by (auto simp: multiply_word_def r_def [symmetric])
qed (simp add: multiply_word_def isNormal_def isZero_def)

section \<open>Division and powers\<close>

lemma div_loop_spec:
  "limbs_ok ls \<Longrightarrow> x < B \<Longrightarrow> c < x \<Longrightarrow>
   limbs_ok (fst (div_loop x c ls)) \<and> length (fst (div_loop x c ls)) = length ls \<and> snd (div_loop x c ls) < x \<and>
   val (rev (fst (div_loop x c ls))) * x + snd (div_loop x c ls) = val (rev ls) + B ^ length ls * c"
proof (induction ls arbitrary: c)
  case (Cons l ls)
  define p where "p = c * B + l"
  have b: "c * B < B * B" "p < B * B" "p div x < B"
  proof -
    have "Suc c * B \<le> x * B" "Suc c * B \<le> B * B" using Cons.prems by (intro mult_le_mono; simp)+
    with Cons.prems show "c * B < B * B" "p < B * B" "p div x < B"
      by (auto simp: p_def less_mult_imp_div_less mult.commute)
  qed
  define q where "q = div_loop x (p mod x) ls"
  have ih: "limbs_ok (fst q)" "length (fst q) = length ls" "snd q < x"
    "val (rev (fst q)) * x + snd q = val (rev ls) + B ^ length ls * (p mod x)"
    using Cons.IH [of "p mod x"] Cons.prems by (simp_all add: q_def)
  have e: "div_loop x c (l # ls) = (p div x # fst q, snd q)"
    using u64_small [OF b(1)] u64_small [OF b(2)] u32_small [OF b(3)]
    by (simp add: q_def p_def Let_def case_prod_beta B_def)
  define d m where "d = p div x" and "m = p mod x"
  have "B ^ length ls * (d * x + m) = B ^ length ls * (c * B + l)" by (simp add: d_def m_def p_def)
  with ih b(3) show ?case unfolding e d_def [symmetric] m_def [symmetric] by (simp add: val_append algebra_simps)
qed simp

lemma drop_last_zero:
  "limbs_ok l \<Longrightarrow> limbs_ok (if l \<noteq> [] \<and> last l = 0 then butlast l else l) \<and>
   val (if l \<noteq> [] \<and> last l = 0 then butlast l else l) = val l"
  by (cases l rule: rev_cases) (simp_all add: val_append)

lemma devide_spec:
  assumes "limbs_ok l" "isNormal l" "x < B" "0 < x"
  shows "\<exists>q. devide x l = Some (val l mod x, q) \<and> limbs_ok q \<and> isNormal q \<and> val q = val l div x"
proof -
  define r where "r = div_loop x 0 (rev l)"
  have r: "limbs_ok (fst r)" "length (fst r) = length l" "snd r < x" "val (rev (fst r)) * x + snd r = val l"
    using div_loop_spec [of "rev l" x 0] assms by (simp_all add: r_def)
  define q where "q = (if rev (fst r) \<noteq> [] \<and> last (rev (fst r)) = 0 then butlast (rev (fst r)) else rev (fst r))"
  have v: "val (rev (fst r)) = val l div x" "snd r = val l mod x"
  proof -
    have "(val (rev (fst r)) * x + snd r) div x = val (rev (fst r))" "(val (rev (fst r)) * x + snd r) mod x = snd r"
      using r(3) by simp_all
    then show "val (rev (fst r)) = val l div x" "snd r = val l mod x" unfolding r(4) by (metis, metis)
  qed
  have q: "limbs_ok q" "val q = val l div x"
    unfolding q_def using drop_last_zero [of "rev (fst r)"] r(1) v(1) by simp_all
  have n: "isNormal q"
  proof (cases "2 \<le> length l \<and> last (rev (fst r)) = 0")
    case True
    have "B ^ (length l - 2) * x \<le> B ^ (length l - 2) * B" using assms(3) by simp
    also have "\<dots> = B ^ (length l - 1)" using True power_add [of B "length l - 2" 1] by (simp add: numeral_2_eq_2 Suc_diff_Suc)
    also have "\<dots> \<le> val l" using normal_ge [OF assms(1)] assms(2) True by auto
    finally have "B ^ (length l - 2) \<le> val l div x" using assms(4) by (simp add: less_eq_div_iff_mult_less_eq)
    moreover have "length q - 1 = length l - 2" using True r(2) by (auto simp: q_def)
    ultimately show ?thesis using normal_ge [OF q(1)] q(2) by simp
  next
    case False
    then have "q = [] \<or> last q \<noteq> 0" using r(2) [symmetric] by (cases "fst r"; cases "tl (fst r)"; auto simp: q_def)
    then show ?thesis by (auto simp: isNormal_def isZero_def)
  qed
  have "u32 (snd r) = snd r" using r(3) assms(3) by (simp add: u32_small)
  then have "devide x l = (if (x \<noteq> 0 \<or> l = []) \<and> isNormal q then Some (snd r, q) else None)"
    unfolding q_def devide_def r_def [symmetric] by (simp add: case_prod_beta Let_def)
  then have "devide x l = Some (val l mod x, q)" using assms(4) n v(2) by simp
  with q n show ?thesis by blast
qed


lemma power_loop_spec:
  "limbs_ok b \<Longrightarrow> limbs_ok r \<Longrightarrow> isNormal b \<Longrightarrow> isNormal r \<Longrightarrow>
   limbs_ok (power_loop n b r) \<and> isNormal (power_loop n b r) \<and> val (power_loop n b r) = val r * val b ^ n"
proof (induction n b r rule: power_loop.induct)
  case (1 n b r)
  show ?case
  proof (cases "n = 0")
    case False
    have n: "val b ^ n = (val b * val b) ^ (n div 2) * (if odd n then val b else 1)"
      by (cases "odd n") (auto elim!: oddE evenE simp: power_mult power2_eq_square power_add)
    from False 1 multiply_spec [of b b] multiply_spec [of r b] show ?thesis
      by (subst (1 2 3) power_loop.simps) (simp add: n mult.commute mult.left_commute)
  qed (use 1 in \<open>simp add: power_loop.simps\<close>)
qed

lemma power_spec:
  assumes "limbs_ok l" "isNormal l"
  shows "limbs_ok (power n l) \<and> isNormal (power n l) \<and> val (power n l) = val l ^ n"
  using power_loop_spec [of l "UnsignedInt_new 1" n] assms
  by (cases "n = 1") (auto simp: power_def assign_def UnsignedInt_new_def isNormal_def)

section \<open>Decimal text\<close>






lemma read_digits_bounds:
  "read_digits a s = Some n \<Longrightarrow> a * 10 ^ length s \<le> n \<and> n < (a + 1) * 10 ^ length s"
proof (induction s arbitrary: a)
  case (Cons c s)
  define d :: nat where "d = of_char c - 48"
  from Cons.prems have d: "d < 10" "read_digits (10 * a + d) s = Some n" by (auto simp: d_def split: if_splits)
  have "n < (10 * a + d + 1) * 10 ^ length s" using Cons.IH [OF d(2)] by simp
  also have "\<dots> \<le> (10 * a + 10) * 10 ^ length s" using d(1) by (intro mult_le_mono1) simp
  finally show ?case using Cons.IH [OF d(2)] by (simp add: algebra_simps)
qed simp

lemma parseSegment_spec: "read_digits a s = Some n \<Longrightarrow> n < B \<Longrightarrow> parseSegment a s = n"
proof (induction s arbitrary: a)
  case (Cons c s)
  define d :: nat where "d = of_char c - 48"
  from Cons.prems have d: "fromDec c = d" "read_digits (10 * a + d) s = Some n"
    by (auto simp: d_def fromDec_def Let_def split: if_splits)
  have "10 * a + d \<le> (10 * a + d) * 10 ^ length s" by simp
  also have "\<dots> \<le> n" using read_digits_bounds [OF d(2)] by simp
  finally have "10 * a + d < B" using Cons.prems(2) by simp
  then have "u32 (u32 (a * 10) + d) = 10 * a + d" by (simp add: u32_small mult.commute)
  with Cons.IH [OF d(2) Cons.prems(2)] d(1) show ?case by simp
qed simp

lemma read_digits_shift: "read_digits a s = map_option (\<lambda>n. a * 10 ^ length s + n) (read_digits 0 s)"
proof (induction s arbitrary: a)
  case (Cons c s)
  define d :: nat where "d = of_char c - 48"
  show ?case
    using Cons [of "10 * a + d"] Cons [of d]
    by (cases "read_digits 0 s") (simp_all add: d_def [symmetric] algebra_simps)
qed simp

text \<open>The numbers that the decimal parser builds: normal ones, and a zero with one limb.\<close>

definition almost_normal :: "limbs \<Rightarrow> bool" where
  "almost_normal l \<longleftrightarrow> isNormal l \<or> l = [0]"

lemma add_segment:
  assumes "limbs_ok l" "almost_normal l" "seg < 1000000000"
  shows "limbs_ok (add_word seg (multiply_word 1000000000 l)) \<and> almost_normal (add_word seg (multiply_word 1000000000 l)) \<and>
    add_word seg (multiply_word 1000000000 l) \<noteq> [] \<and> val (add_word seg (multiply_word 1000000000 l)) = val l * 1000000000 + seg"
proof -
  define m where "m = multiply_word 1000000000 l"
  have b: "seg < B" "1000000000 < B" using assms(3) by (simp_all add: B_def)
  have m: "limbs_ok m" "val m = val l * 1000000000" using multiply_word_spec [OF assms(1) b(2)] by (simp_all add: m_def)
  have "almost_normal m"
    using multiply_word_normal [OF assms(1) _ b(2)] assms(2)
    by (auto simp: almost_normal_def m_def multiply_word_def push_carry_def low_def u64_def)
  moreover have "almost_normal (add_word seg [0])" "almost_normal (add_word seg [])"
    using b(1) u64_small [of seg] two_B [of seg]
    by (auto simp: almost_normal_def add_word_def over_less push_carry_def low_mod isNormal_def Let_def)
  ultimately have "almost_normal (add_word seg m)"
    using add_word_normal [OF m(1) _ b(1)] by (cases "m = []") (auto simp: almost_normal_def)
  moreover have "add_word seg m \<noteq> []"
    by (cases m) (auto simp: add_word_def Let_def case_prod_beta push_carry_def)
  ultimately show ?thesis using add_word_spec [OF m(1) b(1)] m(2) by (simp add: m_def [symmetric])
qed

lemma read_nine:
  assumes "read_digits a s = Some n" "9 \<le> length s"
  obtains m where "read_digits 0 (take 9 s) = Some m" "m < 1000000000" "read_digits (a * 1000000000 + m) (drop 9 s) = Some n"
proof -
  have "read_digits a (take 9 s @ drop 9 s) = Some n" using assms(1) by simp
  then obtain k where k: "read_digits a (take 9 s) = Some k" "read_digits k (drop 9 s) = Some n"
    unfolding read_digits_append by (auto simp: bind_eq_Some_conv)
  then obtain m where "read_digits 0 (take 9 s) = Some m" "k = a * 1000000000 + m"
    using read_digits_shift [of a "take 9 s"] assms(2) by auto
  with that k read_digits_bounds [of 0 "take 9 s" m] assms(2) show ?thesis by simp
qed

lemma parseDec_loop_spec:
  "read_digits (val l) s = Some n \<Longrightarrow> length s mod 9 = 0 \<Longrightarrow> limbs_ok l \<Longrightarrow> almost_normal l \<Longrightarrow>
   \<exists>r. parseDec_loop s l = Some r \<and> limbs_ok r \<and> almost_normal r \<and> val r = n \<and> (l \<noteq> [] \<or> s \<noteq> [] \<longrightarrow> r \<noteq> [])"
proof (induction s l rule: parseDec_loop.induct)
  case (1 s l)
  show ?case
  proof (cases "s = []")
    case False
    then have len: "9 \<le> length s" using "1.prems"(2) by (metis length_greater_0_conv mod_less not_le less_irrefl)
    from read_nine [OF "1.prems"(1) len] obtain m where
      m: "read_digits 0 (take 9 s) = Some m" "m < 1000000000" "read_digits (val l * 1000000000 + m) (drop 9 s) = Some n" .
    have p: "parseSegment 0 (take 9 s) = m" using parseSegment_spec [OF m(1)] m(2) by (simp add: B_def)
    define l' where "l' = add_word m (multiply_word 1000000000 l)"
    have l': "limbs_ok l'" "almost_normal l'" "l' \<noteq> []" "val l' = val l * 1000000000 + m"
      using add_segment [OF "1.prems"(3,4) m(2)] by (simp_all add: l'_def)
    have "length (drop 9 s) mod 9 = 0" using "1.prems"(2) len by (simp add: mod_eq_0_iff_dvd)
    with "1.IH" [OF False, of "()" m] l' m(3) len p obtain r where
      "parseDec_loop (drop 9 s) l' = Some r" "limbs_ok r" "almost_normal r" "val r = n" "r \<noteq> []"
      by (auto simp: l'_def)
    with False len p show ?thesis by (subst parseDec_loop.simps) (simp add: l'_def)
  qed (use 1 in \<open>simp add: parseDec_loop.simps\<close>)
qed

lemma parseDec_spec:
  assumes "read_digits 0 s = Some n"
  shows "\<exists>r. parseDec s = Some r \<and> limbs_ok r \<and> val r = n \<and> (n = 0 \<and> s \<noteq> [] \<longrightarrow> r = [0]) \<and> (n \<noteq> 0 \<longrightarrow> isNormal r)"
proof -
  define f where "f = length s mod 9"
  define l where "l = (if f \<noteq> 0 then add_word (parseSegment 0 (take f s)) [] else [])"
  have "read_digits 0 (take f s @ drop f s) = Some n" using assms by simp
  then obtain k where k: "read_digits 0 (take f s) = Some k" "read_digits k (drop f s) = Some n"
    unfolding read_digits_append by (auto simp: bind_eq_Some_conv)
  have "f \<le> 8" by (simp add: f_def less_Suc_eq_le [symmetric])
  then have "(10 :: nat) ^ f \<le> 10 ^ 8" by (intro power_increasing) simp_all
  moreover have fl: "f \<le> length s" by (simp add: f_def)
  ultimately have kb: "k < B" using read_digits_bounds [OF k(1)] by (simp add: B_def)
  have l: "limbs_ok l" "almost_normal l" "val l = k" "f \<noteq> 0 \<longrightarrow> l \<noteq> []"
    using parseSegment_spec [OF k(1) kb] kb k(1)
    by (auto simp: l_def add_word_def almost_normal_def isNormal_def isZero_def)
  have "length (drop f s) mod 9 = 0" by (simp add: f_def minus_mod_eq_mult_div)
  with parseDec_loop_spec [of l "drop f s" n] l k(2) obtain r where
    r: "parseDec_loop (drop f s) l = Some r" "limbs_ok r" "almost_normal r" "val r = n" "l \<noteq> [] \<or> drop f s \<noteq> [] \<longrightarrow> r \<noteq> []"
    by auto
  have ne: "s \<noteq> [] \<longrightarrow> r \<noteq> []" using r(5) l(4) by (cases "f = 0") auto
  have z: "n = 0 \<and> r \<noteq> [] \<longrightarrow> r = [0]"
    using r(2,3,4) normal_ge [OF r(2)] by (auto simp: almost_normal_def)
  have "n \<noteq> 0 \<longrightarrow> isNormal r" using r(3,4) by (auto simp: almost_normal_def)
  moreover have "parseDec s = Some r" using r(1) unfolding l_def f_def parseDec_def Let_def .
  ultimately show ?thesis using r(2,4) ne z by blast
qed

section \<open>Hexadecimal text\<close>








section \<open>Properties\<close>

text \<open>What every number must be: limbs of 32 bits, the last one not zero.\<close>

definition UnsignedInt_ok :: "limbs \<Rightarrow> bool" where
  "UnsignedInt_ok l \<longleftrightarrow> limbs_ok l \<and> isNormal l"

lemma UnsignedInt_okD: "UnsignedInt_ok l \<Longrightarrow> limbs_ok l" "UnsignedInt_ok l \<Longrightarrow> isNormal l"
  by (simp_all add: UnsignedInt_ok_def)

lemma sub_cases:
  assumes "UnsignedInt_ok l" "UnsignedInt_ok r"
  shows "sub r l = None \<and> val l < val r \<or> (\<exists>d. sub r l = Some d \<and> UnsignedInt_ok d \<and> val r \<le> val l \<and> val d = val l - val r)"
proof (cases "val r \<le> val l")
  case True
  with sub_spec [OF UnsignedInt_okD(1) [OF assms(1)] UnsignedInt_okD(1) [OF assms(2)] UnsignedInt_okD(2) [OF assms(1)] UnsignedInt_okD(2) [OF assms(2)]]
  show ?thesis by (auto simp: UnsignedInt_ok_def)
next
  case False
  with sub_underflow [of l r] assms show ?thesis by (simp add: UnsignedInt_ok_def)
qed


lemma ok_examples: "UnsignedInt_ok [4294967295, 7]" "UnsignedInt_ok [5, 4294967295]" "UnsignedInt_ok [8]" "UnsignedInt_ok []"
  by (simp_all add: UnsignedInt_ok_def isNormal_def isZero_def B_def)


text \<open>
  C34. The vectors of limbs compute with natural numbers: with \<open>val\<close> the number that a vector stands for, each
  operation is the operation on numbers, the comparison is the order, the subtraction aborts exactly when the
  result would be negative, the division returns the remainder and leaves the quotient, and two vectors of one
  value are equal.
\<close>

theorem UnsignedInt_arith:
  assumes "UnsignedInt_ok l" "UnsignedInt_ok r" "x < 2 ^ 32"
  shows "val (add_word x l) = val l + x \<and> val (add r l) = val l + val r \<and>
    (case sub r l of None \<Rightarrow> val l < val r | Some d \<Rightarrow> val r \<le> val l \<and> val d = val l - val r) \<and>
    val (multiply_word x l) = val l * x \<and> val (multiply r l) = val l * val r \<and>
    (x \<noteq> 0 \<longrightarrow> map_option (map_prod id val) (devide x l) = Some (val l mod x, val l div x)) \<and>
    val (power n l) = val l ^ n \<and> (lessThan l r \<longleftrightarrow> val l < val r) \<and> (l = r \<longleftrightarrow> val l = val r)"
proof -
  have x: "x < B" using assms(3) by (simp add: B_def)
  note l = UnsignedInt_okD [OF assms(1)] and r = UnsignedInt_okD [OF assms(2)]
  have "case sub r l of None \<Rightarrow> val l < val r | Some d \<Rightarrow> val r \<le> val l \<and> val d = val l - val r"
    using sub_cases [OF assms(1,2)] by auto
  moreover have "x \<noteq> 0 \<longrightarrow> map_option (map_prod id val) (devide x l) = Some (val l mod x, val l div x)"
    using devide_spec [OF l x] by auto
  moreover have "val (add r l) = val l + val r" "val (multiply r l) = val l * val r"
    using add_spec [OF l(1) r(1)] multiply_spec(1) [OF l(1) r(1)] by simp_all
  moreover have "l = r \<longleftrightarrow> val l = val r" using val_inject [OF l(1) r(1) l(2) r(2)] by blast
  ultimately show ?thesis
    using add_word_spec [OF l(1) x] multiply_word_spec [OF l(1) x] power_spec [OF l, of n] lessThan_val [OF l(1) r(1) l(2) r(2)]
    by blast
qed

lemma UnsignedInt_arith_witness: "val (power 3 [8]) = 512 \<and> val (multiply [5, 4294967295] [8]) = 8 * val [5, 4294967295]"
  using UnsignedInt_arith [of "[8]" "[5, 4294967295]" 0 3] ok_examples by simp



text \<open>
  C37. Every decimal text of the number zero is parsed to one zero limb, since the parser adds its segments with
  \<^verbatim>\<open>add(uint32_t)\<close>, which on zero appends the limb without looking at it. That number is not normal,
  \<^verbatim>\<open>isZero\<close> denies that it is zero, it is greater than the number zero, and subtracting it from zero aborts, although zero
  is what it stands for.
\<close>

theorem UnsignedInt_zero_text:
  assumes "read_digits 0 s = Some 0" "s \<noteq> []"
  shows "\<exists>z. parseDec s = Some z \<and> val z = 0 \<and> \<not> isNormal z \<and> \<not> isZero z \<and>
    lessThan (UnsignedInt_new 0) z \<and> sub z (UnsignedInt_new 0) = None"
proof -
  obtain z where "parseDec s = Some z" "z = [0]" using parseDec_spec [OF assms(1)] assms(2) by blast
  then show ?thesis by (simp add: isNormal_def isZero_def lessThan_def UnsignedInt_new_def sub_def)
qed

lemma UnsignedInt_zero_text_witness: "\<exists>z. parseDec ''0'' = Some z \<and> \<not> isZero z \<and> sub z (UnsignedInt_new 0) = None"
proof -
  have "read_digits 0 ''0'' = Some 0" by simp
  from UnsignedInt_zero_text [OF this] show ?thesis by blast
qed

end
