(* ===== verification/Codec.thy ===== *)
theory Codec
  imports Buffer
begin

text \<open>
  Codecs that cut the byte stream of a connection into messages: \<^verbatim>\<open>examples/asio/chat/codec.h\<close>,
  \<^verbatim>\<open>net/protobuf/ProtobufCodecLite.h\<close>, \<^verbatim>\<open>.cc\<close> and \<^verbatim>\<open>examples/protobuf/codec/codec.h\<close>, \<^verbatim>\<open>.cc\<close>. The handlers return the calls
  they make to the callbacks and to the connection. The protocol buffers library and the checksum of zlib
  are parameters.

  The locale \<open>framing\<close> is the contract of a decoder of such a stream, and the locale \<open>wire_codec\<close> that of a decoder
  with its encoder. They are interpreted on the three codecs.
\<close>

section \<open>LengthHeaderCodec\<close>

datatype lh_call = StringMessage string | Conn_shutdown

definition LengthHeaderCodec_kHeaderLen :: nat where "LengthHeaderCodec_kHeaderLen = 4"

partial_function (option) LengthHeaderCodec_onMessage :: "buffer \<Rightarrow> (lh_call list \<times> buffer) option" where
  "LengthHeaderCodec_onMessage buf =
     (if LengthHeaderCodec_kHeaderLen \<le> Buffer_readableBytes buf then
        let be32 = mem_word (segment (Buffer_peek buf) (Buffer_peek buf + 4) (buf_vec buf));
            len = sint (networkToHost32 be32)
        in if 65536 < len \<or> len < 0 then Some ([Conn_shutdown], buf)
           else if nat len + LengthHeaderCodec_kHeaderLen \<le> Buffer_readableBytes buf then
             do {
               buf \<leftarrow> Buffer_retrieve LengthHeaderCodec_kHeaderLen buf;
               let message = segment (Buffer_peek buf) (Buffer_peek buf + nat len) (buf_vec buf);
               buf \<leftarrow> Buffer_retrieve (nat len) buf;
               (calls, buf) \<leftarrow> LengthHeaderCodec_onMessage buf;
               Some (StringMessage message # calls, buf) }
           else Some ([], buf)
      else Some ([], buf))"

text \<open>\<^verbatim>\<open>send\<close> up to the call of the connection: the buffer it sends.\<close>

definition LengthHeaderCodec_send :: "string \<Rightarrow> buffer option" where
  "LengthHeaderCodec_send message =
     do {
       buf \<leftarrow> Buffer_new kInitialSize;
       buf \<leftarrow> Buffer_append message buf;
       let len = word_of_nat (length message);
       let be32 = hostToNetwork32 len;
       Buffer_prepend (mem_bytes be32) buf }"

section \<open>ProtobufCodecLite\<close>

text \<open>
  What the codecs use of the protocol buffers library: writing a message, and for messages of one type reading
  one into a new message of the prototype.
\<close>

record 'm message_api =
  IsInitialized :: "'m \<Rightarrow> bool"
  ByteSize :: "'m \<Rightarrow> nat"
  SerializeWithCachedSizesToArray :: "'m \<Rightarrow> string"

record 'm prototype_api = "'m message_api" +
  ParseFromArray :: "string \<Rightarrow> 'm option"

datatype ErrorCode = kNoError | kInvalidLength | kCheckSumError | kInvalidNameLen | kUnknownMessageType | kParseError

datatype 'm codec_call = RawCb string | MessageCallback 'm | ErrorCallback ErrorCode

text \<open>The codec: its tag, its raw callback and the checksum function \<^verbatim>\<open>adler32(1, buf, len)\<close>.\<close>

record codec_lite =
  tag :: string
  rawCb :: "(string \<Rightarrow> bool) option"
  adler32 :: "string \<Rightarrow> 32 word"

definition kHeaderLen :: nat where "kHeaderLen = 4"
definition kChecksumLen :: nat where "kChecksumLen = 4"
definition kMaxMessageLen :: int where "kMaxMessageLen = 64 * 1024 * 1024"

definition Lite_kMinMessageLen :: "codec_lite \<Rightarrow> nat" where
  "Lite_kMinMessageLen codec = length (tag codec) + kChecksumLen"




definition asInt32 :: "string \<Rightarrow> 32 word" where
  "asInt32 buf = networkToHost32 (mem_word (take 4 buf))"

definition validateChecksum :: "codec_lite \<Rightarrow> string \<Rightarrow> bool" where
  "validateChecksum codec buf =
     (let len = length buf;
          expectedCheckSum = asInt32 (drop (len - kChecksumLen) buf);
          checkSum = adler32 codec (take (len - kChecksumLen) buf)
      in checkSum = expectedCheckSum)"

text \<open>The result is the error code and the message, which is complete when the code is \<^verbatim>\<open>kNoError\<close>.\<close>

definition Lite_parse :: "'m prototype_api \<Rightarrow> codec_lite \<Rightarrow> string \<Rightarrow> ErrorCode \<times> 'm option" where
  "Lite_parse api codec buf =
     (if validateChecksum codec buf then
        if take (length (tag codec)) buf = tag codec then
          let dataLen = length buf - kChecksumLen - length (tag codec)
          in case ParseFromArray api (take dataLen (drop (length (tag codec)) buf)) of
               Some message \<Rightarrow> (kNoError, Some message)
             | None \<Rightarrow> (kParseError, None)
        else (kUnknownMessageType, None)
      else (kCheckSumError, None))"

text \<open>The calls for one complete frame, and whether the loop goes on.\<close>

definition Lite_frame :: "'m prototype_api \<Rightarrow> codec_lite \<Rightarrow> string \<Rightarrow> 'm codec_call list \<times> bool" where
  "Lite_frame api codec raw =
     (let rawCalls = (case rawCb codec of None \<Rightarrow> [] | Some f \<Rightarrow> [RawCb raw])
      in if (case rawCb codec of None \<Rightarrow> False | Some f \<Rightarrow> \<not> f raw) then (rawCalls, True)
         else case Lite_parse api codec (drop kHeaderLen raw) of
                (kNoError, Some message) \<Rightarrow> (rawCalls @ [MessageCallback message], True)
              | (errorCode, _) \<Rightarrow> (rawCalls @ [ErrorCallback errorCode], False))"

partial_function (option) Lite_onMessage :: "'m prototype_api \<Rightarrow> codec_lite \<Rightarrow> buffer \<Rightarrow> ('m codec_call list \<times> buffer) option" where
  "Lite_onMessage api codec buf =
     (if Lite_kMinMessageLen codec + kHeaderLen \<le> Buffer_readableBytes buf then
        do {
          w \<leftarrow> Buffer_peekInt32 buf;
          let len = sint w;
          if kMaxMessageLen < len \<or> len < int (Lite_kMinMessageLen codec) then Some ([ErrorCallback kInvalidLength], buf)
          else if kHeaderLen + nat len \<le> Buffer_readableBytes buf then
            let (calls, continue) =
              Lite_frame api codec (segment (Buffer_peek buf) (Buffer_peek buf + (kHeaderLen + nat len)) (buf_vec buf))
            in if continue then
                 do {
                   buf \<leftarrow> Buffer_retrieve (kHeaderLen + nat len) buf;
                   (calls', buf) \<leftarrow> Lite_onMessage api codec buf;
                   Some (calls @ calls', buf) }
               else Some (calls, buf)
          else Some ([], buf) }
      else Some ([], buf))"

definition errorCodeToString :: "ErrorCode \<Rightarrow> string" where
  "errorCodeToString errorCode =
     (case errorCode of
        kNoError \<Rightarrow> ''NoError''
      | kInvalidLength \<Rightarrow> ''InvalidLength''
      | kCheckSumError \<Rightarrow> ''CheckSumError''
      | kInvalidNameLen \<Rightarrow> ''InvalidNameLen''
      | kUnknownMessageType \<Rightarrow> ''UnknownMessageType''
      | kParseError \<Rightarrow> ''ParseError'')"

text \<open>The error callback unless another is given.\<close>

definition defaultErrorCallback :: "bool \<Rightarrow> ErrorCode \<Rightarrow> lh_call list" where
  "defaultErrorCallback connected errorCode = (if connected then [Conn_shutdown] else [])"

section \<open>ProtobufCodec\<close>

text \<open>Messages of many types: a message has the name of its type, and the library finds the type of a name and a
  message of that type to copy.\<close>

record ('m, 'd, 'p) pool_api = "'m message_api" +
  GetTypeName :: "'m \<Rightarrow> string"
  FindMessageTypeByName :: "string \<Rightarrow> 'd option"
  GetPrototype :: "'d \<Rightarrow> 'p option"
  New_ParseFromArray :: "'p \<Rightarrow> string \<Rightarrow> 'm option"

definition kMinMessageLen :: int where "kMinMessageLen = 2 * 4 + 2"



definition createMessage :: "('m, 'd, 'p) pool_api \<Rightarrow> string \<Rightarrow> 'p option" where
  "createMessage api typeName =
     (case FindMessageTypeByName api typeName of
        Some descriptor \<Rightarrow> GetPrototype api descriptor
      | None \<Rightarrow> None)"

definition ProtobufCodec_parse :: "(string \<Rightarrow> 32 word) \<Rightarrow> ('m, 'd, 'p) pool_api \<Rightarrow> string \<Rightarrow> ErrorCode \<times> 'm option" where
  "ProtobufCodec_parse adler api buf =
     (let len = length buf;
          expectedCheckSum = asInt32 (drop (len - kHeaderLen) buf);
          checkSum = adler (take (len - kHeaderLen) buf)
      in if checkSum = expectedCheckSum then
           let nameLen = sint (asInt32 buf)
           in if 2 \<le> nameLen \<and> nameLen \<le> int len - 2 * int kHeaderLen then
                let typeName = take (nat nameLen - 1) (drop kHeaderLen buf)
                in case createMessage api typeName of
                     Some message \<Rightarrow>
                       let dataLen = len - nat nameLen - 2 * kHeaderLen
                       in (case New_ParseFromArray api message (take dataLen (drop (kHeaderLen + nat nameLen) buf)) of
                             Some message \<Rightarrow> (kNoError, Some message)
                           | None \<Rightarrow> (kParseError, None))
                   | None \<Rightarrow> (kUnknownMessageType, None)
              else (kInvalidNameLen, None)
         else (kCheckSumError, None))"

partial_function (option) ProtobufCodec_onMessage ::
    "(string \<Rightarrow> 32 word) \<Rightarrow> ('m, 'd, 'p) pool_api \<Rightarrow> buffer \<Rightarrow> ('m codec_call list \<times> buffer) option" where
  "ProtobufCodec_onMessage adler api buf =
     (if kMinMessageLen + int kHeaderLen \<le> int (Buffer_readableBytes buf) then
        do {
          w \<leftarrow> Buffer_peekInt32 buf;
          let len = sint w;
          if kMaxMessageLen < len \<or> len < kMinMessageLen then Some ([ErrorCallback kInvalidLength], buf)
          else if kHeaderLen + nat len \<le> Buffer_readableBytes buf then
            case ProtobufCodec_parse adler api
                (segment (Buffer_peek buf + kHeaderLen) (Buffer_peek buf + kHeaderLen + nat len) (buf_vec buf)) of
              (kNoError, Some message) \<Rightarrow>
                do {
                  buf \<leftarrow> Buffer_retrieve (kHeaderLen + nat len) buf;
                  (calls, buf) \<leftarrow> ProtobufCodec_onMessage adler api buf;
                  Some (MessageCallback message # calls, buf) }
            | (errorCode, _) \<Rightarrow> Some ([ErrorCallback errorCode], buf)
          else Some ([], buf) }
      else Some ([], buf))"

section \<open>Cutting a stream into frames\<close>

text \<open>
  What a decoder says of the bytes received: they are not yet a frame, they can never be one, or they start
  with a frame of \<open>n\<close> bytes. The last two come with the calls made for them.
\<close>

datatype 'e frame = Incomplete | Bad "'e list" | Frame "'e list" nat

text \<open>All frames of the bytes received: the calls, the bytes left, and whether all is well.\<close>

function drain :: "(string \<Rightarrow> 'e frame) \<Rightarrow> string \<Rightarrow> 'e list \<times> string \<times> bool" where
  "drain decode s =
     (case decode s of
        Incomplete \<Rightarrow> ([], s, True)
      | Bad es \<Rightarrow> (es, s, False)
      | Frame es n \<Rightarrow>
          if 0 < n \<and> n \<le> length s then (let (es', r, good) = drain decode (drop n s) in (es @ es', r, good))
          else ([], s, True))"
  by pat_completeness auto
termination by (relation "measure (length \<circ> snd)") auto

declare drain.simps [simp del]

text \<open>The bytes arrive in chunks, and the handler runs after each.\<close>

fun feed :: "(buffer \<Rightarrow> ('e list \<times> buffer) option) \<Rightarrow> string list \<Rightarrow> buffer \<Rightarrow> ('e list \<times> buffer) option" where
  "feed handler [] b = Some ([], b)"
| "feed handler (c # cs) b =
     do {
       b \<leftarrow> Buffer_append c b;
       (es, b) \<leftarrow> handler b;
       (es', b) \<leftarrow> feed handler cs b;
       Some (es @ es', b) }"

definition wire :: "('m \<Rightarrow> buffer option) \<Rightarrow> 'm \<Rightarrow> string" where
  "wire send m = (case send m of Some b \<Rightarrow> Buffer_content b | None \<Rightarrow> [])"

locale framing =
  fixes decode :: "string \<Rightarrow> 'e frame"
    and handler :: "buffer \<Rightarrow> ('e list \<times> buffer) option"
  assumes frame_stable: "decode s = Frame es n \<Longrightarrow> decode (s @ t) = Frame es n"
    and bad_stable: "decode s = Bad es \<Longrightarrow> decode (s @ t) = Bad es"
    and frame_length: "decode s = Frame es n \<Longrightarrow> 0 < n \<and> n \<le> length s"
    and handler_incomplete: "Buffer_inv b \<Longrightarrow> decode (Buffer_content b) = Incomplete \<Longrightarrow> handler b = Some ([], b)"
    and handler_bad: "Buffer_inv b \<Longrightarrow> decode (Buffer_content b) = Bad es \<Longrightarrow> handler b = Some (es, b)"
    and handler_frame: "Buffer_inv b \<Longrightarrow> decode (Buffer_content b) = Frame es n \<Longrightarrow>
      \<exists>b'. Buffer_inv b' \<and> Buffer_content b' = drop n (Buffer_content b) \<and>
        handler b = do { (es', b'') \<leftarrow> handler b'; Some (es @ es', b'') }"
begin

lemma drain_frame: "decode s = Frame es n \<Longrightarrow> drain decode s = (let (es', r, good) = drain decode (drop n s) in (es @ es', r, good))"
  using frame_length [of s es n] by (simp add: drain.simps [of decode s])

lemma drop_frame: "decode s = Frame es n \<Longrightarrow> length (drop n s) < length s"
  using frame_length [of s es n] by auto

lemma drain_other:
  "decode s = Incomplete \<Longrightarrow> drain decode s = ([], s, True)"
  "decode s = Bad es \<Longrightarrow> drain decode s = (es, s, False)"
  by (simp_all add: drain.simps [of decode s])

text \<open>The loop of the handler ends and finds all frames.\<close>

lemma handler_drain:
  "Buffer_inv b \<Longrightarrow> \<exists>b'. handler b = Some (fst (drain decode (Buffer_content b)), b') \<and> Buffer_inv b' \<and>
     Buffer_content b' = fst (snd (drain decode (Buffer_content b)))"
proof (induction "length (Buffer_content b)" arbitrary: b rule: less_induct)
  case less
  show ?case
  proof (cases "decode (Buffer_content b)")
    case Incomplete
    with handler_incomplete [OF less.prems] less.prems show ?thesis by (simp add: drain_other)
  next
    case (Bad es)
    with handler_bad [OF less.prems] less.prems show ?thesis by (simp add: drain_other)
  next
    case (Frame es n)
    from handler_frame [OF less.prems Frame] obtain b' where
      b': "Buffer_inv b'" "Buffer_content b' = drop n (Buffer_content b)"
      "handler b = do { (es', b'') \<leftarrow> handler b'; Some (es @ es', b'') }" by blast
    have "length (Buffer_content b') < length (Buffer_content b)" using b'(2) drop_frame [OF Frame] by simp
    from less.hyps [OF this b'(1)] b'(2,3) show ?thesis by (auto simp: drain_frame [OF Frame] case_prod_beta)
  qed
qed

lemma drain_rest: "snd (snd (drain decode s)) \<Longrightarrow> decode (fst (snd (drain decode s))) = Incomplete"
proof (induction s rule: length_induct)
  case (1 s)
  then show ?case
  proof (cases "decode s")
    case (Frame es n)
    with 1(2) "1.IH" [rule_format, OF drop_frame [OF Frame]] show ?thesis by (simp add: drain_frame case_prod_beta)
  qed (simp_all add: drain_other)
qed

lemma drain_append:
  "snd (snd (drain decode s)) \<Longrightarrow> drain decode (s @ t) =
     (fst (drain decode s) @ fst (drain decode (fst (snd (drain decode s)) @ t)), snd (drain decode (fst (snd (drain decode s)) @ t)))"
proof (induction s rule: length_induct)
  case (1 s)
  show ?case
  proof (cases "decode s")
    case (Frame es n)
    define D where "D = drain decode (drop n s)"
    define R where "R = drain decode (fst (snd D) @ t)"
    have d: "drain decode s = (es @ fst D, snd D)" by (simp add: drain_frame [OF Frame] D_def case_prod_beta)
    have "drain decode (s @ t) = (es @ fst (drain decode (drop n s @ t)), snd (drain decode (drop n s @ t)))"
      using drain_frame [OF frame_stable [OF Frame]] frame_length [OF Frame] by (simp add: case_prod_beta)
    moreover have "drain decode (drop n s @ t) = (fst D @ fst R, snd R)"
      unfolding R_def D_def by (rule "1.IH" [rule_format, OF drop_frame [OF Frame]]) (use 1(2) d in \<open>simp add: D_def\<close>)
    ultimately show ?thesis by (simp add: d R_def)
  qed (use 1(2) in \<open>simp_all add: drain_other\<close>)
qed

lemma drain_good_prefix: "snd (snd (drain decode (s @ t))) \<Longrightarrow> snd (snd (drain decode s))"
proof (induction s rule: length_induct)
  case (1 s)
  show ?case
  proof (cases "decode s")
    case (Frame es n)
    with 1(2) "1.IH" [rule_format, OF drop_frame [OF Frame]] frame_stable [OF Frame, of t] frame_length [OF Frame] show ?thesis
      by (simp add: drain_frame case_prod_beta Let_def)
  next
    case (Bad es)
    with 1(2) bad_stable [OF Bad, of t] show ?thesis by (simp add: drain_other)
  qed (simp_all add: drain_other)
qed

text \<open>However the stream is cut, the calls are those for the stream in one piece.\<close>

lemma feed_drain:
  assumes "Buffer_inv b" "decode (Buffer_content b) = Incomplete" "snd (snd (drain decode (Buffer_content b @ concat cs)))"
  shows "\<exists>b'. feed handler cs b = Some (fst (drain decode (Buffer_content b @ concat cs)), b') \<and> Buffer_inv b' \<and>
    Buffer_content b' = fst (snd (drain decode (Buffer_content b @ concat cs)))"
  using assms
proof (induction cs arbitrary: b)
  case Nil
  then show ?case by (simp add: drain_other)
next
  case (Cons c cs)
  obtain b1 where b1: "Buffer_append c b = Some b1" "Buffer_inv b1" "Buffer_content b1 = Buffer_content b @ c"
    using Buffer_append_spec [OF Cons.prems(1)] by blast
  obtain b2 where b2: "handler b1 = Some (fst (drain decode (Buffer_content b1)), b2)" "Buffer_inv b2"
    "Buffer_content b2 = fst (snd (drain decode (Buffer_content b1)))" using handler_drain [OF b1(2)] by blast
  have g: "snd (snd (drain decode (Buffer_content b1)))"
    using drain_good_prefix [of "Buffer_content b1" "concat cs"] Cons.prems(3) b1(3) by simp
  note a = drain_append [OF g, of "concat cs"]
  have "snd (snd (drain decode (Buffer_content b2 @ concat cs)))"
    using a Cons.prems(3) b1(3) b2(3) by (simp add: case_prod_beta)
  from Cons.IH [OF b2(2) _ this] drain_rest [OF g] b2(3) b1 b2(1) a show ?case
    by (auto simp: case_prod_beta)
qed

end

text \<open>A decoder with an encoder for the messages that are \<open>valid\<close>.\<close>

locale wire_codec = framing decode handler
  for decode :: "string \<Rightarrow> 'e frame" and handler +
  fixes valid :: "'m \<Rightarrow> bool"
    and send :: "'m \<Rightarrow> buffer option"
    and calls :: "'m \<Rightarrow> 'e list"
  assumes decode_empty: "decode [] = Incomplete"
    and decode_send: "valid m \<Longrightarrow> \<exists>b. send m = Some b \<and>
      (\<forall>t. decode (Buffer_content b @ t) = Frame (calls m) (length (Buffer_content b)))"
begin

lemma drain_wire: "list_all valid ms \<Longrightarrow> drain decode (concat (map (wire send) ms)) = (concat (map calls ms), [], True)"
proof (induction ms)
  case Nil
  then show ?case by (simp add: drain_other decode_empty)
next
  case (Cons m ms)
  then obtain b where b: "send m = Some b"
    "\<forall>t. decode (Buffer_content b @ t) = Frame (calls m) (length (Buffer_content b))" using decode_send by auto
  from Cons show ?case by (simp add: wire_def b(1) drain_frame [OF b(2) [rule_format]])
qed

text \<open>When a part of what was sent has arrived, the complete messages of it are handled, and what is left goes on.\<close>

lemma drain_part:
  "list_all valid ms \<Longrightarrow> s @ rest = concat (map (wire send) ms) \<Longrightarrow>
   \<exists>k r. drain decode s = (concat (map calls (take k ms)), r, True) \<and> r @ rest = concat (map (wire send) (drop k ms))"
proof (induction ms arbitrary: s)
  case Nil
  then show ?case by (simp add: drain_other decode_empty)
next
  case (Cons m ms)
  obtain b where b: "send m = Some b"
    "\<forall>t. decode (Buffer_content b @ t) = Frame (calls m) (length (Buffer_content b))" using decode_send [of m] Cons.prems(1) by auto
  have d: "decode (s @ rest) = Frame (calls m) (length (Buffer_content b))" using Cons.prems(2) b by (simp add: wire_def)
  show ?case
  proof (cases "decode s")
    case Incomplete
    with Cons.prems show ?thesis by (intro exI [of _ 0]) (simp add: drain_other)
  next
    case (Bad es)
    with d bad_stable [OF Bad, of rest] show ?thesis by simp
  next
    case (Frame es n)
    then have e: "es = calls m" "n = length (Buffer_content b)" "n \<le> length s"
      using d frame_stable [OF Frame, of rest] frame_length [OF Frame] by simp_all
    have "wire send m = Buffer_content b" by (simp add: wire_def b(1))
    then have "drop n (s @ rest) = concat (map (wire send) ms)" using Cons.prems(2) e(2) by simp
    then have "drop n s @ rest = concat (map (wire send) ms)" using e(3) by simp
    from Cons.IH [OF _ this] Cons.prems(1) obtain k r where
      "drain decode (drop n s) = (concat (map calls (take k ms)), r, True)" "r @ rest = concat (map (wire send) (drop k ms))"
      by auto
    then show ?thesis by (intro exI [of _ "Suc k"] exI [of _ r]) (simp add: drain_frame [OF Frame] e(1))
  qed
qed

lemma step:
  assumes "Buffer_inv b" "list_all valid ms" "Buffer_content b @ c @ rest = concat (map (wire send) ms)"
  shows "\<exists>k b1 b2. Buffer_append c b = Some b1 \<and> handler b1 = Some (concat (map calls (take k ms)), b2) \<and> Buffer_inv b2 \<and>
    Buffer_content b2 @ rest = concat (map (wire send) (drop k ms)) \<and> decode (Buffer_content b2) = Incomplete"
proof -
  obtain b1 where b1: "Buffer_append c b = Some b1" "Buffer_inv b1" "Buffer_content b1 = Buffer_content b @ c"
    using Buffer_append_spec [OF assms(1)] by blast
  have "Buffer_content b1 @ rest = concat (map (wire send) ms)" using assms(3) b1(3) by simp
  from drain_part [OF assms(2) this] obtain k r where
    k: "drain decode (Buffer_content b1) = (concat (map calls (take k ms)), r, True)" "r @ rest = concat (map (wire send) (drop k ms))"
    by blast
  from handler_drain [OF b1(2)] k(1) obtain b2 where "handler b1 = Some (concat (map calls (take k ms)), b2)" "Buffer_inv b2" "Buffer_content b2 = r"
    by auto
  with b1(1) k drain_rest [of "Buffer_content b1"] show ?thesis by auto
qed

text \<open>A stream that has arrived as a whole holds no complete message any more.\<close>

lemma rest_empty:
  assumes "list_all valid ms" "s = concat (map (wire send) ms)" "decode s = Incomplete"
  shows "ms = []"
proof (cases ms)
  case (Cons m ms')
  then obtain b where b: "send m = Some b" "\<forall>t. decode (Buffer_content b @ t) = Frame (calls m) (length (Buffer_content b))"
    using assms(1) decode_send [of m] by auto
  have "wire send m = Buffer_content b" by (simp add: wire_def b(1))
  with Cons assms(2,3) b(2) show ?thesis by simp
qed simp

text \<open>What was sent is what is received, however the network cuts the stream.\<close>

lemma stream:
  assumes "Buffer_inv b" "Buffer_content b = []" "list_all valid ms" "concat cs = concat (map (wire send) ms)"
  shows "(\<forall>m \<in> set ms. send m \<noteq> None) \<and>
    (\<exists>b'. feed handler cs b = Some (concat (map calls ms), b') \<and> Buffer_inv b' \<and> Buffer_content b' = [])"
proof -
  have "\<forall>m \<in> set ms. send m \<noteq> None" using assms(3) decode_send by (fastforce simp: list_all_iff)
  moreover have "drain decode (concat cs) = (concat (map calls ms), [], True)" using drain_wire [OF assms(3)] assms(4) by simp
  ultimately show ?thesis using feed_drain [of b cs] assms(1,2) decode_empty by simp
qed

end

text \<open>The three codecs decode frames with a length of 32 bits in front.\<close>

definition length_decode :: "nat \<Rightarrow> int \<Rightarrow> 'e \<Rightarrow> (string \<Rightarrow> 'e list \<times> bool) \<Rightarrow> string \<Rightarrow> 'e frame" where
  "length_decode mn mx err body s =
     (if length s < mn + 4 then Incomplete
      else
        let len = sint (dec32 (take 4 s))
        in if mx < len \<or> len < int mn then Bad [err]
           else if 4 + nat len \<le> length s then
             (if snd (body (take (4 + nat len) s)) then Frame (fst (body (take (4 + nat len) s))) (4 + nat len)
              else Bad (fst (body (take (4 + nat len) s))))
           else Incomplete)"

lemma length_decode_laws:
  "length_decode mn mx err body s = Frame es n \<Longrightarrow> length_decode mn mx err body (s @ t) = Frame es n"
  "length_decode mn mx err body s = Bad es \<Longrightarrow> length_decode mn mx err body (s @ t) = Bad es"
  "length_decode mn mx err body s = Frame es n \<Longrightarrow> 0 < n \<and> n \<le> length s"
  "length_decode mn mx err body [] = Incomplete"
  by (auto simp: length_decode_def Let_def split: if_splits)

lemma length_decode_wire:
  assumes "mn \<le> length p" "int (length p) \<le> mx" "mx < 2 ^ 31"
    "body (enc32 (word_of_nat (length p)) @ p) = (calls, True)"
  shows "length_decode mn mx err body ((enc32 (word_of_nat (length p)) @ p) @ t) = Frame calls (4 + length p)"
proof -
  have "length p < 2 ^ 31" using assms(2,3) by simp
  then have "sint (word_of_nat (length p) :: 32 word) = int (length p)"
    using to_int32_small [of "length p"] by (simp add: to_int32_def)
  then show ?thesis using assms be32.dec_enc [of "word_of_nat (length p)"] by (simp add: length_decode_def)
qed

text \<open>The header of the readable bytes.\<close>

lemma Buffer_header:
  assumes "Buffer_inv b" "4 \<le> Buffer_readableBytes b"
  shows "networkToHost32 (mem_word (segment (Buffer_peek b) (Buffer_peek b + 4) (buf_vec b))) = dec32 (take 4 (Buffer_content b))"
    "Buffer_peekInt32 b = Some (dec32 (take 4 (Buffer_content b)))"
  using assms i32.peekI [OF assms(1)] by (simp_all add: Buffer_segment_content dec32_def)

lemma Buffer_retrieve_frame:
  assumes "Buffer_inv b" "n \<le> Buffer_readableBytes b"
  obtains b' where "Buffer_retrieve n b = Some b'" "Buffer_inv b'" "Buffer_content b' = drop n (Buffer_content b)"
  using buf.discard_spec [OF assms(1), of n] assms by auto

definition LengthHeader_decode :: "string \<Rightarrow> lh_call frame" where
  "LengthHeader_decode = length_decode 0 65536 Conn_shutdown (\<lambda>raw. ([StringMessage (drop 4 raw)], True))"

definition Lite_decode :: "'m prototype_api \<Rightarrow> codec_lite \<Rightarrow> string \<Rightarrow> 'm codec_call frame" where
  "Lite_decode api codec =
     length_decode (Lite_kMinMessageLen codec) kMaxMessageLen (ErrorCallback kInvalidLength) (Lite_frame api codec)"

definition ProtobufCodec_frame :: "(string \<Rightarrow> 32 word) \<Rightarrow> ('m, 'd, 'p) pool_api \<Rightarrow> string \<Rightarrow> 'm codec_call list \<times> bool" where
  "ProtobufCodec_frame adler api raw =
     (case ProtobufCodec_parse adler api (drop 4 raw) of
        (kNoError, Some message) \<Rightarrow> ([MessageCallback message], True)
      | (errorCode, _) \<Rightarrow> ([ErrorCallback errorCode], False))"

definition ProtobufCodec_decode :: "(string \<Rightarrow> 32 word) \<Rightarrow> ('m, 'd, 'p) pool_api \<Rightarrow> string \<Rightarrow> 'm codec_call frame" where
  "ProtobufCodec_decode adler api =
     length_decode 10 kMaxMessageLen (ErrorCallback kInvalidLength) (ProtobufCodec_frame adler api)"

interpretation lh: framing LengthHeader_decode LengthHeaderCodec_onMessage
proof unfold_locales
  fix b :: buffer and es n
  assume b: "Buffer_inv b"
  note e = LengthHeaderCodec_onMessage.simps [of b]
  have h: "4 \<le> length (Buffer_content b) \<Longrightarrow>
    networkToHost32 (mem_word (segment (Buffer_peek b) (Buffer_peek b + 4) (buf_vec b))) = dec32 (take 4 (Buffer_content b))"
    using Buffer_header(1) [OF b] b by simp
  show "LengthHeader_decode (Buffer_content b) = Incomplete \<Longrightarrow> LengthHeaderCodec_onMessage b = Some ([], b)"
    using h b by (subst e) (auto simp: LengthHeader_decode_def length_decode_def LengthHeaderCodec_kHeaderLen_def Let_def split: if_splits)
  show "LengthHeader_decode (Buffer_content b) = Bad es \<Longrightarrow> LengthHeaderCodec_onMessage b = Some (es, b)"
    using h b by (subst e) (auto simp: LengthHeader_decode_def length_decode_def LengthHeaderCodec_kHeaderLen_def Let_def split: if_splits)
  assume f: "LengthHeader_decode (Buffer_content b) = Frame es n"
  define len where "len = sint (dec32 (take 4 (Buffer_content b)))"
  have l: "4 + nat len \<le> Buffer_readableBytes b" "\<not> 65536 < len" "\<not> len < 0" "n = 4 + nat len"
    "es = [StringMessage (take (nat len) (drop 4 (Buffer_content b)))]"
    using f b by (auto simp: LengthHeader_decode_def length_decode_def len_def Let_def drop_take split: if_splits)
  obtain b1 where b1: "Buffer_retrieve 4 b = Some b1" "Buffer_inv b1" "Buffer_content b1 = drop 4 (Buffer_content b)"
    using Buffer_retrieve_frame [OF b, of 4] l(1) by auto
  have r1: "nat len \<le> Buffer_readableBytes b1" using l(1) b1(3) b length_Buffer_content [OF b1(2)] by simp
  obtain b2 where b2: "Buffer_retrieve (nat len) b1 = Some b2" "Buffer_inv b2" "Buffer_content b2 = drop (nat len) (Buffer_content b1)"
    using Buffer_retrieve_frame [OF b1(2) r1] by blast
  have "LengthHeaderCodec_onMessage b = do { (es', b'') \<leftarrow> LengthHeaderCodec_onMessage b2; Some (es @ es', b'') }"
    using l h b b1(1,3) b2(1) Buffer_segment_content [OF b1(2) r1]
    by (subst e) (simp add: LengthHeaderCodec_kHeaderLen_def Let_def len_def [symmetric])
  moreover have "Buffer_content b2 = drop n (Buffer_content b)" using b1(3) b2(3) l(4) by (simp add: add.commute)
  ultimately show "\<exists>b'. Buffer_inv b' \<and> Buffer_content b' = drop n (Buffer_content b) \<and>
      LengthHeaderCodec_onMessage b = do { (es', b'') \<leftarrow> LengthHeaderCodec_onMessage b'; Some (es @ es', b'') }"
    using b2(2) by blast
qed (simp_all add: LengthHeader_decode_def length_decode_laws)

lemma kLens: "kHeaderLen = 4" "kChecksumLen = 4" "kMinMessageLen = 10" "LengthHeaderCodec_kHeaderLen = 4"
  by (simp_all add: kHeaderLen_def kChecksumLen_def kMinMessageLen_def LengthHeaderCodec_kHeaderLen_def)

interpretation lite: framing "Lite_decode api codec" "Lite_onMessage api codec"
proof unfold_locales
  fix b :: buffer and es n
  assume b: "Buffer_inv b"
  note e = Lite_onMessage.simps [of api codec b]
  have h: "4 \<le> Buffer_readableBytes b \<Longrightarrow> Buffer_peekInt32 b = Some (dec32 (take 4 (Buffer_content b)))"
    using Buffer_header(2) [OF b] .
  have s: "m \<le> Buffer_readableBytes b \<Longrightarrow> segment (Buffer_peek b) (Buffer_peek b + m) (buf_vec b) = take m (Buffer_content b)" for m
    by (rule Buffer_segment_content [OF b])
  show "Lite_decode api codec (Buffer_content b) = Incomplete \<Longrightarrow> Lite_onMessage api codec b = Some ([], b)"
    using h b by (subst e) (auto simp: Lite_decode_def length_decode_def kLens Let_def split: if_splits)
  show "Lite_decode api codec (Buffer_content b) = Bad es \<Longrightarrow> Lite_onMessage api codec b = Some (es, b)"
    using h s b by (subst e) (auto simp: Lite_decode_def length_decode_def kLens Let_def case_prod_beta split: if_splits)
  assume f: "Lite_decode api codec (Buffer_content b) = Frame es n"
  define len where "len = sint (dec32 (take 4 (Buffer_content b)))"
  have l: "Lite_kMinMessageLen codec + 4 \<le> Buffer_readableBytes b" "4 + nat len \<le> Buffer_readableBytes b" "\<not> kMaxMessageLen < len"
    "\<not> len < int (Lite_kMinMessageLen codec)" "n = 4 + nat len" "Lite_frame api codec (take n (Buffer_content b)) = (es, True)"
    using f b by (auto simp: Lite_decode_def length_decode_def len_def Let_def prod_eq_iff split: if_splits)
  obtain b' where b': "Buffer_retrieve (4 + nat len) b = Some b'" "Buffer_inv b'" "Buffer_content b' = drop n (Buffer_content b)"
    using Buffer_retrieve_frame [OF b l(2)] l(5) by auto
  have "Lite_onMessage api codec b = do { (es', b'') \<leftarrow> Lite_onMessage api codec b'; Some (es @ es', b'') }"
    using l h s [OF l(2)] b'(1) by (subst e) (simp add: kLens Let_def len_def [symmetric])
  with b' show "\<exists>b'. Buffer_inv b' \<and> Buffer_content b' = drop n (Buffer_content b) \<and>
      Lite_onMessage api codec b = do { (es', b'') \<leftarrow> Lite_onMessage api codec b'; Some (es @ es', b'') }" by blast
qed (simp_all add: Lite_decode_def length_decode_laws)

interpretation pc: framing "ProtobufCodec_decode adler api" "ProtobufCodec_onMessage adler api"
proof unfold_locales
  fix b :: buffer and es n
  assume b: "Buffer_inv b"
  note e = ProtobufCodec_onMessage.simps [of adler api b, unfolded kLens Let_def]
  define p where "p = (\<lambda>m. ProtobufCodec_parse adler api (segment (Buffer_peek b + 4) (Buffer_peek b + 4 + m) (buf_vec b)))"
  have h: "4 \<le> Buffer_readableBytes b \<Longrightarrow> Buffer_peekInt32 b = Some (dec32 (take 4 (Buffer_content b)))"
    using Buffer_header(2) [OF b] .
  have s: "4 + m \<le> Buffer_readableBytes b \<Longrightarrow> p m = ProtobufCodec_parse adler api (drop 4 (take (4 + m) (Buffer_content b)))" for m
    using Buffer_segment_content [OF b, of "4 + m"] drop_segment [of 4 "Buffer_peek b" "Buffer_peek b + (4 + m)" "buf_vec b"]
    by (simp add: p_def add.assoc)
  show "ProtobufCodec_decode adler api (Buffer_content b) = Incomplete \<Longrightarrow> ProtobufCodec_onMessage adler api b = Some ([], b)"
    using h b by (subst e) (auto simp: ProtobufCodec_decode_def length_decode_def kLens Let_def split: if_splits)
  define len where "len = sint (dec32 (take 4 (Buffer_content b)))"
  have w: "14 \<le> Buffer_readableBytes b \<Longrightarrow> ProtobufCodec_onMessage adler api b =
     (if kMaxMessageLen < len \<or> len < 10 then Some ([ErrorCallback kInvalidLength], b)
      else if 4 + nat len \<le> Buffer_readableBytes b then
        (case p (nat len) of
           (kNoError, Some message) \<Rightarrow>
             do { b' \<leftarrow> Buffer_retrieve (4 + nat len) b; (calls, b') \<leftarrow> ProtobufCodec_onMessage adler api b'; Some (MessageCallback message # calls, b') }
         | (errorCode, _) \<Rightarrow> Some ([ErrorCallback errorCode], b))
      else Some ([], b))"
    using h unfolding len_def p_def by (subst e) simp
  show "ProtobufCodec_onMessage adler api b = Some (es, b)"
    if "ProtobufCodec_decode adler api (Buffer_content b) = Bad es"
  proof (cases "kMaxMessageLen < len \<or> len < 10")
    case True
    then show ?thesis using that w b by (auto simp: ProtobufCodec_decode_def length_decode_def len_def [symmetric] Let_def split: if_splits)
  next
    case False
    obtain ec mo where p: "p (nat len) = (ec, mo)" by fastforce
    have r: "14 \<le> Buffer_readableBytes b" "4 + nat len \<le> Buffer_readableBytes b"
      "ProtobufCodec_frame adler api (take (4 + nat len) (Buffer_content b)) = (es, False)"
      using that False b by (auto simp: ProtobufCodec_decode_def length_decode_def len_def [symmetric] Let_def prod_eq_iff split: if_splits)
    have "es = [ErrorCallback ec]" "ec = kNoError \<Longrightarrow> mo = None"
      using r(3) p s [OF r(2)] by (auto simp: ProtobufCodec_frame_def split: ErrorCode.splits option.splits)
    then show ?thesis using False r(1,2) w p by (cases ec) auto
  qed
  assume f: "ProtobufCodec_decode adler api (Buffer_content b) = Frame es n"
  have l: "10 + 4 \<le> Buffer_readableBytes b" "4 + nat len \<le> Buffer_readableBytes b" "\<not> kMaxMessageLen < len"
    "\<not> len < 10" "n = 4 + nat len" "ProtobufCodec_frame adler api (take n (Buffer_content b)) = (es, True)"
    using f b by (auto simp: ProtobufCodec_decode_def length_decode_def len_def Let_def prod_eq_iff split: if_splits)
  obtain m where m: "p (nat len) = (kNoError, Some m)" "es = [MessageCallback m]"
    using l(6) s [OF l(2)] l(5) by (auto simp: ProtobufCodec_frame_def split: prod.splits ErrorCode.splits option.splits)
  obtain b' where b': "Buffer_retrieve (4 + nat len) b = Some b'" "Buffer_inv b'" "Buffer_content b' = drop n (Buffer_content b)"
    using Buffer_retrieve_frame [OF b l(2)] l(5) by auto
  have "ProtobufCodec_onMessage adler api b = do { (es', b'') \<leftarrow> ProtobufCodec_onMessage adler api b'; Some (es @ es', b'') }"
    using l m b'(1) w by simp
  with b' show "\<exists>b'. Buffer_inv b' \<and> Buffer_content b' = drop n (Buffer_content b) \<and>
      ProtobufCodec_onMessage adler api b = do { (es', b'') \<leftarrow> ProtobufCodec_onMessage adler api b'; Some (es @ es', b'') }" by blast
qed (simp_all add: ProtobufCodec_decode_def length_decode_laws)

section \<open>Sending\<close>

text \<open>A buffer that was only written to still has the room in front that it started with.\<close>

definition fresh :: "buffer \<Rightarrow> string \<Rightarrow> bool" where
  "fresh b c \<longleftrightarrow> Buffer_inv b \<and> readerIndex b = kCheapPrepend \<and> Buffer_content b = c"

lemma fresh_new: "\<exists>b. Buffer_new n = Some b \<and> fresh b []"
  using Buffer_new_spec [of n] by (auto simp: fresh_def Buffer_prependableBytes_def)

lemma fresh_ensure:
  assumes "fresh b c"
  shows "\<exists>b'. Buffer_ensureWritableBytes n b = Some b' \<and> fresh b' c \<and> n \<le> Buffer_writableBytes b'"
proof -
  obtain b' where b': "Buffer_ensureWritableBytes n b = Some b'" "Buffer_inv b'" "Buffer_content b' = c" "n \<le> Buffer_writableBytes b'"
    using Buffer_ensureWritableBytes_spec [of b n] assms by (auto simp: fresh_def)
  then have "readerIndex b' = kCheapPrepend"
    using assms by (auto simp: fresh_def Buffer_ensureWritableBytes_def Buffer_makeSpace_def split: if_splits)
  with b' show ?thesis by (auto simp: fresh_def)
qed

lemma fresh_write:
  assumes "fresh b c" "length bytes \<le> Buffer_writableBytes b"
  shows "\<exists>b'. Buffer_hasWritten (length bytes) (b\<lparr>buf_vec := overwrite (Buffer_beginWrite b) bytes (buf_vec b)\<rparr>) = Some b' \<and> fresh b' (c @ bytes)"
proof -
  have i: "Buffer_inv b" using assms by (simp add: fresh_def)
  then have "writerIndex b + length bytes \<le> length (buf_vec b)" using assms(2) by (auto simp: Buffer_inv_def Buffer_writableBytes_def)
  then show ?thesis
    using Buffer_write_spec [OF i assms(2)] assms
    by (simp add: fresh_def Buffer_hasWritten_def Buffer_beginWrite_def Buffer_writableBytes_def)
qed

lemma fresh_append:
  assumes "fresh b c"
  shows "\<exists>b'. Buffer_append d b = Some b' \<and> fresh b' (c @ d)"
proof -
  obtain b1 where b1: "Buffer_ensureWritableBytes (length d) b = Some b1" "fresh b1 c" "length d \<le> Buffer_writableBytes b1"
    using fresh_ensure [OF assms] by blast
  from fresh_write [OF b1(2,3)] b1(1) show ?thesis by (simp add: Buffer_append_def)
qed


lemma fresh_prepend: "fresh b c \<Longrightarrow> \<exists>b'. Buffer_prepend (mem_bytes (hostToNetwork32 x)) b = Some b' \<and> Buffer_inv b' \<and> Buffer_content b' = enc32 x @ c"
  using Buffer_prepend_spec [of b "enc32 x"] by (auto simp: fresh_def Buffer_prependableBytes_def kCheapPrepend_def enc32_def [symmetric])



lemma LengthHeaderCodec_send_spec:
  "\<exists>b. LengthHeaderCodec_send m = Some b \<and> Buffer_content b = enc32 (word_of_nat (length m)) @ m \<and> Buffer_inv b"
proof -
  obtain b0 where b0: "Buffer_new kInitialSize = Some b0" "fresh b0 []" using fresh_new by blast
  obtain b1 where "Buffer_append m b0 = Some b1" "fresh b1 m" using fresh_append [OF b0(2), of m] by auto
  with b0(1) fresh_prepend [of b1 m] show ?thesis by (auto simp: LengthHeaderCodec_send_def Let_def)
qed

interpretation lhw: wire_codec LengthHeader_decode LengthHeaderCodec_onMessage
  "\<lambda>m. length m \<le> 65536" LengthHeaderCodec_send "\<lambda>m. [StringMessage m]"
proof unfold_locales
  fix m :: string
  assume "length m \<le> 65536"
  then have "LengthHeader_decode ((enc32 (word_of_nat (length m)) @ m) @ t) = Frame [StringMessage m] (4 + length m)" for t
    unfolding LengthHeader_decode_def by (intro length_decode_wire) simp_all
  with LengthHeaderCodec_send_spec [of m] show "\<exists>b. LengthHeaderCodec_send m = Some b \<and>
      (\<forall>t. LengthHeader_decode (Buffer_content b @ t) = Frame [StringMessage m] (length (Buffer_content b)))"
    by (metis be32.length_enc length_append)
qed (simp add: LengthHeader_decode_def length_decode_laws)













section \<open>Properties\<close>

text \<open>
  C38. Strings of at most 65536 bytes sent with \<^verbatim>\<open>LengthHeaderCodec\<close> arrive: \<^verbatim>\<open>send\<close> succeeds on each, and however
  the network cuts the bytes into chunks, \<^verbatim>\<open>onMessage\<close> returns after every chunk and in all makes one callback
  per string, in the order sent, shuts nothing down and leaves no byte. A longer string (below 2 GiB) is sent
  without complaint, and makes the receiver shut the connection down at its header.
\<close>

theorem LengthHeaderCodec_stream:
  assumes "Buffer_inv b" "Buffer_content b = []"
    and "\<forall>m \<in> set ms. length m \<le> 65536"
    and "concat chunks = concat (map (wire LengthHeaderCodec_send) ms)"
    and "65536 < length big" "length big < 2 ^ 31"
  shows "(\<forall>m \<in> set ms. LengthHeaderCodec_send m \<noteq> None) \<and>
    (\<exists>b'. feed LengthHeaderCodec_onMessage chunks b = Some (map StringMessage ms, b') \<and> Buffer_inv b' \<and> Buffer_content b' = []) \<and>
    (\<exists>w. LengthHeaderCodec_send big = Some w \<and> LengthHeaderCodec_onMessage w = Some ([Conn_shutdown], w))"
proof -
  obtain w where w: "LengthHeaderCodec_send big = Some w" "Buffer_content w = enc32 (word_of_nat (length big)) @ big" "Buffer_inv w"
    using LengthHeaderCodec_send_spec by blast
  have "sint (word_of_nat (length big) :: 32 word) = int (length big)"
    using to_int32_small [OF assms(6)] by (simp add: to_int32_def)
  then have "LengthHeader_decode (Buffer_content w) = Bad [Conn_shutdown]"
    using assms(5) by (simp add: w(2) LengthHeader_decode_def length_decode_def be32.dec_enc)
  with lh.handler_bad [OF w(3)] have "LengthHeaderCodec_onMessage w = Some ([Conn_shutdown], w)" by blast
  moreover have "concat (map (\<lambda>m. [StringMessage m]) ms) = map StringMessage ms" by (induction ms) simp_all
  ultimately show ?thesis
    using lhw.stream [OF assms(1,2) _ assms(4)] assms(3) w(1) by (simp add: list_all_iff)
qed

definition empty_buffer :: buffer where
  "empty_buffer = \<lparr>buf_vec = replicate 20 NUL, readerIndex = 8, writerIndex = 8\<rparr>"

lemma empty_buffer: "Buffer_inv empty_buffer" "Buffer_content empty_buffer = []"
  by (simp_all add: empty_buffer_def Buffer_inv_def Buffer_content_def kCheapPrepend_def)

lemma wire_LengthHeader: "wire LengthHeaderCodec_send m = enc32 (word_of_nat (length m)) @ m"
  using LengthHeaderCodec_send_spec [of m] by (auto simp: wire_def)

theorem LengthHeaderCodec_stream_witness:
  "\<exists>b'. feed LengthHeaderCodec_onMessage [take 3 (enc32 2 @ ''hi''), drop 3 (enc32 2 @ ''hi'') @ enc32 3 @ ''yo'', ''u''] empty_buffer =
     Some ([StringMessage ''hi'', StringMessage ''you''], b') \<and> Buffer_content b' = []"
proof -
  have "concat [take 3 (enc32 2 @ ''hi''), drop 3 (enc32 2 @ ''hi'') @ enc32 3 @ ''yo'', ''u''] =
    concat (map (wire LengthHeaderCodec_send) [''hi'', ''you''])"
    by (simp add: wire_LengthHeader flip: append_assoc)
  from LengthHeaderCodec_stream [OF empty_buffer _ this, of "replicate 65537 NUL"] show ?thesis by auto
qed








end
