(* ===== verification/Spec2Isabelle.thy ===== *)
theory Spec2Isabelle
  imports TcpConnection LoopThreads TimerQueue HttpServer TimeZone Units AsyncLogging ThreadPool
    Connector TcpServer UnsignedInt Codec
begin

text \<open>
  \<^bold>\<open>Verification library for the muduo network library and its companion code.\<close>

  The sources are the directories \<^verbatim>\<open>muduo\<close> (the library: \<^verbatim>\<open>muduo/base\<close>, \<^verbatim>\<open>muduo/net\<close>, and its examples) and
  \<^verbatim>\<open>recipes\<close> of the repository. The definitions are translations of the C++ code into functions on
  explicit states; the lemmas are about these definitions.

  \<^bold>\<open>Conventions.\<close> An object is a record with the fields of the class, its methods are functions from
  the record to the record. A failed assertion, an abort and undefined behaviour are \<^term>\<open>None\<close>
  (\<open>assert_that\<close>), as is a loop that does not return where the loop is a \<^theory_text>\<open>partial_function\<close>; so
  a statement that a result is \<^term>\<open>Some x\<close> says that the code runs to its end without them. What the kernel
  returns is an argument of the operation that calls it, or a function with a named contract
  (\<open>kernel_ok\<close>, \<open>wait_ok\<close>, \<open>poll_ok\<close>); so are allocators and user callbacks (\<open>alloc_ok\<close>, \<open>cb_ok\<close>). Machine
  integers keep their width where the code depends on it. Concurrency is an explicit sequence of events,
  one for each piece of code between two points at which another thread can run; a theorem about all
  sequences is about all interleavings. Logging, names of threads and socket options are left out
  everywhere.

  \<^bold>\<open>Parts and theories.\<close>

  \<^item> \<open>Prelude\<close>: assertions, arrays and their segments, search in strings, decimal output and \<^verbatim>\<open>snprintf\<close>.
  \<^item> \<open>Endian\<close>, \<open>StringPiece\<close>, \<open>Buffer\<close>: byte order, views of strings (\<^verbatim>\<open>base/StringPiece.h\<close>), and the input and
    output buffer (\<^verbatim>\<open>net/Buffer.h\<close>) with its three indices. Every sequence of operations of a buffer refines
    operations on the string it holds; integers written are read back; searching for line ends is exact.
  \<^item> \<open>Channel\<close>, \<open>Poller\<close>, \<open>EPollPoller\<close>, \<open>PollPoller\<close>, \<open>DefaultPoller\<close>: the dispatch of events of a descriptor
    and the two demultiplexers. A locale states what a loop needs of a poller; both implementations are
    interpretations, and a sequence of updates leaves either one watching exactly the wanted events.
  \<^item> \<open>EventLoop\<close>, \<open>LoopThreads\<close>: one iteration of the loop, pending functors, wakeup, \<^verbatim>\<open>quit\<close>; \<open>LoopThreads\<close> interleaves
    the loop with other threads as an inductive step relation. No wakeup is lost, functors run once and in order.
  \<^item> \<open>TcpConnection\<close>: a connection from \<^verbatim>\<open>connectEstablished\<close> to \<^verbatim>\<open>connectDestroyed\<close>, on the models of the buffer, the channel, the
    loop and the poller. Bytes accepted for sending reach the kernel in order, half-closing waits for them,
    and sequences of calls and events that respect the life of a connection never fail an assertion. The
    sequences that do fail one are theorems too.
  \<^item> \<open>Timestamp\<close>, \<open>TimerQueue\<close>: times, and the timers of a loop with objects that are deleted: no
    dangling timer is read, exactly the due timers run, repeating ones are re-queued.
  \<^item> \<open>HttpContext\<close>, \<open>HttpServer\<close>: the incremental request parser on a real buffer (a \<^theory_text>\<open>partial_function\<close>,
    with the theorem that it returns), and the server on a real connection.
  \<^item> \<open>Date\<close>, \<open>TimeZone\<close>: the civil calendar and zone files with their binary search.
  \<^item> \<open>LogStream\<close>, \<open>Units\<close>: the log line in a fixed array, integer output, and \<^verbatim>\<open>formatSI\<close> and \<^verbatim>\<open>formatIEC\<close> with double
    rounding.
  \<^item> \<open>AsyncLogging\<close>: the buffers exchanged by the threads that log and the thread that writes.
  \<^item> \<open>Monitor\<close>, \<open>ThreadPool\<close>: condition variables, blocking queues, the latch and the thread pool. The locale
    \<open>signalling\<close> states how a condition variable may be used and derives that no wakeup is lost; its six
    interpretations are the condition variables of these classes.
  \<^item> \<open>Connector\<close>, \<open>TcpServer\<close>: connecting with retries, and accepting, distributing and removing connections.

  \<^bold>\<open>Bounds.\<close> There is no fuel: loops are structural recursions, functions with a measure, or
  \<^theory_text>\<open>partial_function\<close>s whose return is proved. Sizes that occur in hypotheses are those of the code: numbers of
  at most 64 bits in a log line, 2^31 connections of a server, addresses of at most 51 characters.

  \<^bold>\<open>Not modelled.\<close> Wrappers of system calls without logic (\<^verbatim>\<open>Socket\<close>, \<^verbatim>\<open>SocketsOps\<close>, \<^verbatim>\<open>ProcessInfo\<close>, \<^verbatim>\<open>FileUtil\<close>,
  \<^verbatim>\<open>Thread\<close>, \<^verbatim>\<open>Mutex\<close>), templates whose content is a language feature (\<^verbatim>\<open>Singleton\<close>, \<^verbatim>\<open>ThreadLocal\<close>, \<^verbatim>\<open>WeakCallback\<close>),
  code around libraries that are not in the repository (protobuf, thrift, hiredis, curl, zlib, c-ares), test and benchmark
  programs, the Java and Python recipes, and the notes on MySQL, which hold no program.
\<close>

end
